(* ===== verification/Prelude.thy ===== *)
theory Prelude
  imports Main "HOL-Library.Word"
begin

text \<open>
  Shared vocabulary of the development: the machine integers of the i386 target, the way a
  kernel function can fail to return, the flat byte-addressed memory that pointers index,
  and the lemmas on words, memory ranges and pages that the component theories use.

  C's \<open>uint\<close> and \<open>int\<close> are both \<open>32 word\<close>; a signed reading is taken with \<open>sint\<close> and
  signed overflow wraps, as the add instruction the compiler emits for it does.
\<close>

unbundle bit_operations_syntax

named_theorems mem_simps
  \<open>reading memory after writing it\<close>

named_theorems res_simps
  \<open>running a computation that may fail\<close>

type_synonym u8 = "8 word"
type_synonym u16 = "16 word"
type_synonym u32 = "32 word"
type_synonym i32 = "32 word"


section \<open>Results\<close>

text \<open>
  A kernel function that does not return normally either calls \<open>panic\<close> with a message, or
  makes an access outside the object it indexes (which C leaves undefined; the string names
  the access), or loops forever, or goes to sleep, after which what happens depends on the
  other processes.
\<close>

datatype kerr = Panic string | Fault string | Diverge | Sleeps

type_synonym 'a res = "kerr + 'a"

definition bind_res :: "'a res \<Rightarrow> ('a \<Rightarrow> 'b res) \<Rightarrow> 'b res" where
  "bind_res r f = (case r of Inl e \<Rightarrow> Inl e | Inr x \<Rightarrow> f x)"

lemma bind_res_Inl [simp, res_simps]: "bind_res (Inl e) f = Inl e"
  by (simp add: bind_res_def)

lemma bind_res_Inr [simp, res_simps]: "bind_res (Inr x) f = f x"
  by (simp add: bind_res_def)

lemma bind_res_eq_Inr: "bind_res r f = Inr y \<longleftrightarrow> (\<exists>x. r = Inr x \<and> f x = Inr y)"
  by (cases r) simp_all

lemma bind_res_eq_InrE:
  assumes "bind_res r f = Inr y"
  obtains x where "r = Inr x" and "f x = Inr y"
  using assms by (auto simp: bind_res_eq_Inr)

lemma bind_res_assoc: "bind_res (bind_res r f) g = bind_res r (\<lambda>x. bind_res (f x) g)"
  by (cases r) simp_all

lemma bind_res_cong [fundef_cong]:
  "r = r' \<Longrightarrow> (\<And>x. r' = Inr x \<Longrightarrow> f x = g x) \<Longrightarrow> bind_res r f = bind_res r' g"
  by (cases r') (auto simp: bind_res_def)

text \<open>A \<open>for\<close> loop over indices whose body may fail.\<close>

fun for_res :: "'i list \<Rightarrow> ('i \<Rightarrow> 's \<Rightarrow> 's res) \<Rightarrow> 's \<Rightarrow> 's res" where
  "for_res [] f s = Inr s"
| "for_res (i # is) f s = bind_res (f i s) (for_res is f)"

lemma for_res_append: "for_res (xs @ ys) f s = bind_res (for_res xs f s) (for_res ys f)"
proof (induction xs arbitrary: s)
  case (Cons i xs)
  have "for_res (xs @ ys) f = (\<lambda>x. bind_res (for_res xs f x) (for_res ys f))"
    by (rule ext) (rule Cons.IH)
  then show ?case by (simp add: bind_res_assoc)
qed simp

lemma for_res_total:
  assumes "\<And>i s. i \<in> set is \<Longrightarrow> P s \<Longrightarrow> \<exists>s'. f i s = Inr s' \<and> P s'" and "P s"
  shows "\<exists>s'. for_res is f s = Inr s' \<and> P s'"
  using assms
proof (induction "is" arbitrary: s)
  case Nil
  then show ?case by simp
next
  case (Cons i "is")
  from Cons.prems obtain s1 where "f i s = Inr s1" and "P s1" by (metis list.set_intros(1))
  moreover from Cons.IH [of s1] Cons.prems \<open>P s1\<close>
  obtain s2 where "for_res is f s1 = Inr s2" and "P s2" by auto
  ultimately show ?case by auto
qed

lemma for_res_invariant:
  assumes "for_res is f s = Inr s'" and "P s"
    and "\<And>i s s'. i \<in> set is \<Longrightarrow> P s \<Longrightarrow> f i s = Inr s' \<Longrightarrow> P s'"
  shows "P s'"
  using assms by (induction "is" arbitrary: s) (auto simp: bind_res_eq_Inr)

lemma for_res_pure: "for_res is (\<lambda>i s. Inr (g i s)) s = Inr (fold g is s)"
  by (induction "is" arbitrary: s) simp_all

lemma for_res_step_ok: "for_res is f s = Inr s' \<Longrightarrow> i \<in> set is \<Longrightarrow> \<exists>t t'. f i t = Inr t'"
  by (induction "is" arbitrary: s) (auto simp: bind_res_eq_Inr)

text \<open>A loop in which iteration \<open>k\<close> fails, fails.\<close>

lemma for_res_error:
  assumes "\<And>i s. i \<in> set is \<Longrightarrow> P s \<Longrightarrow> i \<noteq> k \<Longrightarrow> (\<exists>s'. f i s = Inr s' \<and> P s') \<or> f i s = Inl e"
    and "\<And>s. P s \<Longrightarrow> f k s = Inl e" and "k \<in> set is" and "P s"
  shows "for_res is f s = Inl e"
  using assms
proof (induction "is" arbitrary: s)
  case (Cons i "is")
  show ?case
  proof (cases "i = k")
    case True
    then show ?thesis using Cons.prems by simp
  next
    case False
    with Cons.prems consider s' where "f i s = Inr s'" "P s'" | "f i s = Inl e" by fastforce
    then show ?thesis
    proof cases
      case 1
      then show ?thesis using Cons False by auto
    qed simp
  qed
qed simp


section \<open>Memory\<close>

type_synonym memory = "u32 \<Rightarrow> u8"

text \<open>The little-endian bytes of a 32-bit word, and back.\<close>

definition bytes_of_u32 :: "u32 \<Rightarrow> u8 list" where
  "bytes_of_u32 v = [ucast v, ucast (drop_bit 8 v), ucast (drop_bit 16 v), ucast (drop_bit 24 v)]"

definition u32_of_bytes :: "u8 \<Rightarrow> u8 \<Rightarrow> u8 \<Rightarrow> u8 \<Rightarrow> u32" where
  "u32_of_bytes b0 b1 b2 b3 =
     ucast b0 OR push_bit 8 (ucast b1) OR push_bit 16 (ucast b2) OR push_bit 24 (ucast b3)"

definition load32 :: "memory \<Rightarrow> u32 \<Rightarrow> u32" where
  "load32 m a = u32_of_bytes (m a) (m (a + 1)) (m (a + 2)) (m (a + 3))"

text \<open>The bytes \<open>bs\<close> stored at consecutive addresses from \<open>a\<close> (addresses wrap at \<open>2 ^ 32\<close>).\<close>

definition in_range :: "u32 \<Rightarrow> nat \<Rightarrow> u32 \<Rightarrow> bool" where
  "in_range a n x \<longleftrightarrow> unat (x - a) < n"

definition store_bytes :: "memory \<Rightarrow> u32 \<Rightarrow> u8 list \<Rightarrow> memory" where
  "store_bytes m a bs = (\<lambda>x. if in_range a (length bs) x then bs ! unat (x - a) else m x)"

definition load_bytes :: "memory \<Rightarrow> u32 \<Rightarrow> nat \<Rightarrow> u8 list" where
  "load_bytes m a n = map (\<lambda>i. m (a + of_nat i)) [0..<n]"

definition store32 :: "memory \<Rightarrow> u32 \<Rightarrow> u32 \<Rightarrow> memory" where
  "store32 m a v = store_bytes m a (bytes_of_u32 v)"

lemma length_bytes_of_u32 [simp]: "length (bytes_of_u32 v) = 4"
  by (simp add: bytes_of_u32_def)

lemma u32_of_bytes_of_u32:
  "u32_of_bytes (ucast v) (ucast (drop_bit 8 v)) (ucast (drop_bit 16 v)) (ucast (drop_bit 24 v)) = v"
  (is "?w = v")
proof (rule bit_word_eqI)
  fix n
  assume "n < LENGTH(32)"
  then have n: "n < 32" by simp
  then have "bit ?w n \<longleftrightarrow> n < 8 \<and> bit v n \<or> 8 \<le> n \<and> n - 8 < 8 \<and> bit v n
      \<or> 16 \<le> n \<and> n - 16 < 8 \<and> bit v n \<or> 24 \<le> n \<and> n - 24 < 8 \<and> bit v n"
    by (auto simp: u32_of_bytes_def bit_or_iff bit_push_bit_iff bit_unsigned_iff bit_drop_bit_eq)
  also have "\<dots> = bit v n" using n by (cases "bit v n"; simp; linarith)
  finally show "bit ?w n = bit v n" .
qed

lemma length_load_bytes [simp]: "length (load_bytes m a n) = n"
  by (simp add: load_bytes_def)

lemma nth_load_bytes [simp]: "i < n \<Longrightarrow> load_bytes m a n ! i = m (a + of_nat i)"
  by (simp add: load_bytes_def)

lemma in_range_offset: "unat i < n \<Longrightarrow> in_range a n (a + i)"
  by (simp add: in_range_def)

lemma in_range_offset_nat: "i < n \<Longrightarrow> n \<le> 2 ^ 32 \<Longrightarrow> in_range a n (a + of_nat i)"
  by (simp add: in_range_def unat_of_nat)

lemma in_range_base [simp]: "0 < n \<Longrightarrow> in_range a n a"
  by (simp add: in_range_def)

lemma in_range_mono: "in_range a n x \<Longrightarrow> n \<le> k \<Longrightarrow> in_range a k x"
  by (simp add: in_range_def)

lemma store_bytes_out [mem_simps]: "\<not> in_range a (length bs) x \<Longrightarrow> store_bytes m a bs x = m x"
  by (simp add: store_bytes_def)

lemma store_bytes_in [mem_simps]:
  "i < length bs \<Longrightarrow> length bs \<le> 2 ^ 32 \<Longrightarrow> store_bytes m a bs (a + of_nat i) = bs ! i"
  by (simp add: store_bytes_def in_range_def unat_of_nat)

lemma load_bytes_cong:
  "(\<And>x. in_range a n x \<Longrightarrow> m x = m' x) \<Longrightarrow> n \<le> 2 ^ 32 \<Longrightarrow> load_bytes m a n = load_bytes m' a n"
  by (simp add: load_bytes_def in_range_offset_nat)

lemma load_store_bytes [mem_simps]:
  "n = length bs \<Longrightarrow> n \<le> 2 ^ 32 \<Longrightarrow> load_bytes (store_bytes m a bs) a n = bs"
  by (rule nth_equalityI) (simp_all add: store_bytes_in)

lemma load32_store32 [mem_simps]: "load32 (store32 m a v) a = v"
proof -
  have "\<And>i. i < 4 \<Longrightarrow> store32 m a v (a + of_nat i) = bytes_of_u32 v ! i"
    by (simp add: store32_def store_bytes_in)
  from this [of 0] this [of 1] this [of 2] this [of 3] show ?thesis
    by (simp add: load32_def bytes_of_u32_def u32_of_bytes_of_u32 numeral_2_eq_2 numeral_3_eq_3)
qed

lemma load32_cong: "(\<And>x. in_range a 4 x \<Longrightarrow> m x = m' x) \<Longrightarrow> load32 m a = load32 m' a"
  by (simp add: load32_def in_range_def)


section \<open>Pages\<close>

definition PGSIZE :: nat where "PGSIZE = 4096"

abbreviation page_aligned :: "u32 \<Rightarrow> bool" where
  "page_aligned p \<equiv> unat p mod 4096 = 0"

text \<open>Two aligned pages that share an address are the same page.\<close>

lemma unat_less_exp32: "unat (x :: u32) < 2 ^ 32"
proof -
  have "unat x < 2 ^ LENGTH(32)" by (rule unsigned_less)
  then show ?thesis by simp
qed

lemma page_room:
  assumes "page_aligned p"
  shows "unat p + 4096 \<le> 2 ^ 32"
proof -
  from assms obtain k where "unat p = 4096 * k" by (auto elim: dvdE)
  with unat_less_exp32 [of p] show ?thesis by simp
qed

lemma in_page_unat:
  assumes "page_aligned p" and "in_range p 4096 x"
  shows "unat x div 4096 * 4096 = unat p"
proof -
  define d where "d = unat (x - p)"
  have d: "d < 4096" using assms(2) by (simp add: d_def in_range_def)
  with page_room [OF assms(1)] have "unat p + d < 2 ^ 32" by simp
  moreover have "x = p + of_nat d" by (simp add: d_def)
  ultimately have "unat x = unat p + d" by (simp add: unat_word_ariths unat_of_nat)
  moreover from assms(1) obtain k where "unat p = 4096 * k" by (auto elim: dvdE)
  ultimately show ?thesis using d by simp
qed

lemma page_overlap_eq:
  assumes "page_aligned p" "page_aligned q" "in_range p 4096 x" "in_range q 4096 x"
  shows "p = q"
  using in_page_unat [OF assms(1,3)] in_page_unat [OF assms(2,4)] by (simp add: word_unat_eq_iff)

lemma in_range_sub:
  assumes "in_range (a + of_nat k) n x" and "k + n \<le> m" and "m \<le> 2 ^ 32"
  shows "in_range a m x"
proof -
  have "x - a = (x - (a + of_nat k)) + of_nat k" by simp
  then have "unat (x - a) \<le> unat (x - (a + of_nat k)) + unat (of_nat k :: u32)"
    by (metis unat_word_ariths(1) mod_less_eq_dividend)
  also have "\<dots> \<le> unat (x - (a + of_nat k)) + k"
    by (simp add: unat_of_nat)
  finally show ?thesis using assms by (simp add: in_range_def)
qed

lemma in_range_offset_iff:
  assumes "k + n \<le> 2 ^ 32"
  shows "in_range (a + of_nat k) n x \<longleftrightarrow> k \<le> unat (x - a) \<and> unat (x - a) < k + n"
proof (cases "n = 0")
  case True
  then show ?thesis by (simp add: in_range_def)
next
  case False
  with assms have k: "unat (of_nat k :: u32) = k" by (simp add: unat_of_nat)
  have "unat (x - (a + of_nat k)) = unat ((x - a) - of_nat k)" by (simp add: algebra_simps)
  also have "\<dots> = (if k \<le> unat (x - a) then unat (x - a) - k else unat (x - a) + 2 ^ 32 - k)"
    using unat_sub_if_size [of "x - a" "of_nat k :: u32"] k by (simp add: word_size)
  finally show ?thesis using assms by (auto simp: in_range_def)
qed

text \<open>Two regions of memory that do not wrap around and do not overlap.\<close>

definition apart :: "u32 \<Rightarrow> nat \<Rightarrow> u32 \<Rightarrow> nat \<Rightarrow> bool" where
  "apart a n b k \<longleftrightarrow> unat a + n \<le> 2 ^ 32 \<and> unat b + k \<le> 2 ^ 32
     \<and> (unat a + n \<le> unat b \<or> unat b + k \<le> unat a)"

lemma in_range_unat:
  assumes "unat a + n \<le> 2 ^ 32"
  shows "in_range a n x \<longleftrightarrow> unat a \<le> unat x \<and> unat x < unat a + n"
proof (cases "n = 0")
  case False
  have "x - a = x - (0 + of_nat (unat a))" by simp
  then show ?thesis using in_range_offset_iff [of "unat a" n 0 x] assms by simp
qed (simp add: in_range_def)

lemma apart_in_range: "apart a n b k \<Longrightarrow> in_range a n x \<Longrightarrow> \<not> in_range b k x"
  by (auto simp: apart_def in_range_unat)

lemma load_bytes_apart:
  "apart a (length bs) b k \<Longrightarrow> load_bytes (store_bytes m a bs) b k = load_bytes m b k"
proof (rule load_bytes_cong)
  assume *: "apart a (length bs) b k"
  then show "k \<le> 2 ^ 32" by (simp add: apart_def)
  show "store_bytes m a bs x = m x" if "in_range b k x" for x
    using that apart_in_range [OF *, of x] by (intro store_bytes_out) blast
qed

end
