(* ===== verification/Spinlock.thy ===== *)
theory Spinlock
  imports Prelude
begin

text \<open>
  The spin locks of \<open>src/spinlock.c\<close>, twice. First the functions as one CPU runs them: they
  read and change the lock, given as a \<open>spinlock\<close> record, and the running CPU's interrupt
  state, the fields of \<open>cpu_st\<close> that every later kernel state extends. A CPU that runs alone
  spins forever on a lock that is taken, which is the result \<open>Diverge\<close>. Then the same
  statements as a step relation in which any number of CPUs interleave on one lock, one
  shared-memory access at a time (sequentially consistent).
\<close>

section \<open>One CPU\<close>

record spinlock =
  locked :: u32
  lname :: string
  lcpu :: "nat option"
  pcs :: "u32 list"

text \<open>
  The part of \<open>struct cpu\<close> and of the registers that locking uses. \<open>argp\<close> is the address
  \<open>&lk\<close> of the argument of \<open>acquire\<close> on the kernel stack, \<open>stackw\<close> reads a stack word.
\<close>

record cpu_st =
  cpuid :: nat
  ncli :: i32
  intena :: u32
  eflags :: u32
  argp :: u32
  stackw :: "u32 \<Rightarrow> u32"

definition FL_IF :: u32 where "FL_IF = 0x200"
definition KERNBASE :: u32 where "KERNBASE = 0x80000000"

definition initlock :: "string \<Rightarrow> spinlock \<Rightarrow> spinlock" where
  "initlock name lk = lk\<lparr>lname := name, locked := 0, lcpu := None\<rparr>"

definition readeflags :: "'a cpu_st_scheme \<Rightarrow> u32" where
  "readeflags s = eflags s"

definition cli :: "'a cpu_st_scheme \<Rightarrow> 'a cpu_st_scheme" where
  "cli s = s\<lparr>eflags := eflags s AND NOT FL_IF\<rparr>"

definition sti :: "'a cpu_st_scheme \<Rightarrow> 'a cpu_st_scheme" where
  "sti s = s\<lparr>eflags := eflags s OR FL_IF\<rparr>"

definition holding :: "spinlock \<Rightarrow> 'a cpu_st_scheme \<Rightarrow> bool" where
  "holding lk s \<longleftrightarrow> locked lk \<noteq> 0 \<and> lcpu lk = Some (cpuid s)"

definition pushcli :: "'a cpu_st_scheme \<Rightarrow> 'a cpu_st_scheme" where
  "pushcli s =
     (let eflags = readeflags s;
        s = cli s;
        s = (if ncli s = 0 then s\<lparr>intena := eflags AND FL_IF\<rparr> else s)
      in s\<lparr>ncli := ncli s + 1\<rparr>)"

definition popcli :: "'a cpu_st_scheme \<Rightarrow> 'a cpu_st_scheme res" where
  "popcli s =
     (if readeflags s AND FL_IF \<noteq> 0 then Inl (Panic ''popcli - interruptible'')
      else
        (let s = s\<lparr>ncli := ncli s - 1\<rparr>
         in if sint (ncli s) < 0 then Inl (Panic ''popcli'')
            else if ncli s = 0 \<and> intena s \<noteq> 0 then Inr (sti s)
            else Inr s))"

text \<open>The loop over the saved \<open>%ebp\<close> chain, and the zeros that fill the rest of \<open>pcs\<close>.\<close>

primrec callerpcs_loop :: "(u32 \<Rightarrow> u32) \<Rightarrow> u32 \<Rightarrow> nat \<Rightarrow> u32 list" where
  "callerpcs_loop rd ebp 0 = []"
| "callerpcs_loop rd ebp (Suc n) =
     (if ebp = 0 \<or> ebp < KERNBASE \<or> ebp = 0xffffffff then replicate (Suc n) 0
      else rd (ebp + 4) # callerpcs_loop rd (rd ebp) n)"

definition getcallerpcs :: "u32 \<Rightarrow> 'a cpu_st_scheme \<Rightarrow> u32 list" where
  "getcallerpcs v s = callerpcs_loop (stackw s) (v - 8) 10"

text \<open>\<open>xchg\<close> on the lock word returns the old value and stores 1.\<close>

definition acquire :: "spinlock \<Rightarrow> 'a cpu_st_scheme \<Rightarrow> (spinlock \<times> 'a cpu_st_scheme) res" where
  "acquire lk s =
     (let s = pushcli s
      in if holding lk s then Inl (Panic ''acquire'')
         else if locked lk \<noteq> 0 then Inl Diverge
         else Inr (lk\<lparr>locked := 1, lcpu := Some (cpuid s), pcs := getcallerpcs (argp s) s\<rparr>, s))"

definition release :: "spinlock \<Rightarrow> 'a cpu_st_scheme \<Rightarrow> (spinlock \<times> 'a cpu_st_scheme) res" where
  "release lk s =
     (if \<not> holding lk s then Inl (Panic ''release'')
      else
        (let lk = lk\<lparr>pcs := (pcs lk)[0 := 0], lcpu := None, locked := 0\<rparr>
         in bind_res (popcli s) (\<lambda>s. Inr (lk, s))))"


subsection \<open>Critical sections\<close>

text \<open>Interrupts are off inside a section, and the nesting depth is far from wrapping.\<close>

definition cpu_ok :: "'a cpu_st_scheme \<Rightarrow> bool" where
  "cpu_ok s \<longleftrightarrow> 0 \<le> sint (ncli s) \<and> sint (ncli s) < 2 ^ 31 - 1
     \<and> (ncli s \<noteq> 0 \<longrightarrow> eflags s AND FL_IF = 0)"

text \<open>
  The interrupt state is as it was: \<open>intena\<close> may only have been recomputed outside every
  section, where nothing reads it before it is set again.
\<close>

definition balanced :: "'a cpu_st_scheme \<Rightarrow> 'b cpu_st_scheme \<Rightarrow> bool" where
  "balanced s s' \<longleftrightarrow> cpuid s' = cpuid s \<and> ncli s' = ncli s \<and> eflags s' = eflags s
     \<and> argp s' = argp s \<and> stackw s' = stackw s \<and> (ncli s \<noteq> 0 \<longrightarrow> intena s' = intena s)"

lemma balanced_refl [simp, intro]: "balanced s s"
  by (simp add: balanced_def)

lemma balanced_trans [trans]: "balanced s t \<Longrightarrow> balanced t u \<Longrightarrow> balanced s u"
  by (simp add: balanced_def)

lemma balanced_cpuid: "balanced s s' \<Longrightarrow> cpuid s' = cpuid s"
  by (simp add: balanced_def)

lemma cpu_ok_balanced: "balanced s s' \<Longrightarrow> cpu_ok s' \<longleftrightarrow> cpu_ok s"
  by (simp add: balanced_def cpu_ok_def)

lemma bit_FL_IF: "bit FL_IF n \<longleftrightarrow> n = 9"
proof -
  have *: "FL_IF = 2 ^ 9" by (simp add: FL_IF_def)
  show ?thesis unfolding * by (simp only: bit_exp_iff) auto
qed

lemma and_FL_IF: "e AND FL_IF \<noteq> 0 \<longleftrightarrow> bit e 9"
  by (simp add: FL_IF_def bit_iff_and_push_bit_not_eq_0)

lemma eflags_restore: "e AND FL_IF \<noteq> 0 \<Longrightarrow> (e AND NOT FL_IF) OR FL_IF = e"
  unfolding and_FL_IF by (intro bit_word_eqI) (auto simp: bit_FL_IF bit_simps)

lemma eflags_keep: "e AND FL_IF = 0 \<Longrightarrow> e AND NOT FL_IF = e"
  using and_FL_IF [of e] by (intro bit_word_eqI) (auto simp: bit_FL_IF bit_simps)

lemma eflags_off: "(e AND NOT FL_IF) AND FL_IF = 0"
  using and_FL_IF [of "e AND NOT FL_IF"] by (auto simp: bit_FL_IF bit_simps)

lemmas cli_defs = pushcli_def popcli_def readeflags_def cli_def sti_def Let_def

lemma pushcli_simps [simp]:
  "cpuid (pushcli s) = cpuid s" "argp (pushcli s) = argp s" "stackw (pushcli s) = stackw s"
  "ncli (pushcli s) = ncli s + 1" "eflags (pushcli s) = eflags s AND NOT FL_IF"
  "intena (pushcli s) = (if ncli s = 0 then eflags s AND FL_IF else intena s)"
  "cpu_st.more (pushcli s) = cpu_st.more s"
  by (simp_all add: cli_defs)

lemma sint_succ:
  fixes x :: i32
  assumes "sint x < 2 ^ 31 - 1"
  shows "sint (x + 1) = sint x + 1"
proof -
  have "- (2 ^ 31) \<le> sint x" using sint_ge [of x] by simp
  with assms show ?thesis by (simp add: sint_word_ariths signed_take_bit_int_eq_self)
qed

text \<open>
  \<open>popcli\<close>, run in any state \<open>t\<close> whose interrupt state is that after \<open>pushcli s\<close>, succeeds
  and restores the interrupt state of \<open>s\<close>.
\<close>

definition leave :: "'a cpu_st_scheme \<Rightarrow> 'b cpu_st_scheme \<Rightarrow> 'b cpu_st_scheme" where
  "leave s t = t\<lparr>ncli := ncli s, eflags := eflags s\<rparr>"

lemma ncli_succ_nonzero: "cpu_ok s \<Longrightarrow> ncli s + 1 \<noteq> 0"
  using sint_succ [of "ncli s"] by (auto simp: cpu_ok_def)

lemma popcli_pushcli:
  assumes "cpu_ok s" and "balanced (pushcli s) t"
  shows "popcli t = Inr (leave s t)"
proof -
  have t: "ncli t = ncli s + 1" "eflags t = eflags s AND NOT FL_IF"
    "intena t = (if ncli s = 0 then eflags s AND FL_IF else intena s)"
    using assms(2) ncli_succ_nonzero [OF assms(1)] by (simp_all add: balanced_def)
  show ?thesis
    using assms(1) by (auto simp: cli_defs t eflags_off leave_def cpu_ok_def
        eflags_restore eflags_keep)
qed

lemma balanced_leave:
  assumes "cpu_ok s" and "balanced (pushcli s) t"
  shows "balanced s (leave s t)"
  using assms(2) ncli_succ_nonzero [OF assms(1)] by (auto simp: balanced_def leave_def)

lemma cpu_ok_pushcli: "cpu_ok s \<Longrightarrow> sint (ncli s) < 2 ^ 31 - 2 \<Longrightarrow> cpu_ok (pushcli s)"
  using sint_succ [of "ncli s"] by (simp add: cpu_ok_def eflags_off)

text \<open>There is room for \<open>d\<close> nested sections.\<close>

definition cpu_room :: "nat \<Rightarrow> 'a cpu_st_scheme \<Rightarrow> bool" where
  "cpu_room d s \<longleftrightarrow> cpu_ok s \<and> sint (ncli s) + int d < 2 ^ 31"

lemma cpu_room_ok: "cpu_room d s \<Longrightarrow> cpu_ok s"
  by (simp add: cpu_room_def)

lemma cpu_room_mono: "cpu_room d s \<Longrightarrow> e \<le> d \<Longrightarrow> cpu_room e s"
  by (simp add: cpu_room_def)

lemma cpu_room_balanced: "balanced s s' \<Longrightarrow> cpu_room d s' \<longleftrightarrow> cpu_room d s"
  by (auto simp: cpu_room_def cpu_ok_def balanced_def)

lemma cpu_room_pushcli: "cpu_room (Suc d) s \<Longrightarrow> 0 < d \<Longrightarrow> cpu_room d (pushcli s)"
  using cpu_ok_pushcli [of s] sint_succ [of "ncli s"] by (simp add: cpu_room_def)

text \<open>Taking a free lock, and giving it back from the same section.\<close>

definition taken :: "'a cpu_st_scheme \<Rightarrow> spinlock \<Rightarrow> spinlock" where
  "taken s lk =
     lk\<lparr>locked := 1, lcpu := Some (cpuid s), pcs := callerpcs_loop (stackw s) (argp s - 8) 10\<rparr>"

definition freed :: "spinlock \<Rightarrow> spinlock" where
  "freed lk = lk\<lparr>pcs := (pcs lk)[0 := 0], lcpu := None, locked := 0\<rparr>"

lemma locked_simps [simp]:
  "locked (taken s lk) = 1" "lcpu (taken s lk) = Some (cpuid s)" "lname (taken s lk) = lname lk"
  "locked (freed lk) = 0" "lcpu (freed lk) = None" "lname (freed lk) = lname lk"
  "locked (initlock nm lk) = 0"
  by (simp_all add: taken_def freed_def initlock_def)

lemma acquire_free: "locked lk = 0 \<Longrightarrow> acquire lk s = Inr (taken s lk, pushcli s)"
  by (simp add: acquire_def Let_def holding_def taken_def getcallerpcs_def)

lemma acquire_held: "locked lk \<noteq> 0 \<Longrightarrow> lcpu lk = Some (cpuid s) \<Longrightarrow> acquire lk s = Inl (Panic ''acquire'')"
  by (simp add: acquire_def Let_def holding_def)

lemma release_taken:
  assumes "cpu_ok s" and "balanced (pushcli s) t" and "locked lk \<noteq> 0" and "lcpu lk = Some (cpuid s)"
  shows "release lk t = Inr (freed lk, leave s t)"
proof -
  have "cpuid t = cpuid s" using assms(2) by (simp add: balanced_def)
  with assms show ?thesis
    by (simp add: release_def holding_def popcli_pushcli freed_def Let_def)
qed

lemmas section_simps = acquire_free release_taken

lemma getcallerpcs_length: "length (getcallerpcs v s) = 10"
proof -
  have "length (callerpcs_loop rd ebp n) = n" for rd ebp n
    by (induction n arbitrary: ebp) simp_all
  then show ?thesis by (simp add: getcallerpcs_def)
qed


section \<open>Several CPUs\<close>

text \<open>
  Where a CPU stands in \<open>acquire\<close> (the two reads of \<open>holding\<close>, the \<open>xchg\<close> loop, the store
  to \<open>lk->cpu\<close>) and in \<open>release\<close> (the two reads of \<open>holding\<close>, the stores to \<open>lk->cpu\<close> and
  \<open>lk->locked\<close>). \<open>Outside\<close> and \<open>Critical\<close> are the places between the calls.
  \<open>pushcli\<close>, \<open>popcli\<close> and the stores to \<open>lk->pcs\<close> touch no word that another CPU tests; they are in \<open>acquire\<close> and
  \<open>release\<close> above and not among these steps.
\<close>

datatype lock_pc =
    Outside | AcqReadLocked | AcqReadCpu | AcqXchg | AcqSetCpu | Critical
  | RelReadLocked | RelReadCpu | RelClearCpu | RelUnlock | Panicked

record lock_machine =
  pc :: "nat \<Rightarrow> lock_pc"
  mlocked :: u32
  mcpu :: "nat option"

definition goto :: "nat \<Rightarrow> lock_pc \<Rightarrow> lock_machine \<Rightarrow> lock_machine" where
  "goto c l m = m\<lparr>pc := (pc m)(c := l)\<rparr>"

fun lock_exec :: "nat \<Rightarrow> lock_pc \<Rightarrow> lock_machine \<Rightarrow> lock_machine" where
  "lock_exec c Outside m = goto c AcqReadLocked m"
| "lock_exec c AcqReadLocked m = goto c (if mlocked m \<noteq> 0 then AcqReadCpu else AcqXchg) m"
| "lock_exec c AcqReadCpu m = goto c (if mcpu m = Some c then Panicked else AcqXchg) m"
| "lock_exec c AcqXchg m =
     goto c (if mlocked m \<noteq> 0 then AcqXchg else AcqSetCpu) (m\<lparr>mlocked := 1\<rparr>)"
| "lock_exec c AcqSetCpu m = goto c Critical (m\<lparr>mcpu := Some c\<rparr>)"
| "lock_exec c Critical m = goto c RelReadLocked m"
| "lock_exec c RelReadLocked m = goto c (if mlocked m \<noteq> 0 then RelReadCpu else Panicked) m"
| "lock_exec c RelReadCpu m = goto c (if mcpu m = Some c then RelClearCpu else Panicked) m"
| "lock_exec c RelClearCpu m = goto c RelUnlock (m\<lparr>mcpu := None\<rparr>)"
| "lock_exec c RelUnlock m = goto c Outside (m\<lparr>mlocked := 0\<rparr>)"
| "lock_exec c Panicked m = m"

definition lock_machine_init :: lock_machine where
  "lock_machine_init = \<lparr>pc = (\<lambda>c. Outside), mlocked = 0, mcpu = None\<rparr>"

text \<open>Any CPU may execute its next statement at any time.\<close>

inductive lock_reach :: "lock_machine \<Rightarrow> bool" where
  init: "lock_reach lock_machine_init"
| step: "lock_reach m \<Longrightarrow> lock_reach (lock_exec c (pc m c) m)"

definition holds_word :: "lock_pc \<Rightarrow> bool" where
  "holds_word l \<longleftrightarrow> l \<in> {AcqSetCpu, Critical, RelReadLocked, RelReadCpu, RelClearCpu, RelUnlock}"

definition named_owner :: "lock_pc \<Rightarrow> bool" where
  "named_owner l \<longleftrightarrow> l \<in> {Critical, RelReadLocked, RelReadCpu, RelClearCpu}"

text \<open>
  The invariant, with the CPU \<open>h\<close> that holds the lock word made explicit: only that CPU is past
  its \<open>xchg\<close>, and the owner field names it while it may rely on that.
\<close>

definition lock_inv :: "nat option \<Rightarrow> lock_machine \<Rightarrow> bool" where
  "lock_inv h m \<longleftrightarrow>
     (\<forall>c. holds_word (pc m c) \<longleftrightarrow> h = Some c) \<and> (\<forall>c. pc m c \<noteq> Panicked)
     \<and> (mlocked m = 0 \<longleftrightarrow> h = None)
     \<and> mcpu m = (case h of None \<Rightarrow> None | Some c \<Rightarrow> if named_owner (pc m c) then Some c else None)"

lemma lock_inv_init: "lock_inv None lock_machine_init"
  by (simp add: lock_inv_def lock_machine_init_def holds_word_def)

definition next_holder :: "nat \<Rightarrow> lock_machine \<Rightarrow> nat option \<Rightarrow> nat option" where
  "next_holder c m h =
     (case pc m c of AcqXchg \<Rightarrow> if mlocked m = 0 then Some c else h
      | RelUnlock \<Rightarrow> None | _ \<Rightarrow> h)"

lemma lock_inv_exec:
  assumes "lock_inv h m"
  shows "lock_inv (next_holder c m h) (lock_exec c (pc m c) m)"
proof -
  have c: "holds_word (pc m c) \<longleftrightarrow> h = Some c" and np: "pc m c \<noteq> Panicked"
    using assms by (auto simp: lock_inv_def)
  show ?thesis
    using assms c np
    by (cases "pc m c"; cases h)
      (auto simp: lock_inv_def goto_def holds_word_def named_owner_def next_holder_def)
qed

lemma lock_reach_inv: "lock_reach m \<Longrightarrow> \<exists>h. lock_inv h m"
  by (induction rule: lock_reach.induct) (blast intro: lock_inv_init lock_inv_exec)+


section \<open>Properties\<close>

text \<open>
  C10: mutual exclusion. In every interleaving of any number of CPUs that call \<open>acquire\<close> and
  \<open>release\<close> in turn, at most one CPU is in the critical section, and neither function panics.
\<close>

theorem spinlock_mutual_exclusion:
  assumes "lock_reach m"
  shows "(\<forall>c d. pc m c = Critical \<and> pc m d = Critical \<longrightarrow> c = d) \<and> (\<forall>c. pc m c \<noteq> Panicked)"
proof -
  obtain h where "lock_inv h m" using lock_reach_inv [OF assms] by blast
  moreover have "holds_word Critical" by (simp add: holds_word_def)
  ultimately show ?thesis unfolding lock_inv_def by (metis option.inject)
qed

lemma lock_reach_run:
  "lock_reach m \<Longrightarrow> lock_reach (fold (\<lambda>c m. lock_exec c (pc m c) m) cs m)"
  by (induction cs arbitrary: m) (auto intro: lock_reach.step)

text \<open>CPU 0 takes the lock while CPU 1 spins on it.\<close>

theorem spinlock_mutual_exclusion_witness:
  "\<exists>m. lock_reach m \<and> pc m 0 = Critical \<and> pc m 1 = AcqXchg \<and> (\<forall>d. pc m d = Critical \<longrightarrow> 0 = d)"
proof -
  define m where "m = fold (\<lambda>c m. lock_exec c (pc m c) m) [0, 1, 0, 1, 0, 1, 0, 1] lock_machine_init"
  have r: "lock_reach m" unfolding m_def by (intro lock_reach_run lock_reach.init)
  have "pc m 0 = Critical \<and> pc m 1 = AcqXchg"
    by (simp add: m_def lock_machine_init_def goto_def)
  with r spinlock_mutual_exclusion [OF r] show ?thesis by metis
qed

text \<open>
  C26: a critical section on a free lock. \<open>acquire\<close> returns with the lock taken by this CPU and
  interrupts off, a second \<open>acquire\<close> of it panics, and \<open>release\<close>, from any state that kept the
  interrupt state, frees the lock and restores the interrupt state of before, interrupt flag
  included.
\<close>

theorem acquire_release_section:
  fixes s :: "'a cpu_st_scheme"
  assumes "cpu_ok s" and "locked lk = 0"
  shows "\<exists>lk1 t. acquire lk s = Inr (lk1, t) \<and> holding lk1 t \<and> readeflags t AND FL_IF = 0
     \<and> acquire lk1 t = Inl (Panic ''acquire'')
     \<and> (\<forall>t' :: 'a cpu_st_scheme. balanced t t' \<longrightarrow>
          (\<exists>lk2 u. release lk1 t' = Inr (lk2, u) \<and> locked lk2 = 0 \<and> balanced s u))"
proof -
  have "holding (taken s lk) (pushcli s)" by (simp add: holding_def)
  moreover have "acquire (taken s lk) (pushcli s) = Inl (Panic ''acquire'')"
    by (rule acquire_held) simp_all
  moreover have "\<exists>lk2 u. release (taken s lk) t' = Inr (lk2, u) \<and> locked lk2 = 0 \<and> balanced s u"
    if "balanced (pushcli s) t'" for t' :: "'a cpu_st_scheme"
    using release_taken [OF assms(1) that, of "taken s lk"] balanced_leave [OF assms(1) that] by simp
  ultimately show ?thesis
    using acquire_free [OF assms(2), of s]
    by (intro exI [of _ "taken s lk"] exI [of _ "pushcli s"]) (simp add: readeflags_def eflags_off)
qed

theorem acquire_release_section_witness:
  "\<exists>lk1 t. acquire \<lparr>locked = 0, lname = ''kmem'', lcpu = None, pcs = replicate 10 0\<rparr>
      \<lparr>cpuid = 0, ncli = 0, intena = 0, eflags = 0x202, argp = 0, stackw = (\<lambda>_. 0)\<rparr> = Inr (lk1, t)
    \<and> holding lk1 t"
  using acquire_release_section
    [of "\<lparr>cpuid = 0, ncli = 0, intena = 0, eflags = 0x202, argp = 0, stackw = (\<lambda>_. 0)\<rparr>"
        "\<lparr>locked = 0, lname = ''kmem'', lcpu = None, pcs = replicate 10 0\<rparr>"]
  by (auto simp: cpu_ok_def)

end
