(* ===== verification/Ring.thy ===== *)
theory Ring
  imports Prelude
begin

text \<open>
  Ring buffers. The entropy pools, the pipes and the console input line all write byte
  number \<open>k\<close> of a growing stream into cell \<open>k % N\<close> of a fixed array, with a 32-bit counter
  for \<open>k\<close>. \<open>ring_rep\<close> relates the array to the stream; the locale \<open>ring_index\<close> is what a
  component has to say of its own way to turn the counter into a cell number.
\<close>

definition ring_rep :: "nat \<Rightarrow> 'a list \<Rightarrow> 'a list \<Rightarrow> bool" where
  "ring_rep N st e \<longleftrightarrow>
     length e = N \<and> (\<forall>j < length st. length st \<le> j + N \<longrightarrow> e ! (j mod N) = st ! j)"

lemma ring_rep_length: "ring_rep N st e \<Longrightarrow> length e = N"
  by (simp add: ring_rep_def)

lemma ring_rep_Nil: "length e = N \<Longrightarrow> ring_rep N [] e"
  by (simp add: ring_rep_def)

text \<open>Within a window of \<open>N\<close> consecutive numbers the remainders are distinct.\<close>

lemma mod_window:
  assumes "j < k" and "k < j + N"
  shows "j mod N \<noteq> k mod (N :: nat)"
proof
  assume "j mod N = k mod N"
  then have "N dvd k - j" using assms(1) mod_eq_dvd_iff_nat [of j k N] by simp
  with assms show False by (auto dest!: dvd_imp_le)
qed

locale ring_index =
  fixes N :: nat and slot :: "u32 \<Rightarrow> nat" and counts :: "nat \<Rightarrow> bool"
  assumes N_pos: "0 < N"
    and slot_eq: "counts k \<Longrightarrow> slot (of_nat k) = k mod N"
begin

lemma slot_bound: "counts k \<Longrightarrow> slot (of_nat k) < N"
  using N_pos by (simp add: slot_eq)

lemma ring_put:
  assumes "ring_rep N st e" and "counts (length st)"
  shows "ring_rep N (st @ [b]) (e[slot (of_nat (length st)) := b])"
proof -
  let ?n = "length st"
  have "e[?n mod N := b] ! (j mod N) = (st @ [b]) ! j" if "j < Suc ?n" "Suc ?n \<le> j + N" for j
  proof (cases "j = ?n")
    case True
    then show ?thesis using assms(1) N_pos by (simp add: ring_rep_def)
  next
    case False
    with that have "j < ?n" "?n < j + N" by auto
    with assms(1) mod_window [of j ?n N] show ?thesis by (simp add: ring_rep_def nth_append)
  qed
  with assms show ?thesis by (simp add: ring_rep_def slot_eq)
qed

lemma ring_get:
  assumes "ring_rep N st e" and "counts j" and "j < length st" and "length st \<le> j + N"
  shows "e ! slot (of_nat j) = st ! j"
  using assms by (simp add: ring_rep_def slot_eq)

text \<open>Writing a whole block, cell after cell, appends it to the stream.\<close>

lemma ring_put_list:
  assumes "ring_rep N st e" and "\<And>i. i < length bs \<Longrightarrow> counts (length st + i)"
  shows "ring_rep N (st @ bs)
    (fold (\<lambda>i e. e[slot (of_nat (length st + i)) := bs ! i]) [0..<length bs] e)"
  using assms(2)
proof (induction bs rule: rev_induct)
  case Nil
  then show ?case using assms(1) by simp
next
  case (snoc b bs)
  have "fold (\<lambda>i e. e[slot (of_nat (length st + i)) := (bs @ [b]) ! i]) [0..<length bs] e
      = fold (\<lambda>i e. e[slot (of_nat (length st + i)) := bs ! i]) [0..<length bs] e"
    by (rule fold_cong) (simp_all add: nth_append)
  note eq = this [unfolded of_nat_add]
  have "ring_rep N (st @ bs)
      (fold (\<lambda>i e. e[slot (of_nat (length st + i)) := bs ! i]) [0..<length bs] e)"
    by (rule snoc.IH) (simp add: snoc.prems)
  from ring_put [OF this, of b] snoc.prems [of "length bs"] show ?case
    by (simp add: eq)
qed

end

end
