(* ===== verification/Entropy.thy ===== *)
theory Entropy
  imports Spinlock Ring "HOL-Library.Signed_Division"
begin

text \<open>
  The entropy accumulator of \<open>src/entropyacc.c\<close>: 32 pools, each a ring of 4096 bytes behind
  a lock, to which kernel code appends event records. The global array \<open>pools\<close> is the list
  \<open>pools\<close> of the state; \<open>edata\<close> is the bytes its pointer refers to, \<open>None\<close> for the null
  pointer. \<open>size\<close> is a C \<open>int\<close> and is never reduced here, so once it wraps the remainder
  is negative and the store goes below the array.
\<close>

section \<open>Definitions\<close>

definition MAX_POOLS :: nat where "MAX_POOLS = 32"
definition MAX_SOURCES :: int where "MAX_SOURCES = 255"
definition MAX_EDATA_SIZE :: int where "MAX_EDATA_SIZE = 32"
definition MIN_SIZE_POOL :: int where "MIN_SIZE_POOL = 64"
definition POOL_SIZE :: nat where "POOL_SIZE = 4096"

definition KEYBOARD_PRESS :: i32 where "KEYBOARD_PRESS = 0"
definition KEYBOARD_TIMING :: i32 where "KEYBOARD_TIMING = 1"
definition INTERRUPT_TIMING :: i32 where "INTERRUPT_TIMING = 2"
definition SCHEDULING_TIMING :: i32 where "SCHEDULING_TIMING = 3"
definition FREE_MEMORY_SIZE :: i32 where "FREE_MEMORY_SIZE = 4"
definition READ_DATA :: i32 where "READ_DATA = 5"
definition READ_TIMING :: i32 where "READ_TIMING = 6"
definition WRITE_DATA :: i32 where "WRITE_DATA = 7"
definition WRITE_TIMING :: i32 where "WRITE_TIMING = 8"

record entropy_pool =
  psize :: i32
  entropy :: "u8 list"
  plock :: spinlock

record ent_st = cpu_st +
  pools :: "entropy_pool list"

definition init_pool :: "entropy_pool \<Rightarrow> entropy_pool" where
  "init_pool p = p\<lparr>entropy := replicate POOL_SIZE 0, psize := 0, plock := initlock ''pools'' (plock p)\<rparr>"

definition initEntropyAccumulator :: "'a ent_st_scheme \<Rightarrow> 'a ent_st_scheme" where
  "initEntropyAccumulator s =
     fold (\<lambda>i s. s\<lparr>pools := (pools s)[i := init_pool (pools s ! i)]\<rparr>) [0..<MAX_POOLS] s"

text \<open>\<open>entropy[k % POOL_SIZE] = b\<close> with C's remainder, which has the sign of \<open>k\<close>.\<close>

definition pool_index :: "i32 \<Rightarrow> int" where
  "pool_index k = sint k smod int POOL_SIZE"

definition pool_store :: "i32 \<Rightarrow> u8 \<Rightarrow> entropy_pool \<Rightarrow> entropy_pool res" where
  "pool_store k b p =
     (if pool_index k < 0 then Inl (Fault ''addRandomEvent: entropy[negative]'')
      else Inr (p\<lparr>entropy := (entropy p)[nat (pool_index k) := b]\<rparr>))"

definition pool_append :: "i32 \<Rightarrow> (nat \<Rightarrow> u8) \<Rightarrow> i32 \<Rightarrow> entropy_pool \<Rightarrow> entropy_pool res" where
  "pool_append snum edata data_len p =
     bind_res (pool_store (psize p) (ucast snum) p) (\<lambda>p.
     let p = p\<lparr>psize := psize p + 1\<rparr> in
     bind_res (pool_store (psize p) (ucast data_len) p) (\<lambda>p.
     let p = p\<lparr>psize := psize p + 1\<rparr> in
     bind_res (for_res [0..<nat (sint data_len)]
        (\<lambda>i p. pool_store (psize p + of_nat i) (edata i) p) p) (\<lambda>p.
     Inr (p\<lparr>psize := psize p + data_len\<rparr>))))"

definition addRandomEvent ::
  "i32 \<Rightarrow> i32 \<Rightarrow> (nat \<Rightarrow> u8) option \<Rightarrow> i32 \<Rightarrow> 'a ent_st_scheme \<Rightarrow> 'a ent_st_scheme res" where
  "addRandomEvent snum pnum edata data_len s =
     (if sint snum < 0 \<or> sint snum > MAX_SOURCES then Inr s
      else if sint pnum < 0 \<or> sint pnum \<ge> int MAX_POOLS then Inr s
      else case edata of None \<Rightarrow> Inr s
      | Some edata \<Rightarrow>
        (if sint data_len < 0 \<or> sint data_len > MAX_EDATA_SIZE then Inr s
         else
           (let n = nat (sint pnum); p = pools s ! n in
            bind_res (acquire (plock p) s) (\<lambda>(lk, s).
            bind_res (pool_append snum edata data_len (p\<lparr>plock := lk\<rparr>)) (\<lambda>p.
            bind_res (release (plock p) s) (\<lambda>(lk, s).
            Inr (s\<lparr>pools := (pools s)[n := p\<lparr>plock := lk\<rparr>]\<rparr>)))))))"

text \<open>
  \<open>printPoolsData\<close> sums the (signed) bytes below \<open>size\<close>, which may exceed the ring. The model
  returns the triples it prints.
\<close>

definition pool_sum :: "entropy_pool \<Rightarrow> i32 res" where
  "pool_sum p =
     for_res [0..<nat (sint (psize p))]
       (\<lambda>j sum. if j < POOL_SIZE then Inr (sum + scast (entropy p ! j))
               else Inl (Fault ''printPoolsData: entropy[j]'')) 0"

definition printPoolsData :: "'a ent_st_scheme \<Rightarrow> (nat \<times> i32 \<times> i32) list res" where
  "printPoolsData s =
     for_res [0..<MAX_POOLS]
       (\<lambda>i out. bind_res (pool_sum (pools s ! i)) (\<lambda>sum. Inr (out @ [(i, psize (pools s ! i), sum)]))) []"


section \<open>A pool holds the last 4096 bytes of its event stream\<close>

lemmas entropy_consts =
  MAX_POOLS_def MAX_SOURCES_def MAX_EDATA_SIZE_def MIN_SIZE_POOL_def POOL_SIZE_def

definition pool_slot :: "u32 \<Rightarrow> nat" where
  "pool_slot k = nat (pool_index k)"

lemma sint_of_nat: "k < 2 ^ 31 \<Longrightarrow> sint (of_nat k :: i32) = int k"
  by (simp add: signed_of_nat signed_take_bit_int_eq_self)

lemma pool_index_of_nat: "k < 2 ^ 31 \<Longrightarrow> pool_index (of_nat k) = int (k mod POOL_SIZE)"
  by (simp add: pool_index_def sint_of_nat smod_mod_positive zmod_int)

interpretation pool_ring: ring_index POOL_SIZE pool_slot "\<lambda>k. k < 2 ^ 31"
  by unfold_locales (simp_all add: pool_slot_def pool_index_of_nat POOL_SIZE_def)

text \<open>The pool's array represents the stream \<open>st\<close>, whose length the counter has not outgrown.\<close>

definition pool_rep :: "u8 list \<Rightarrow> entropy_pool \<Rightarrow> bool" where
  "pool_rep st p \<longleftrightarrow> ring_rep POOL_SIZE st (entropy p) \<and> psize p = of_nat (length st)
     \<and> length st < 2 ^ 31"

lemma pool_store_ok:
  "k < 2 ^ 31 \<Longrightarrow> pool_store (of_nat k) b p
     = Inr (p\<lparr>entropy := (entropy p)[pool_slot (of_nat k) := b]\<rparr>)"
  by (simp add: pool_store_def pool_slot_def pool_index_of_nat)

lemma pool_store_loop:
  assumes "n + len \<le> 2 ^ 31" and "psize p = of_nat n"
  shows "for_res [0..<len] (\<lambda>i p. pool_store (psize p + of_nat i) (edata i) p) p
     = Inr (p\<lparr>entropy := fold (\<lambda>i e. e[pool_slot (of_nat (n + i)) := edata i]) [0..<len] (entropy p)\<rparr>)"
  using assms(1)
proof (induction len)
  case 0
  then show ?case by simp
next
  case (Suc len)
  then show ?case
    using pool_store_ok [of "n + len"] by (simp add: for_res_append assms(2))
qed

text \<open>The bytes of one event record.\<close>

definition event_bytes :: "i32 \<Rightarrow> (nat \<Rightarrow> u8) \<Rightarrow> i32 \<Rightarrow> u8 list" where
  "event_bytes snum edata data_len =
     ucast snum # ucast data_len # map edata [0..<nat (sint data_len)]"

lemma length_event_bytes: "length (event_bytes snum edata data_len) = nat (sint data_len) + 2"
  by (simp add: event_bytes_def)

lemma of_nat_sint: "0 \<le> sint w \<Longrightarrow> of_nat (nat (sint w)) = (w :: i32)"
  by (simp add: of_nat_nat)

lemma pool_append_ok:
  assumes "pool_rep st p" and "0 \<le> sint data_len"
    and len: "length st + length (event_bytes snum edata data_len) < 2 ^ 31"
  shows "\<exists>p'. pool_append snum edata data_len p = Inr p'
     \<and> pool_rep (st @ event_bytes snum edata data_len) p' \<and> plock p' = plock p"
proof -
  define n where "n = length st"
  define dl where "dl = nat (sint data_len)"
  have p: "ring_rep POOL_SIZE st (entropy p)" "psize p = of_nat n"
    using assms(1) by (auto simp: pool_rep_def n_def)
  have nd: "n + dl + 2 < 2 ^ 31" using len by (simp add: n_def dl_def length_event_bytes)
  define e1 where "e1 = (entropy p)[pool_slot (of_nat n) := ucast snum]"
  define e2 where "e2 = e1[pool_slot (of_nat (n + 1)) := ucast data_len]"
  define e3 where "e3 = fold (\<lambda>i e. e[pool_slot (of_nat (n + 2 + i)) := edata i]) [0..<dl] e2"
  define q where "q = p\<lparr>entropy := e2, psize := psize p + 1 + 1\<rparr>"
  have n12: "psize p + 1 = of_nat (n + 1)" "psize p + 1 + 1 = of_nat (n + 2)" by (simp_all add: p(2))
  have r1: "ring_rep POOL_SIZE (st @ [ucast snum]) e1"
    using pool_ring.ring_put [OF p(1), of "ucast snum"] nd by (simp add: e1_def n_def)
  have r2: "ring_rep POOL_SIZE (st @ [ucast snum, ucast data_len]) e2"
    using pool_ring.ring_put [OF r1, of "ucast data_len"] nd
    by (simp add: e2_def n_def add.commute)
  have r3: "ring_rep POOL_SIZE (st @ event_bytes snum edata data_len) e3"
  proof -
    have f: "e3 = fold (\<lambda>i e. e[pool_slot (of_nat (n + 2 + i)) := map edata [0..<dl] ! i]) [0..<dl] e2"
      unfolding e3_def by (rule fold_cong) simp_all
    show ?thesis
      using pool_ring.ring_put_list [OF r2, of "map edata [0..<dl]"] nd
      by (simp add: f n_def dl_def [symmetric] event_bytes_def add.commute add.left_commute)
  qed
  have s: "pool_store (psize p) (ucast snum) p = Inr (p\<lparr>entropy := e1\<rparr>)"
    "pool_store (psize p + 1) (ucast data_len) (p\<lparr>entropy := e1, psize := psize p + 1\<rparr>)
       = Inr (p\<lparr>entropy := e2, psize := psize p + 1\<rparr>)"
    using nd by (simp_all only: p(2) n12 [unfolded p(2)] pool_store_ok) (simp_all add: e1_def e2_def)
  have "for_res [0..<dl] (\<lambda>i p. pool_store (psize p + of_nat i) (edata i) p) q
      = Inr (q\<lparr>entropy := e3\<rparr>)"
    using pool_store_loop [of "n + 2" dl q edata] nd n12 by (simp add: q_def e3_def)
  then have "pool_append snum edata data_len p = Inr (q\<lparr>entropy := e3, psize := psize q + data_len\<rparr>)"
    using s unfolding pool_append_def Let_def dl_def [symmetric] by (simp add: q_def)
  moreover have "pool_rep (st @ event_bytes snum edata data_len)
      (q\<lparr>entropy := e3, psize := psize q + data_len\<rparr>)"
    using r3 len assms(2) by (simp add: pool_rep_def length_event_bytes n_def of_nat_sint q_def p(2))
  ultimately show ?thesis by (simp add: q_def)
qed


section \<open>The accumulator\<close>

text \<open>The pools represent the event streams \<open>sts\<close>.\<close>

definition accum_rep :: "u8 list list \<Rightarrow> 'a ent_st_scheme \<Rightarrow> bool" where
  "accum_rep sts s \<longleftrightarrow> length sts = MAX_POOLS \<and> length (pools s) = MAX_POOLS
     \<and> (\<forall>i < MAX_POOLS. pool_rep (sts ! i) (pools s ! i))"

definition pools_free :: "'a ent_st_scheme \<Rightarrow> bool" where
  "pools_free s \<longleftrightarrow> (\<forall>i < MAX_POOLS. locked (plock (pools s ! i)) = 0)"

text \<open>Everything but the interrupt state and pool number \<open>n\<close> is as it was.\<close>

definition only_pool :: "nat \<Rightarrow> 'a ent_st_scheme \<Rightarrow> 'a ent_st_scheme \<Rightarrow> bool" where
  "only_pool n s s' \<longleftrightarrow> balanced s s' \<and> pools s' = (pools s)[n := pools s' ! n]
     \<and> ent_st.more s' = ent_st.more s"

lemma ent_pushcli [simp]: "pools (pushcli s) = pools s" "ent_st.more (pushcli s) = ent_st.more s"
  by (simp_all add: cli_defs)

lemma ent_leave [simp]: "pools (leave s t) = pools t" "ent_st.more (leave s t) = ent_st.more t"
  by (simp_all add: leave_def)

lemma addRandomEvent_valid:
  assumes "0 \<le> sint snum" "sint snum \<le> 255" "0 \<le> sint pnum" "sint pnum < 32"
    and "0 \<le> sint data_len" "sint data_len \<le> 32"
  shows "addRandomEvent snum pnum (Some edata) data_len s =
     (let n = nat (sint pnum); p = pools s ! n in
      bind_res (acquire (plock p) s) (\<lambda>(lk, s).
      bind_res (pool_append snum edata data_len (p\<lparr>plock := lk\<rparr>)) (\<lambda>p.
      bind_res (release (plock p) s) (\<lambda>(lk, s).
      Inr (s\<lparr>pools := (pools s)[n := p\<lparr>plock := lk\<rparr>]\<rparr>)))))"
  using assms by (simp add: addRandomEvent_def entropy_consts)

lemma pool_rep_plock [simp]: "pool_rep st (p\<lparr>plock := lk\<rparr>) = pool_rep st p"
  by (simp add: pool_rep_def)

lemma addRandomEvent_ok:
  fixes s :: "'a ent_st_scheme"
  assumes ok: "cpu_ok s" and args: "0 \<le> sint snum" "sint snum \<le> 255" "0 \<le> sint pnum"
      "sint pnum < 32" "0 \<le> sint data_len" "sint data_len \<le> 32"
    and p: "length (pools s) = MAX_POOLS" "pool_rep st (pools s ! nat (sint pnum))"
      "locked (plock (pools s ! nat (sint pnum))) = 0"
    and room: "length st + 34 < 2 ^ 31"
  defines "n \<equiv> nat (sint pnum)"
  shows "\<exists>s'. addRandomEvent snum pnum (Some edata) data_len s = Inr s'
     \<and> only_pool n s s' \<and> pool_rep (st @ event_bytes snum edata data_len) (pools s' ! n)
     \<and> locked (plock (pools s' ! n)) = 0"
proof -
  define p where "p = pools s ! n"
  have n: "n < length (pools s)" using args p(1) by (simp add: n_def MAX_POOLS_def)
  have len: "length st + length (event_bytes snum edata data_len) < 2 ^ 31"
    using room args by (simp add: length_event_bytes)
  have rep: "pool_rep st (p\<lparr>plock := taken s (plock p)\<rparr>)" using p by (simp add: p_def n_def)
  obtain p' where p': "pool_append snum edata data_len (p\<lparr>plock := taken s (plock p)\<rparr>) = Inr p'"
    "pool_rep (st @ event_bytes snum edata data_len) p'" "plock p' = taken s (plock p)"
    using pool_append_ok [OF rep args(5) len] by auto
  have b: "balanced (pushcli s) (pushcli s)" by simp
  note rel = release_taken [OF ok b, of "taken s (plock p)", simplified]
  define s' where "s' = leave s (pushcli s)\<lparr>pools := (pools s)[n := p'\<lparr>plock := freed (taken s (plock p))\<rparr>]\<rparr>"
  have "addRandomEvent snum pnum (Some edata) data_len s = Inr s'"
    using p(3) unfolding addRandomEvent_valid [OF args] n_def [symmetric] p_def [symmetric] Let_def s'_def
    by (simp add: acquire_free p' rel)
  moreover have "only_pool n s s'"
    using balanced_leave [OF ok b] n by (simp add: only_pool_def s'_def balanced_def)
  ultimately show ?thesis using p'(2) n by (simp add: s'_def)
qed

text \<open>The accumulator starts with empty streams, whatever the memory held before.\<close>

lemma init_loop:
  "n \<le> length (pools s) \<Longrightarrow>
   fold (\<lambda>i s. s\<lparr>pools := (pools s)[i := init_pool (pools s ! i)]\<rparr>) [0..<n] s
     = s\<lparr>pools := map init_pool (take n (pools s)) @ drop n (pools s)\<rparr>"
proof (induction n)
  case (Suc n)
  then show ?case
    by (simp add: list_update_append nth_append take_Suc_conv_app_nth Cons_nth_drop_Suc [symmetric])
qed simp

lemma initEntropyAccumulator_eq:
  "length (pools s) = MAX_POOLS \<Longrightarrow>
   initEntropyAccumulator s = s\<lparr>pools := map init_pool (pools s)\<rparr>"
  by (simp add: initEntropyAccumulator_def init_loop)

lemma initEntropyAccumulator_rep:
  assumes "length (pools s) = MAX_POOLS"
  shows "accum_rep (replicate MAX_POOLS []) (initEntropyAccumulator s)"
    and "pools_free (initEntropyAccumulator s)"
  using assms by (simp_all add: initEntropyAccumulator_eq accum_rep_def pools_free_def pool_rep_def
      init_pool_def ring_rep_Nil)

text \<open>The kernel's bss before \<open>initEntropyAccumulator\<close>: all zero.\<close>

definition zero_lock :: spinlock where
  "zero_lock = \<lparr>locked = 0, lname = [], lcpu = None, pcs = replicate 10 0\<rparr>"

definition zero_ent :: ent_st where
  "zero_ent = \<lparr>cpuid = 0, ncli = 0, intena = 0, eflags = 0, argp = 0, stackw = (\<lambda>_. 0),
     pools = replicate MAX_POOLS \<lparr>psize = 0, entropy = replicate POOL_SIZE 0, plock = zero_lock\<rparr>\<rparr>"

lemma zero_ent_facts [simp]:
  "length (pools zero_ent) = MAX_POOLS" "cpu_ok zero_ent" "cpu_ok (initEntropyAccumulator zero_ent)"
  by (simp_all add: zero_ent_def cpu_ok_def initEntropyAccumulator_eq)

lemma pool_sum_returns: "(\<exists>v. pool_sum p = Inr v) \<longleftrightarrow> sint (psize p) \<le> int POOL_SIZE"
proof (cases "sint (psize p) \<le> int POOL_SIZE")
  case True
  have "\<exists>v. pool_sum p = Inr v \<and> True"
    unfolding pool_sum_def by (rule for_res_total) (use True in auto)
  with True show ?thesis by simp
next
  case False
  have "pool_sum p = Inl (Fault ''printPoolsData: entropy[j]'')"
    unfolding pool_sum_def
    by (rule for_res_error [where P = "\<lambda>_. True" and k = POOL_SIZE]) (use False in auto)
  with False show ?thesis by simp
qed


section \<open>Properties\<close>

text \<open>
  C12: a valid call of \<open>addRandomEvent\<close> appends exactly the record (source number, length,
  data) to the stream of the chosen pool and to no other: each pool's array keeps holding the
  last 4096 bytes of its stream. The interrupt state and the rest of the kernel state are
  restored, and the pool's lock is free again. The counter must not have reached the sign bit.
\<close>

theorem addRandomEvent_appends:
  assumes "accum_rep sts s" and "pools_free s" and "cpu_ok s"
    and "0 \<le> sint snum" "sint snum \<le> MAX_SOURCES" "0 \<le> sint pnum" "sint pnum < int MAX_POOLS"
    and "0 \<le> sint data_len" "sint data_len \<le> MAX_EDATA_SIZE"
    and "length (sts ! nat (sint pnum)) + 34 < 2 ^ 31"
  shows "\<exists>s'. addRandomEvent snum pnum (Some edata) data_len s = Inr s'
     \<and> accum_rep (sts[nat (sint pnum) := sts ! nat (sint pnum) @ event_bytes snum edata data_len]) s'
     \<and> pools_free s' \<and> balanced s s' \<and> ent_st.more s' = ent_st.more s"
proof -
  define n where "n = nat (sint pnum)"
  have n: "n < MAX_POOLS" using assms(6,7) by (simp add: n_def MAX_POOLS_def)
  have len: "length (pools s) = MAX_POOLS" "length sts = MAX_POOLS" using assms(1) by (simp_all add: accum_rep_def)
  obtain s' where s': "addRandomEvent snum pnum (Some edata) data_len s = Inr s'" "only_pool n s s'"
    "pool_rep (sts ! n @ event_bytes snum edata data_len) (pools s' ! n)"
    "locked (plock (pools s' ! n)) = 0"
    using addRandomEvent_ok [of s snum pnum data_len "sts ! n" edata] assms n
    by (auto simp: accum_rep_def pools_free_def n_def entropy_consts)
  have "length (pools s') = MAX_POOLS" "\<And>i. i \<noteq> n \<Longrightarrow> pools s' ! i = pools s ! i"
    using s'(2) len by (metis only_pool_def length_list_update, metis only_pool_def nth_list_update_neq)
  with s' n len assms(1,2) have "accum_rep (sts[n := sts ! n @ event_bytes snum edata data_len]) s'"
    and "pools_free s'"
    by (auto simp: accum_rep_def pools_free_def nth_list_update) metis+
  with s' show ?thesis by (auto simp: n_def only_pool_def)
qed

theorem addRandomEvent_appends_witness:
  "\<exists>s'. addRandomEvent INTERRUPT_TIMING 5 (Some (\<lambda>i. 7)) 4 (initEntropyAccumulator zero_ent) = Inr s'
     \<and> pool_rep [2, 4, 7, 7, 7, 7] (pools s' ! 5)"
proof -
  have e: "event_bytes INTERRUPT_TIMING (\<lambda>i. 7) 4 = [2, 4, 7, 7, 7, 7]"
    by (simp add: event_bytes_def INTERRUPT_TIMING_def upt_rec)
  obtain s' where "addRandomEvent INTERRUPT_TIMING 5 (Some (\<lambda>i. 7)) 4 (initEntropyAccumulator zero_ent) = Inr s'"
    and "accum_rep ((replicate MAX_POOLS [])[5 := event_bytes INTERRUPT_TIMING (\<lambda>i. 7) 4]) s'"
    using addRandomEvent_appends [OF initEntropyAccumulator_rep(1) initEntropyAccumulator_rep(2),
        of zero_ent INTERRUPT_TIMING 5 4 "\<lambda>i. 7"]
    by (auto simp: INTERRUPT_TIMING_def entropy_consts)
  then show ?thesis by (auto simp: e accum_rep_def MAX_POOLS_def dest: spec [of _ 5])
qed

text \<open>
  C32: the debugging dump that \<open>sys_random\<close> makes on every call reads past a pool's array exactly
  when some pool has recorded more than 4096 bytes; otherwise it returns.
\<close>

theorem printPoolsData_returns_iff:
  "(\<exists>out. printPoolsData s = Inr out) \<longleftrightarrow> (\<forall>i < MAX_POOLS. sint (psize (pools s ! i)) \<le> int POOL_SIZE)"
proof
  assume "\<forall>i < MAX_POOLS. sint (psize (pools s ! i)) \<le> int POOL_SIZE"
  then have "\<exists>out. printPoolsData s = Inr out \<and> True"
    unfolding printPoolsData_def by (intro for_res_total) (fastforce simp: pool_sum_returns [symmetric])+
  then show "\<exists>out. printPoolsData s = Inr out" by simp
next
  assume "\<exists>out. printPoolsData s = Inr out"
  then show "\<forall>i < MAX_POOLS. sint (psize (pools s ! i)) \<le> int POOL_SIZE"
    unfolding printPoolsData_def pool_sum_returns [symmetric]
    by (auto dest!: for_res_step_ok simp: bind_res_eq_Inr)
qed

theorem printPoolsData_returns_iff_witness:
  "(\<exists>out. printPoolsData zero_ent = Inr out)
   \<and> \<not> (\<exists>out. printPoolsData (zero_ent\<lparr>pools := (pools zero_ent)[3 := (pools zero_ent ! 3)\<lparr>psize := 5000\<rparr>]\<rparr>) = Inr out)"
  unfolding printPoolsData_returns_iff
  by (auto simp: zero_ent_def entropy_consts intro!: exI [of _ 3])

end
