(* ===== verification/CString.thy ===== *)
theory CString
  imports Prelude
begin

text \<open>
  The string and memory routines of \<open>src/string.c\<close> over the flat memory, and the two
  \<open>rep stos\<close> helpers of \<open>src/x86.h\<close> that \<open>memset\<close> uses. Pointers are \<open>u32\<close> addresses;
  pointer increments wrap at \<open>2 ^ 32\<close> as the registers do. Each loop counts its \<open>n\<close>
  down, so it recurses on the number of iterations left.
\<close>

section \<open>Definitions\<close>

primrec stosb_loop :: "memory \<Rightarrow> u32 \<Rightarrow> u8 \<Rightarrow> nat \<Rightarrow> memory" where
  "stosb_loop m addr data 0 = m"
| "stosb_loop m addr data (Suc cnt) = stosb_loop (m(addr := data)) (addr + 1) data cnt"

definition stosb :: "memory \<Rightarrow> u32 \<Rightarrow> i32 \<Rightarrow> u32 \<Rightarrow> memory" where
  "stosb m addr data cnt = stosb_loop m addr (ucast data) (unat cnt)"

primrec stosl_loop :: "memory \<Rightarrow> u32 \<Rightarrow> u32 \<Rightarrow> nat \<Rightarrow> memory" where
  "stosl_loop m addr data 0 = m"
| "stosl_loop m addr data (Suc cnt) = stosl_loop (store32 m addr data) (addr + 4) data cnt"

definition stosl :: "memory \<Rightarrow> u32 \<Rightarrow> i32 \<Rightarrow> u32 \<Rightarrow> memory" where
  "stosl m addr data cnt = stosl_loop m addr data (unat cnt)"

text \<open>\<open>(int)dst % 4 == 0\<close>: the remainder is zero whatever its sign convention.\<close>

definition memset :: "memory \<Rightarrow> u32 \<Rightarrow> i32 \<Rightarrow> u32 \<Rightarrow> memory" where
  "memset m dst c n =
     (if sint dst mod 4 = 0 \<and> n mod 4 = 0 then
        (let c = c AND 0xFF
         in stosl m dst (push_bit 24 c OR push_bit 16 c OR push_bit 8 c OR c) (n div 4))
      else stosb m dst c n)"

primrec memcmp_loop :: "memory \<Rightarrow> u32 \<Rightarrow> u32 \<Rightarrow> nat \<Rightarrow> int" where
  "memcmp_loop m s1 s2 0 = 0"
| "memcmp_loop m s1 s2 (Suc n) =
     (if m s1 \<noteq> m s2 then uint (m s1) - uint (m s2) else memcmp_loop m (s1 + 1) (s2 + 1) n)"

definition memcmp :: "memory \<Rightarrow> u32 \<Rightarrow> u32 \<Rightarrow> u32 \<Rightarrow> int" where
  "memcmp m v1 v2 n = memcmp_loop m v1 v2 (unat n)"

text \<open>The two copying loops of \<open>memmove\<close>: downwards from the ends, and upwards.\<close>

primrec copy_down :: "memory \<Rightarrow> u32 \<Rightarrow> u32 \<Rightarrow> nat \<Rightarrow> memory" where
  "copy_down m d s 0 = m"
| "copy_down m d s (Suc n) = copy_down (m(d - 1 := m (s - 1))) (d - 1) (s - 1) n"

primrec copy_up :: "memory \<Rightarrow> u32 \<Rightarrow> u32 \<Rightarrow> nat \<Rightarrow> memory" where
  "copy_up m d s 0 = m"
| "copy_up m d s (Suc n) = copy_up (m(d := m s)) (d + 1) (s + 1) n"

definition memmove :: "memory \<Rightarrow> u32 \<Rightarrow> u32 \<Rightarrow> u32 \<Rightarrow> memory" where
  "memmove m dst src n =
     (if src < dst \<and> src + n > dst then copy_down m (dst + n) (src + n) (unat n)
      else copy_up m dst src (unat n))"

definition memcpy :: "memory \<Rightarrow> u32 \<Rightarrow> u32 \<Rightarrow> u32 \<Rightarrow> memory" where
  "memcpy m dst src n = memmove m dst src n"

primrec strncmp_loop :: "memory \<Rightarrow> u32 \<Rightarrow> u32 \<Rightarrow> nat \<Rightarrow> int" where
  "strncmp_loop m p q 0 = 0"
| "strncmp_loop m p q (Suc n) =
     (if m p \<noteq> 0 \<and> m p = m q then strncmp_loop m (p + 1) (q + 1) n
      else uint (m p) - uint (m q))"

definition strncmp :: "memory \<Rightarrow> u32 \<Rightarrow> u32 \<Rightarrow> u32 \<Rightarrow> int" where
  "strncmp m p q n = strncmp_loop m p q (unat n)"

text \<open>The second loop of \<open>strncpy\<close> writes the zeros, the first copies up to a NUL.\<close>

primrec zero_fill :: "memory \<Rightarrow> u32 \<Rightarrow> nat \<Rightarrow> memory" where
  "zero_fill m s 0 = m"
| "zero_fill m s (Suc n) = zero_fill (m(s := 0)) (s + 1) n"

primrec strncpy_loop :: "memory \<Rightarrow> u32 \<Rightarrow> u32 \<Rightarrow> nat \<Rightarrow> memory" where
  "strncpy_loop m s t 0 = m"
| "strncpy_loop m s t (Suc n) =
     (let m' = m(s := m t)
      in if m t \<noteq> 0 then strncpy_loop m' (s + 1) (t + 1) n else zero_fill m' (s + 1) n)"

definition strncpy :: "memory \<Rightarrow> u32 \<Rightarrow> u32 \<Rightarrow> i32 \<Rightarrow> memory" where
  "strncpy m s t n = strncpy_loop m s t (nat (sint n))"

text \<open>\<open>safestrcpy\<close> decrements \<open>n\<close> before each test, so it copies at most \<open>n - 1\<close> bytes.\<close>

primrec safestrcpy_loop :: "memory \<Rightarrow> u32 \<Rightarrow> u32 \<Rightarrow> nat \<Rightarrow> memory" where
  "safestrcpy_loop m s t 0 = m(s := 0)"
| "safestrcpy_loop m s t (Suc n) =
     (let m' = m(s := m t)
      in if m t \<noteq> 0 then safestrcpy_loop m' (s + 1) (t + 1) n else m'(s + 1 := 0))"

definition safestrcpy :: "memory \<Rightarrow> u32 \<Rightarrow> u32 \<Rightarrow> i32 \<Rightarrow> memory" where
  "safestrcpy m s t n =
     (if sint n \<le> 0 then m else safestrcpy_loop m s t (nat (sint n) - 1))"

partial_function (option) strlen_from :: "memory \<Rightarrow> u32 \<Rightarrow> u32 \<Rightarrow> u32 option" where
  "strlen_from m s n = (if m (s + n) = 0 then Some n else strlen_from m s (n + 1))"

definition strlen :: "memory \<Rightarrow> u32 \<Rightarrow> i32 option" where
  "strlen m s = strlen_from m s 0"


section \<open>Filling memory\<close>

lemma store_bytes_Nil [mem_simps]: "store_bytes m a [] = m"
  by (simp add: store_bytes_def in_range_def fun_eq_iff)

lemma store_bytes_append:
  assumes "length xs + length ys \<le> 2 ^ 32"
  shows "store_bytes (store_bytes m a xs) (a + of_nat (length xs)) ys = store_bytes m a (xs @ ys)"
proof (cases "ys = []")
  case True
  then show ?thesis by (simp add: store_bytes_Nil)
next
  case False
  with assms have lx: "length xs < 2 ^ 32" by (cases ys) simp_all
  show ?thesis
  proof (rule ext)
    fix x
    let ?d = "unat (x - a)" and ?k = "length xs"
    have k: "unat (of_nat ?k :: u32) = ?k" using lx by (simp add: unat_of_nat)
    have *: "unat (x - (a + of_nat ?k)) = (if ?k \<le> ?d then ?d - ?k else ?d + 2 ^ 32 - ?k)"
    proof -
      have "unat (x - (a + of_nat ?k)) = unat ((x - a) - of_nat ?k)" by (simp add: algebra_simps)
      also have "\<dots> = (if ?k \<le> ?d then ?d - ?k else ?d + 2 ^ 32 - ?k)"
        using unat_sub_if_size [of "x - a" "of_nat ?k :: u32"] k by (simp add: word_size)
      finally show ?thesis .
    qed
    show "store_bytes (store_bytes m a xs) (a + of_nat ?k) ys x = store_bytes m a (xs @ ys) x"
      using assms by (auto simp: store_bytes_def in_range_def * nth_append)
  qed
qed

lemma store_bytes_single: "store_bytes m a [b] = m(a := b)"
  by (rule ext) (auto simp: store_bytes_def in_range_def unat_eq_zero)

lemma store_bytes_Cons:
  "length xs < 2 ^ 32 \<Longrightarrow> store_bytes (m(a := b)) (a + 1) xs = store_bytes m a (b # xs)"
  using store_bytes_append [of "[b]" xs m a] by (simp add: store_bytes_single)

lemma stosb_loop_eq: "cnt \<le> 2 ^ 32 \<Longrightarrow> stosb_loop m a data cnt = store_bytes m a (replicate cnt data)"
  by (induction cnt arbitrary: m a) (simp_all add: store_bytes_Nil store_bytes_Cons)

lemma zero_fill_eq: "n \<le> 2 ^ 32 \<Longrightarrow> zero_fill m a n = store_bytes m a (replicate n 0)"
  by (induction n arbitrary: m a) (simp_all add: store_bytes_Nil store_bytes_Cons)

lemma stosl_loop_eq:
  "4 * cnt \<le> 2 ^ 32 \<Longrightarrow>
   stosl_loop m a data cnt = store_bytes m a (concat (replicate cnt (bytes_of_u32 data)))"
proof (induction cnt arbitrary: m a)
  case (Suc cnt)
  have len: "length (concat (replicate cnt (bytes_of_u32 data))) = 4 * cnt"
    by (induction cnt) simp_all
  have "stosl_loop m a data (Suc cnt)
      = store_bytes (store_bytes m a (bytes_of_u32 data)) (a + of_nat (length (bytes_of_u32 data)))
          (concat (replicate cnt (bytes_of_u32 data)))"
    using Suc by (simp add: store32_def)
  then show ?case using Suc.prems len by (subst (asm) store_bytes_append) simp_all
qed (simp add: store_bytes_Nil)

lemma bit_byte_of_u32: "bit (ucast (drop_bit k (v :: u32)) :: u8) n \<longleftrightarrow> n < 8 \<and> bit v (k + n)"
  by (simp add: bit_unsigned_iff bit_drop_bit_eq)

lemma bytes_of_u32_splat:
  "bytes_of_u32 (push_bit 24 (c AND 0xFF) OR push_bit 16 (c AND 0xFF) OR push_bit 8 (c AND 0xFF)
     OR (c AND 0xFF)) = replicate 4 (ucast c)"
  (is "bytes_of_u32 ?v = _")
proof -
  have m: "(0xFF :: u32) = mask 8" by (simp add: mask_eq_exp_minus_1)
  have b: "bit (c AND 0xFF) n \<longleftrightarrow> n < 8 \<and> bit c n" for n
    unfolding m by (auto simp only: bit_and_iff bit_mask_iff) (auto dest: bit_imp_le_length)
  define e where "e = c AND 0xFF"
  have "ucast (drop_bit k (push_bit 24 e OR push_bit 16 e OR push_bit 8 e OR e)) = (ucast c :: u8)"
    if "k \<in> {0, 8, 16, 24}" for k
  proof (rule bit_word_eqI)
    fix n
    assume "n < LENGTH(8)"
    then have n: "n < 8" by simp
    have "bit (push_bit 24 e OR push_bit 16 e OR push_bit 8 e OR e) (k + n) \<longleftrightarrow> bit c n"
      using that n by (auto simp: bit_or_iff bit_push_bit_iff b [folded e_def])
    then show "bit (ucast (drop_bit k (push_bit 24 e OR push_bit 16 e OR push_bit 8 e OR e)) :: u8) n
        = bit (ucast c :: u8) n"
      using n bit_byte_of_u32 [of 0 c n] by (simp add: bit_byte_of_u32 del: drop_bit_or)
  qed
  from this [of 0] this [of 8] this [of 16] this [of 24] show ?thesis
    unfolding e_def [symmetric] by (simp add: bytes_of_u32_def eval_nat_numeral)
qed

text \<open>Whichever instruction it uses, \<open>memset\<close> fills exactly \<open>n\<close> bytes with the low byte of \<open>c\<close>.\<close>

lemma memset_eq: "memset m dst c n = store_bytes m dst (replicate (unat n) (ucast c))"
proof (cases "sint dst mod 4 = 0 \<and> n mod 4 = 0")
  case True
  then have "unat n mod 4 = 0" by (simp add: unat_mod word_unat_eq_iff)
  then have n: "4 * (unat n div 4) = unat n" by presburger
  have "concat (replicate k (replicate 4 x)) = replicate (4 * k) x" for k and x :: u8
    by (induction k) (simp_all add: replicate_add [symmetric] add.commute)
  then have splat: "concat (replicate (unat n div 4) (replicate 4 (ucast c))) = replicate (unat n) (ucast c :: u8)"
    using n by simp
  have "memset m dst c n = stosl_loop m dst (push_bit 24 (c AND 0xFF) OR push_bit 16 (c AND 0xFF)
      OR push_bit 8 (c AND 0xFF) OR (c AND 0xFF)) (unat n div 4)"
    using True by (simp only: memset_def Let_def stosl_def unat_div if_True simp_thms) simp
  also have "\<dots> = store_bytes m dst (replicate (unat n) (ucast c))"
    using n unat_less_exp32 [of n] by (subst stosl_loop_eq) (simp_all only: bytes_of_u32_splat splat)
  finally show ?thesis .
next
  case False
  then show ?thesis using unat_less_exp32 [of n]
    by (auto simp: memset_def stosb_def stosb_loop_eq)
qed


section \<open>Copying memory\<close>

lemma load_bytes_Suc: "load_bytes m a (Suc n) = m a # load_bytes m (a + 1) n"
  by (rule nth_equalityI) (auto simp: nth_Cons algebra_simps split: nat.split)

lemma load_bytes_snoc: "load_bytes m a (Suc n) = load_bytes m a n @ [m (a + of_nat n)]"
  by (simp add: load_bytes_def)

lemma load_bytes_upd_out:
  "\<not> in_range a n d \<Longrightarrow> n \<le> 2 ^ 32 \<Longrightarrow> load_bytes (m(d := v)) a n = load_bytes m a n"
  by (rule load_bytes_cong) auto

text \<open>
  The upward loop is right unless the destination starts strictly inside the source, the
  downward loop unless the source starts strictly inside the destination.
\<close>

lemma copy_up_eq:
  assumes "d = s \<or> n \<le> unat (d - s)" and "n < 2 ^ 32"
  shows "copy_up m d s n = store_bytes m d (load_bytes m s n)"
  using assms
proof (induction n arbitrary: m d s)
  case 0
  then show ?case by (simp add: load_bytes_def store_bytes_Nil)
next
  case (Suc n)
  have keep: "load_bytes (m(d := m s)) (s + 1) n = load_bytes m (s + 1) n"
  proof (cases "d = s")
    case False
    have "\<not> in_range (s + 1) n d"
    proof
      assume r: "in_range (s + 1) n d"
      then have "unat (d - s) \<le> Suc (unat (d - (s + 1)))"
        using in_range_sub [of s 1 n d "Suc n"] Suc.prems by (simp add: in_range_def)
      with r False Suc.prems show False by (simp add: in_range_def)
    qed
    then show ?thesis using Suc.prems by (simp add: load_bytes_upd_out)
  qed simp
  have "copy_up (m(d := m s)) (d + 1) (s + 1) n
      = store_bytes (m(d := m s)) (d + 1) (load_bytes (m(d := m s)) (s + 1) n)"
    by (rule Suc.IH) (use Suc.prems in auto)
  then have "copy_up m d s (Suc n) = store_bytes (m(d := m s)) (d + 1) (load_bytes m (s + 1) n)"
    by (simp only: keep copy_up.simps)
  then show ?case using Suc.prems by (simp add: store_bytes_Cons load_bytes_Suc)
qed


lemma store_bytes_snoc:
  assumes "length xs < 2 ^ 32"
  shows "(store_bytes m a xs)(a + of_nat (length xs) := b) = store_bytes m a (xs @ [b])"
  using store_bytes_append [of xs "[b]" m a] assms by (simp add: store_bytes_single)

lemma store_bytes_upd_snoc:
  assumes "length xs < 2 ^ 32"
  shows "store_bytes (m(a + of_nat (length xs) := b)) a xs = store_bytes m a (xs @ [b])"
proof -
  have "store_bytes (m(a + of_nat (length xs) := b)) a xs
      = (store_bytes m a xs)(a + of_nat (length xs) := b)"
    using assms by (auto simp: store_bytes_def in_range_def unat_of_nat fun_eq_iff)
  with store_bytes_snoc [OF assms] show ?thesis by simp
qed

lemma copy_down_eq:
  assumes "d = s \<or> n \<le> unat (s - d)" and "n < 2 ^ 32"
  shows "copy_down m (d + of_nat n) (s + of_nat n) n = store_bytes m d (load_bytes m s n)"
  using assms
proof (induction n arbitrary: m)
  case 0
  then show ?case by (simp add: load_bytes_def store_bytes_Nil)
next
  case (Suc n)
  let ?m = "m(d + of_nat n := m (s + of_nat n))"
  have keep: "load_bytes ?m s n = load_bytes m s n"
  proof (cases "d = s")
    case True
    then show ?thesis by (simp add: fun_upd_idem)
  next
    case False
    have "\<not> in_range s n (d + of_nat n)"
    proof
      assume r: "in_range s n (d + of_nat n)"
      have "s - d = of_nat n - of_nat (unat (d + of_nat n - s))" by simp
      also have "\<dots> = of_nat (n - unat (d + of_nat n - s))"
        using r by (simp add: in_range_def of_nat_diff)
      finally have "unat (s - d) \<le> n" by (simp add: unat_of_nat)
      with False Suc.prems show False by simp
    qed
    then show ?thesis using Suc.prems by (simp add: load_bytes_upd_out)
  qed
  have "copy_down m (d + of_nat (Suc n)) (s + of_nat (Suc n)) (Suc n)
      = copy_down ?m (d + of_nat n) (s + of_nat n) n"
    by (simp add: algebra_simps)
  also have "\<dots> = store_bytes ?m d (load_bytes m s n)"
    unfolding keep [symmetric] by (rule Suc.IH) (use Suc.prems in auto)
  also have "\<dots> = store_bytes m d (load_bytes m s (Suc n))"
    using Suc.prems store_bytes_upd_snoc [of "load_bytes m s n" m d] by (simp add: load_bytes_snoc)
  finally show ?case .
qed

lemma memmove_eq:
  assumes "unat src + unat n \<le> 2 ^ 32" and "unat dst + unat n \<le> 2 ^ 32"
  shows "memmove m dst src n = store_bytes m dst (load_bytes m src (unat n))"
proof -
  have n: "unat n < 2 ^ 32" by (rule unat_less_exp32)
  show ?thesis
  proof (cases "src < dst \<and> src + n > dst")
    case True
    then have "unat (src - dst) = unat src + 2 ^ 32 - unat dst"
      using unat_sub_if_size [of src dst] by (simp add: word_less_nat_alt word_size)
    with assms have "unat n \<le> unat (src - dst)" by simp
    with copy_down_eq [of dst src "unat n" m] n True show ?thesis by (simp add: memmove_def)
  next
    case False
    have "dst = src \<or> unat n \<le> unat (dst - src)"
    proof (cases "src < dst")
      case True
      with False have "src + n \<le> dst" by simp
      show ?thesis
      proof (cases "unat src + unat n < 2 ^ 32")
        case nowrap: True
        then have "unat src + unat n \<le> unat dst"
          using \<open>src + n \<le> dst\<close> by (simp add: word_le_nat_alt unat_word_ariths)
        with True show ?thesis using unat_sub [of src dst] by (simp add: word_less_nat_alt word_le_nat_alt) linarith
      next
        case False
        with assms True show ?thesis using unat_sub [of src dst] unat_less_exp32 [of dst]
          by (simp add: word_less_nat_alt word_le_nat_alt)
      qed
    next
      case False
      show ?thesis
      proof (cases "dst = src")
        case neq: False
        with False have lt: "unat dst < unat src" by (simp add: word_less_nat_alt word_unat_eq_iff)
        then have "unat (dst - src) = unat dst + 2 ^ 32 - unat src"
          using unat_sub_if_size [of dst src] by (simp add: word_size)
        with assms lt have "unat n \<le> unat (dst - src)" by linarith
        then show ?thesis ..
      qed simp
    qed
    with n have "copy_up m dst src (unat n) = store_bytes m dst (load_bytes m src (unat n))"
      by (rule copy_up_eq [rotated])
    with False show ?thesis by (auto simp: memmove_def)
  qed
qed


section \<open>NUL-terminated strings\<close>

text \<open>Memory holds the string \<open>bs\<close>, with its terminator, at address \<open>a\<close>.\<close>

fun cstring :: "memory \<Rightarrow> u32 \<Rightarrow> u8 list \<Rightarrow> bool" where
  "cstring m a [] \<longleftrightarrow> m a = 0"
| "cstring m a (b # bs) \<longleftrightarrow> m a = b \<and> b \<noteq> 0 \<and> cstring m (a + 1) bs"

lemma cstring_unique: "cstring m a bs \<Longrightarrow> cstring m a cs \<Longrightarrow> bs = cs"
proof (induction bs arbitrary: a cs)
  case Nil
  then show ?case by (cases cs) auto
next
  case (Cons b bs)
  then show ?case by (cases cs) auto
qed

lemma strncmp_loop_0_iff:
  "cstring m p ps \<Longrightarrow> cstring m q qs \<Longrightarrow> strncmp_loop m p q n = 0 \<longleftrightarrow> take n ps = take n qs"
proof (induction n arbitrary: p q ps qs)
  case (Suc n)
  show ?case
  proof (cases "ps = [] \<or> qs = []")
    case True
    with Suc.prems show ?thesis by (cases ps; cases qs) (auto simp: unsigned_eq_0_iff)
  next
    case False
    then obtain b ps' c qs' where *: "ps = b # ps'" "qs = c # qs'" by (meson neq_Nil_conv)
    with Suc.prems Suc.IH [of "p + 1" ps' "q + 1" qs'] show ?thesis
      by (auto dest: unsigned_word_eqI)
  qed
qed simp

lemma strlen_from_eq:
  "cstring m (s + n) bs \<Longrightarrow> strlen_from m s n = Some (n + of_nat (length bs))"
proof (induction bs arbitrary: n)
  case Nil
  then show ?case by (simp add: strlen_from.simps)
next
  case (Cons b bs)
  then have "strlen_from m s (n + 1) = Some (n + 1 + of_nat (length bs))"
    by (intro Cons.IH) (simp add: algebra_simps)
  with Cons.prems show ?case by (subst strlen_from.simps) (simp add: algebra_simps)
qed

lemma cstring_upd_out: "cstring m a bs \<Longrightarrow> \<not> in_range a (Suc (length bs)) x \<Longrightarrow>
    length bs < 2 ^ 32 \<Longrightarrow> cstring (m(x := v)) a bs"
proof (induction bs arbitrary: a)
  case Nil
  then show ?case by (auto simp: in_range_def)
next
  case (Cons b bs)
  have "\<not> in_range (a + 1) (Suc (length bs)) x"
    using Cons.prems in_range_sub [of a 1 "Suc (length bs)" x "Suc (Suc (length bs))"] by auto
  moreover have "x \<noteq> a" using Cons.prems by (auto simp: in_range_def)
  ultimately show ?case using Cons by simp
qed

text \<open>What a bounded copy of the string \<open>bs\<close> into a field of \<open>n\<close> bytes leaves there.\<close>

definition padded :: "nat \<Rightarrow> u8 list \<Rightarrow> u8 list" where
  "padded n bs = take n bs @ replicate (n - length bs) 0"

lemma length_padded [simp]: "length (padded n bs) = n"
  by (simp add: padded_def)

lemma strncpy_loop_eq:
  assumes "cstring m t bs" and "n < 2 ^ 31" and "length bs < 2 ^ 31"
    and "\<forall>i < n. \<not> in_range t (Suc (length bs)) (s + of_nat i)"
  shows "strncpy_loop m s t n = store_bytes m s (padded n bs)"
  using assms
proof (induction n arbitrary: m s t bs)
  case 0
  then show ?case by (simp add: padded_def store_bytes_Nil)
next
  case (Suc n)
  show ?case
  proof (cases bs)
    case Nil
    with Suc.prems show ?thesis
      by (simp add: padded_def zero_fill_eq store_bytes_Cons)
  next
    case (Cons b bs')
    have s: "\<not> in_range t (Suc (length bs)) s" using Suc.prems(4) by force
    have cs: "cstring (m(s := b)) (t + 1) bs'"
      using Suc.prems(1,3) s Cons in_range_sub [of t 1 "Suc (length bs')" s "Suc (length bs)"]
      by (intro cstring_upd_out) auto
    have far: "\<forall>i < n. \<not> in_range (t + 1) (Suc (length bs')) (s + 1 + of_nat i)"
    proof (intro allI impI notI)
      fix i
      assume "i < n" and "in_range (t + 1) (Suc (length bs')) (s + 1 + of_nat i)"
      then have "in_range t (Suc (length bs)) (s + of_nat (Suc i))"
        using Cons Suc.prems(3) in_range_sub [of t 1 "Suc (length bs')" "s + 1 + of_nat i" "Suc (length bs)"]
        by (simp add: algebra_simps)
      with Suc.prems(4) \<open>i < n\<close> show False by blast
    qed
    have "strncpy_loop (m(s := b)) (s + 1) (t + 1) n = store_bytes (m(s := b)) (s + 1) (padded n bs')"
      by (rule Suc.IH [OF cs]) (use Suc.prems Cons far in auto)
    then show ?thesis using Suc.prems Cons
      by (simp add: padded_def store_bytes_Cons Let_def)
  qed
qed

text \<open>\<open>safestrcpy\<close> copies the string up to the size of the field, and terminates it.\<close>

lemma store_bytes_frame: "in_range a (length bs) x \<or> store_bytes m a bs x = m x"
  by (simp add: store_bytes_def)

lemma store_bytes_two: "m(a := b, a + 1 := c) = store_bytes m a [b, c]"
  using store_bytes_Cons [of "[c]" m a b] by (simp add: store_bytes_single)

lemma cstring_store_bytes:
  "0 \<notin> set bs \<Longrightarrow> length bs < 2 ^ 31 \<Longrightarrow> length cs < 2 ^ 31 \<Longrightarrow> cstring (store_bytes m a (bs @ 0 # cs)) a bs"
proof (induction bs arbitrary: m a)
  case Nil
  then show ?case by (simp add: store_bytes_def in_range_def)
next
  case (Cons b bs)
  have "store_bytes m a (b # bs @ 0 # cs) = store_bytes (m(a := b)) (a + 1) (bs @ 0 # cs)"
    using Cons.prems by (subst store_bytes_Cons) auto
  moreover have "store_bytes m a (b # bs @ 0 # cs) a = b" by (simp add: store_bytes_def)
  ultimately show ?case using Cons by simp
qed

lemma cstring_no_nul: "cstring m a bs \<Longrightarrow> 0 \<notin> set bs"
  by (induction bs arbitrary: a) auto

lemma safestrcpy_loop_eq:
  assumes "cstring m t bs" and "n < 2 ^ 31" and "length bs < 2 ^ 31"
    and "\<forall>i \<le> n. \<not> in_range t (Suc (length bs)) (s + of_nat i)"
  shows "safestrcpy_loop m s t n = store_bytes m s (if length bs < n then bs @ [0, 0] else take n bs @ [0])"
  using assms
proof (induction n arbitrary: m s t bs)
  case 0
  then show ?case by (simp add: store_bytes_single)
next
  case (Suc n)
  show ?case
  proof (cases bs)
    case Nil
    with Suc.prems show ?thesis
      by (simp add: store_bytes_two [symmetric] Let_def)
  next
    case (Cons b bs')
    have s: "\<not> in_range t (Suc (length bs)) s" using Suc.prems(4) by force
    have cs: "cstring (m(s := b)) (t + 1) bs'"
      using Suc.prems(1,3) s Cons in_range_sub [of t 1 "Suc (length bs')" s "Suc (length bs)"]
      by (intro cstring_upd_out) auto
    have far: "\<forall>i \<le> n. \<not> in_range (t + 1) (Suc (length bs')) (s + 1 + of_nat i)"
    proof (intro allI impI notI)
      fix i
      assume "i \<le> n" and "in_range (t + 1) (Suc (length bs')) (s + 1 + of_nat i)"
      then have "in_range t (Suc (length bs)) (s + of_nat (Suc i))"
        using Cons Suc.prems(3) in_range_sub [of t 1 "Suc (length bs')" "s + 1 + of_nat i" "Suc (length bs)"]
        by (simp add: algebra_simps)
      with Suc.prems(4) \<open>i \<le> n\<close> show False by blast
    qed
    have "safestrcpy_loop (m(s := b)) (s + 1) (t + 1) n
        = store_bytes (m(s := b)) (s + 1) (if length bs' < n then bs' @ [0, 0] else take n bs' @ [0])"
      by (rule Suc.IH [OF cs]) (use Suc.prems Cons far in auto)
    then show ?thesis using Suc.prems Cons
      by (simp add: store_bytes_Cons Let_def)
  qed
qed


section \<open>Properties\<close>

text \<open>
  C29: \<open>memset\<close> leaves the byte \<open>c\<close> in each of the \<open>n\<close> cells from \<open>dst\<close>, on both of its paths
  (word stores when address and length are multiples of four, byte stores otherwise), and
  changes no other cell.
\<close>

theorem memset_fills:
  "load_bytes (memset m dst c n) dst (unat n) = replicate (unat n) (ucast c)
   \<and> (\<forall>x. in_range dst (unat n) x \<or> memset m dst c n x = m x)"
  using unat_less_exp32 [of n] using store_bytes_frame [of dst "replicate (unat n) (ucast c)" _ m]
  by (auto simp: memset_eq load_store_bytes)

text \<open>
  C28: \<open>memmove\<close> leaves at \<open>dst\<close> the bytes that \<open>src\<close> held before the call, however the
  two regions overlap, and changes no other cell; neither region may wrap around the top of
  the address space.
\<close>

theorem memmove_copies:
  assumes "unat src + unat n \<le> 2 ^ 32" and "unat dst + unat n \<le> 2 ^ 32"
  shows "load_bytes (memmove m dst src n) dst (unat n) = load_bytes m src (unat n)
     \<and> (\<forall>x. in_range dst (unat n) x \<or> memmove m dst src n x = m x)"
  using assms unat_less_exp32 [of n] store_bytes_frame [of dst "load_bytes m src (unat n)" _ m]
  by (auto simp: memmove_eq load_store_bytes)

theorem memmove_copies_witness:
  "load_bytes (memmove ucast 10 8 4) 10 4 = [8, 9, 10, 11]"
proof -
  have "load_bytes (memmove ucast 10 8 4) 10 4 = load_bytes ucast 8 4"
    using memmove_copies [of 8 4 10 ucast] by simp
  also have "\<dots> = [8, 9, 10, 11]" by (simp add: load_bytes_def upt_rec)
  finally show ?thesis .
qed

text \<open>
  C30: \<open>safestrcpy\<close> with a positive bound \<open>n\<close> leaves a NUL-terminated string at \<open>s\<close>, the
  source string cut to \<open>n - 1\<close> characters, and writes only inside the \<open>n\<close> bytes at \<open>s\<close>;
  the source string and the destination must not overlap.
\<close>

theorem safestrcpy_bounded:
  assumes "cstring m t bs" and "0 < sint n" and "length bs < 2 ^ 31"
    and "\<forall>i < nat (sint n). \<not> in_range t (Suc (length bs)) (s + of_nat i)"
  shows "cstring (safestrcpy m s t n) s (take (nat (sint n) - 1) bs)
     \<and> (\<forall>x. in_range s (nat (sint n)) x \<or> safestrcpy m s t n x = m x)"
proof -
  define k where "k = nat (sint n) - 1"
  have k: "nat (sint n) = Suc k" using assms(2) by (simp add: k_def)
  have "sint n < 2 ^ 31" using sint_lt [of n] by simp
  with assms(2) have k31: "k < 2 ^ 31" by (simp add: k_def)
  define out where "out = (if length bs < k then bs @ [0, 0] else take k bs @ [0])"
  have "safestrcpy m s t n = store_bytes m s out"
  proof -
    have "safestrcpy_loop m s t k = store_bytes m s out"
      unfolding out_def
      by (rule safestrcpy_loop_eq [OF assms(1) k31 assms(3)]) (use assms(4) k in auto)
    with assms(2) show ?thesis by (simp add: safestrcpy_def k_def)
  qed
  moreover have "length out \<le> Suc k" by (auto simp: out_def)
  moreover have "out = take k bs @ 0 # (if length bs < k then [0] else [])" by (simp add: out_def)
  moreover have "cstring (store_bytes m s (take k bs @ 0 # (if length bs < k then [0] else []))) s (take k bs)"
    using cstring_no_nul [OF assms(1)] assms(3)
    by (intro cstring_store_bytes) (auto dest: in_set_takeD)
  ultimately have "cstring (safestrcpy m s t n) s (take k bs)" by simp
  moreover have "in_range s (Suc k) x \<or> safestrcpy m s t n x = m x" for x
    using store_bytes_frame [of s out x m] in_range_mono [of s "length out" x "Suc k"]
      \<open>length out \<le> Suc k\<close> \<open>safestrcpy m s t n = store_bytes m s out\<close> by auto
  ultimately show ?thesis by (simp add: k)
qed

theorem safestrcpy_bounded_witness:
  "cstring (safestrcpy (\<lambda>x. if x = 100 then 65 else if x = 101 then 66 else 0) 200 100 2) 200 [65]"
  using safestrcpy_bounded [of "\<lambda>x. if x = 100 then 65 else if x = 101 then 66 else 0" 100 "[65, 66]" 2 200]
  by (simp add: in_range_def less_2_cases_iff)

text \<open>
  C31: \<open>strncmp\<close> returns 0 exactly when the two strings agree on their first \<open>n\<close>
  characters.
\<close>

theorem strncmp_decides_prefix:
  assumes "cstring m p ps" and "cstring m q qs"
  shows "strncmp m p q n = 0 \<longleftrightarrow> take (unat n) ps = take (unat n) qs"
  using assms by (simp add: strncmp_def strncmp_loop_0_iff)

theorem strncmp_decides_prefix_witness:
  "strncmp (\<lambda>x. if x = 0 \<or> x = 2 then 65 else 0) 0 2 9 = 0"
  using strncmp_decides_prefix [of "\<lambda>x. if x = 0 \<or> x = 2 then 65 else 0" 0 "[65]" 2 "[65]" 9]
  by simp

end
