(* ===== verification/Kalloc.thy ===== *)
theory Kalloc
  imports Entropy CString
begin

text \<open>
  The physical page allocator of \<open>src/kalloc.c\<close>. The free list is in memory: the first word
  of a free page is the address of the next one. The state adds to the entropy accumulator
  the flat memory, the globals of the file, the two function-local \<open>free_memory_pool\<close>
  counters, and \<open>kend\<close>, the address of the linker symbol \<open>end\<close>.
\<close>

section \<open>Definitions\<close>

definition PHYSTOP :: u32 where "PHYSTOP = 0xE000000"

record kmem_st = ent_st +
  mem :: memory
  kmem_lock :: spinlock
  use_lock :: i32
  freelist :: u32
  kinit2_called :: i32
  memory_operations :: i32
  kfree_pool :: u32
  kalloc_pool :: u32
  kend :: u32

definition V2P :: "u32 \<Rightarrow> u32" where "V2P a = a - KERNBASE"
definition P2V :: "u32 \<Rightarrow> u32" where "P2V a = a + KERNBASE"

definition PGROUNDUP :: "u32 \<Rightarrow> u32" where
  "PGROUNDUP sz = (sz + of_nat PGSIZE - 1) AND NOT (of_nat PGSIZE - 1)"

definition PGROUNDDOWN :: "u32 \<Rightarrow> u32" where
  "PGROUNDDOWN a = a AND NOT (of_nat PGSIZE - 1)"

text \<open>The loop that counts the pages of the free list; a cyclic list keeps it busy forever.\<close>

partial_function (option) count_free :: "memory \<Rightarrow> u32 \<Rightarrow> u32 \<Rightarrow> u32 option" where
  "count_free m pg free_pages =
     (if pg \<noteq> 0 then count_free m (load32 m pg) (free_pages + 1) else Some free_pages)"

definition kmem_acquire :: "'a kmem_st_scheme \<Rightarrow> 'a kmem_st_scheme res" where
  "kmem_acquire s =
     (if use_lock s \<noteq> 0
      then bind_res (acquire (kmem_lock s) s) (\<lambda>(lk, s). Inr (s\<lparr>kmem_lock := lk\<rparr>))
      else Inr s)"

definition kmem_release :: "'a kmem_st_scheme \<Rightarrow> 'a kmem_st_scheme res" where
  "kmem_release s =
     (if use_lock s \<noteq> 0
      then bind_res (release (kmem_lock s) s) (\<lambda>(lk, s). Inr (s\<lparr>kmem_lock := lk\<rparr>))
      else Inr s)"

text \<open>The entropy event of both functions, with the pool that the caller's counter selects.\<close>

definition free_memory_event :: "u32 \<Rightarrow> 'a kmem_st_scheme \<Rightarrow> 'a kmem_st_scheme res" where
  "free_memory_event pool s =
     (case count_free (mem s) (freelist s) 0 of
        None \<Rightarrow> Inl Diverge
      | Some free_pages \<Rightarrow>
          (let free_memory = free_pages * of_nat PGSIZE
           in addRandomEvent FREE_MEMORY_SIZE (pool mod of_nat MAX_POOLS)
                (Some (\<lambda>i. bytes_of_u32 free_memory ! i)) 4 s))"

definition kfree :: "u32 \<Rightarrow> 'a kmem_st_scheme \<Rightarrow> 'a kmem_st_scheme res" where
  "kfree v s =
     (let s = s\<lparr>memory_operations := memory_operations s + 1\<rparr> in
      if v mod of_nat PGSIZE \<noteq> 0 \<or> v < kend s \<or> V2P v \<ge> PHYSTOP then Inl (Panic ''kfree'')
      else
        (let s = s\<lparr>mem := memset (mem s) v 1 (of_nat PGSIZE)\<rparr> in
         bind_res (kmem_acquire s) (\<lambda>s.
         let s = s\<lparr>mem := store32 (mem s) v (freelist s), freelist := v\<rparr> in
         bind_res
           (if kinit2_called s = 1 \<and> sint (memory_operations s) > 500 then
              bind_res (free_memory_event (kfree_pool s) s) (\<lambda>s.
              Inr (s\<lparr>kfree_pool := kfree_pool s + 1, memory_operations := 0\<rparr>))
            else Inr s) (\<lambda>s.
         kmem_release s))))"

definition kalloc :: "'a kmem_st_scheme \<Rightarrow> (u32 \<times> 'a kmem_st_scheme) res" where
  "kalloc s =
     (let s = s\<lparr>memory_operations := memory_operations s + 1\<rparr> in
      bind_res (kmem_acquire s) (\<lambda>s.
      let r = freelist s; s = (if r \<noteq> 0 then s\<lparr>freelist := load32 (mem s) r\<rparr> else s) in
      bind_res
        (if kinit2_called s = 1 \<and> sint (memory_operations s) > 500 then
           bind_res (free_memory_event (kalloc_pool s) s) (\<lambda>s.
           Inr (s\<lparr>kalloc_pool := kalloc_pool s + 1, memory_operations := 0\<rparr>))
         else Inr s) (\<lambda>s.
      bind_res (kmem_release s) (\<lambda>s. Inr (r, s)))))"

text \<open>
  \<open>freerange\<close> ends because \<open>kfree\<close> panics on the first address past \<open>PHYSTOP\<close>, long before
  \<open>p\<close> could wrap.
\<close>

lemma kfree_InrD:
  assumes "kfree v s = Inr s'"
  shows "v mod of_nat PGSIZE = 0" and "kend s \<le> v" and "V2P v < PHYSTOP"
proof -
  have "\<not> (v mod of_nat PGSIZE \<noteq> 0 \<or> v < kend s \<or> V2P v \<ge> PHYSTOP)"
    using assms unfolding kfree_def Let_def by (auto split: if_splits)
  then show "v mod of_nat PGSIZE = 0" and "kend s \<le> v" and "V2P v < PHYSTOP" by auto
qed

lemma V2P_bounds:
  assumes "V2P v < PHYSTOP"
  shows "unat KERNBASE \<le> unat v" and "unat v < 0x8E000000"
proof -
  define d where "d = unat (V2P v)"
  have d: "d < 0xE000000" using assms by (simp add: d_def PHYSTOP_def word_less_nat_alt)
  have "v = KERNBASE + of_nat d" by (simp add: d_def V2P_def)
  with d have "unat v = 0x80000000 + d"
    by (simp add: KERNBASE_def unat_word_ariths unat_of_nat)
  with d show "unat KERNBASE \<le> unat v" and "unat v < 0x8E000000" by (simp_all add: KERNBASE_def)
qed

lemma V2P_next: "V2P v < PHYSTOP \<Longrightarrow> unat (v + of_nat PGSIZE) = unat v + 4096"
  using V2P_bounds [of v] by (simp add: PGSIZE_def unat_word_ariths)

function freerange_loop :: "u32 \<Rightarrow> u32 \<Rightarrow> 'a kmem_st_scheme \<Rightarrow> 'a kmem_st_scheme res" where
  "freerange_loop p vend s =
     (if p + of_nat PGSIZE \<le> vend
      then bind_res (kfree p s) (\<lambda>s. freerange_loop (p + of_nat PGSIZE) vend s)
      else Inr s)"
  by pat_completeness auto
termination
  by (relation "measure (\<lambda>(p, vend, s). 2 ^ 32 - unat p)")
    (use V2P_next kfree_InrD(3) V2P_bounds(2) in \<open>fastforce simp: less_diff_conv2\<close>)+

declare freerange_loop.simps [simp del]

definition freerange :: "u32 \<Rightarrow> u32 \<Rightarrow> 'a kmem_st_scheme \<Rightarrow> 'a kmem_st_scheme res" where
  "freerange vstart vend s = freerange_loop (PGROUNDUP vstart) vend s"

definition kinit1 :: "u32 \<Rightarrow> u32 \<Rightarrow> 'a kmem_st_scheme \<Rightarrow> 'a kmem_st_scheme res" where
  "kinit1 vstart vend s =
     (let s = s\<lparr>kmem_lock := initlock ''kmem'' (kmem_lock s), use_lock := 0\<rparr>
      in freerange vstart vend s)"

definition kinit2 :: "u32 \<Rightarrow> u32 \<Rightarrow> 'a kmem_st_scheme \<Rightarrow> 'a kmem_st_scheme res" where
  "kinit2 vstart vend s =
     bind_res (freerange vstart vend s) (\<lambda>s. Inr (s\<lparr>use_lock := 1, kinit2_called := 1\<rparr>))"


section \<open>The free list\<close>

lemma load32_store_bytes_out:
  "(\<And>x. in_range a 4 x \<Longrightarrow> \<not> in_range b (length bs) x) \<Longrightarrow>
   load32 (store_bytes m b bs) a = load32 m a"
  by (rule load32_cong) (simp add: store_bytes_out)

text \<open>Memory links the pages \<open>ps\<close>, in this order, from the address \<open>p\<close>.\<close>

fun flist :: "memory \<Rightarrow> u32 \<Rightarrow> u32 list \<Rightarrow> bool" where
  "flist m p [] \<longleftrightarrow> p = 0"
| "flist m p (q # qs) \<longleftrightarrow> p = q \<and> q \<noteq> 0 \<and> flist m (load32 m q) qs"

lemma flist_cong:
  "(\<And>q x. q \<in> set ps \<Longrightarrow> in_range q 4 x \<Longrightarrow> m x = m' x) \<Longrightarrow> flist m p ps = flist m' p ps"
proof (induction ps arbitrary: p)
  case (Cons q ps)
  then have "load32 m q = load32 m' q" by (intro load32_cong) auto
  then show ?case using Cons.IH [of "load32 m' q"] Cons.prems by auto
qed simp

lemma flist_0_iff: "flist m p ps \<Longrightarrow> p = 0 \<longleftrightarrow> ps = []"
  by (cases ps) auto

lemma count_free_eq: "flist m p ps \<Longrightarrow> count_free m p n = Some (n + of_nat (length ps))"
proof (induction ps arbitrary: p n)
  case Nil
  then show ?case by (simp add: count_free.simps)
next
  case (Cons q ps)
  then show ?case by (subst count_free.simps) (simp add: algebra_simps)
qed

text \<open>A page the allocator may own.\<close>

definition page_ok :: "u32 \<Rightarrow> u32 \<Rightarrow> bool" where
  "page_ok e v \<longleftrightarrow> v mod of_nat PGSIZE = 0 \<and> e \<le> v \<and> V2P v < PHYSTOP"

lemma page_ok_aligned: "page_ok e v \<Longrightarrow> page_aligned v"
proof -
  assume "page_ok e v"
  then have "unat (v mod 4096) = 0" by (simp add: page_ok_def PGSIZE_def)
  then show ?thesis by (simp add: unat_mod)
qed

lemma page_ok_nonzero: "page_ok e v \<Longrightarrow> v \<noteq> 0"
  using V2P_bounds(1) [of v] by (auto simp: page_ok_def KERNBASE_def)

lemma page_ok_disjoint:
  assumes "page_ok e p" "page_ok e q" "p \<noteq> q" "in_range p 4096 x"
  shows "\<not> in_range q 4096 x"
  using page_overlap_eq [OF page_ok_aligned [OF assms(1)] page_ok_aligned [OF assms(2)] assms(4)]
    assms(3) by auto


section \<open>The allocator's invariant\<close>

definition alloc_rep :: "u32 list \<Rightarrow> 'a kmem_st_scheme \<Rightarrow> bool" where
  "alloc_rep ps s \<longleftrightarrow> flist (mem s) (freelist s) ps \<and> distinct ps
     \<and> (\<forall>p \<in> set ps. page_ok (kend s) p)"

text \<open>
  The next \<open>b\<close> calls can record their entropy events: either no event is due in them, or
  the pools are free and far from overflowing their size counters.
\<close>

definition events_ok :: "nat \<Rightarrow> 'a kmem_st_scheme \<Rightarrow> bool" where
  "events_ok b s \<longleftrightarrow> kinit2_called s \<noteq> 1 \<or> sint (memory_operations s) + int b \<le> 500
     \<or> (\<exists>sts. accum_rep sts s \<and> pools_free s \<and> (\<forall>i < MAX_POOLS. length (sts ! i) + 6 * b + 34 < 2 ^ 31))"

text \<open>No event is due in the next \<open>b\<close> calls.\<close>

definition quiet :: "nat \<Rightarrow> 'a kmem_st_scheme \<Rightarrow> bool" where
  "quiet b s \<longleftrightarrow> kinit2_called s \<noteq> 1 \<or> sint (memory_operations s) + int b \<le> 500"

lemma quiet_events_ok: "quiet b s \<Longrightarrow> events_ok b s"
  by (auto simp: quiet_def events_ok_def)

definition kinv :: "nat \<Rightarrow> u32 list \<Rightarrow> 'a kmem_st_scheme \<Rightarrow> bool" where
  "kinv b ps s \<longleftrightarrow> alloc_rep ps s \<and> cpu_room 2 s \<and> locked (kmem_lock s) = 0 \<and> events_ok b s"

text \<open>What the allocator never changes.\<close>

definition kframe :: "'a kmem_st_scheme \<Rightarrow> 'a kmem_st_scheme \<Rightarrow> bool" where
  "kframe s s' \<longleftrightarrow> balanced s s' \<and> use_lock s' = use_lock s \<and> kinit2_called s' = kinit2_called s
     \<and> kend s' = kend s \<and> kmem_st.more s' = kmem_st.more s"

lemma kframe_refl [simp, intro]: "kframe s s"
  by (simp add: kframe_def)

lemma kframe_trans [trans]: "kframe s t \<Longrightarrow> kframe t u \<Longrightarrow> kframe s u"
  by (auto simp: kframe_def intro: balanced_trans)

lemma flist_Cons_load: "alloc_rep (p # ps) s \<Longrightarrow> freelist s = p \<and> p \<noteq> 0 \<and> flist (mem s) (load32 (mem s) p) ps"
  by (simp add: alloc_rep_def)

text \<open>The same allocator data, whatever happened to the pools and the event counters.\<close>

definition same_alloc :: "'a kmem_st_scheme \<Rightarrow> 'a kmem_st_scheme \<Rightarrow> bool" where
  "same_alloc s s' \<longleftrightarrow> mem s' = mem s \<and> freelist s' = freelist s \<and> kmem_lock s' = kmem_lock s
     \<and> use_lock s' = use_lock s \<and> kinit2_called s' = kinit2_called s \<and> kend s' = kend s
     \<and> kmem_st.more s' = kmem_st.more s"

lemma same_alloc_more: "ent_st.more s' = ent_st.more s \<Longrightarrow> same_alloc s s'"
  by (cases s; cases s') (simp add: same_alloc_def)

lemma alloc_rep_same: "same_alloc s s' \<Longrightarrow> alloc_rep ps s' = alloc_rep ps s"
  by (simp add: same_alloc_def alloc_rep_def)

text \<open>Recording an event, with the pools in order.\<close>

lemma pool_number:
  fixes k :: u32
  shows "0 \<le> sint (k mod of_nat MAX_POOLS)" "sint (k mod of_nat MAX_POOLS) < 32"
    "nat (sint (k mod of_nat MAX_POOLS)) = unat k mod 32"
proof -
  have *: "k mod of_nat MAX_POOLS = of_nat (unat k mod 32)"
    by (simp add: MAX_POOLS_def word_unat_eq_iff unat_mod unat_of_nat)
  have "sint (k mod of_nat MAX_POOLS) = int (unat k mod 32)"
    unfolding * by (rule sint_of_nat) (rule less_trans [of _ 32], simp_all)
  then show "0 \<le> sint (k mod of_nat MAX_POOLS)" "sint (k mod of_nat MAX_POOLS) < 32"
    "nat (sint (k mod of_nat MAX_POOLS)) = unat k mod 32" by simp_all
qed

lemma accum_rep_only_pool:
  assumes "accum_rep sts s" "only_pool n s s'" "pool_rep st (pools s' ! n)" "n < MAX_POOLS"
  shows "accum_rep (sts[n := st]) s'"
proof -
  have "length (pools s') = MAX_POOLS" "\<And>i. i \<noteq> n \<Longrightarrow> pools s' ! i = pools s ! i"
    using assms(1,2) by (metis only_pool_def accum_rep_def length_list_update,
        metis only_pool_def nth_list_update_neq)
  with assms show ?thesis by (auto simp: accum_rep_def nth_list_update)
qed

lemma pools_free_only_pool:
  assumes "pools_free s" "only_pool n s s'" "locked (plock (pools s' ! n)) = 0"
  shows "pools_free s'"
  using assms unfolding pools_free_def only_pool_def by (metis nth_list_update_neq)

lemma free_memory_event_ok:
  assumes "flist (mem s) (freelist s) ps" and "cpu_ok s"
    and "accum_rep sts s" "pools_free s" "\<forall>i < MAX_POOLS. length (sts ! i) + 34 < 2 ^ 31"
  shows "\<exists>s' sts'. free_memory_event pool s = Inr s' \<and> balanced s s' \<and> ent_st.more s' = ent_st.more s
     \<and> accum_rep sts' s' \<and> pools_free s' \<and> (\<forall>i < MAX_POOLS. length (sts' ! i) \<le> length (sts ! i) + 6)"
proof -
  define n where "n = unat pool mod 32"
  define bs where "bs = bytes_of_u32 (of_nat (length ps) * of_nat PGSIZE :: u32)"
  have n: "n < MAX_POOLS" by (simp add: n_def MAX_POOLS_def)
  have fm: "0 \<le> sint FREE_MEMORY_SIZE" "sint FREE_MEMORY_SIZE \<le> 255" by (simp_all add: FREE_MEMORY_SIZE_def)
  have d4: "0 \<le> sint (4 :: i32)" "sint (4 :: i32) \<le> 32" by simp_all
  have pl: "length (pools s) = MAX_POOLS" "pool_rep (sts ! n) (pools s ! n)" "locked (plock (pools s ! n)) = 0"
    "length (sts ! n) + 34 < 2 ^ 31" "length sts = MAX_POOLS"
    using assms(3-5) n by (simp_all add: accum_rep_def pools_free_def)
  obtain s' where s': "addRandomEvent FREE_MEMORY_SIZE (pool mod of_nat MAX_POOLS) (Some (\<lambda>i. bs ! i)) 4 s = Inr s'"
    "only_pool n s s'" "pool_rep (sts ! n @ event_bytes FREE_MEMORY_SIZE (\<lambda>i. bs ! i) 4) (pools s' ! n)"
    "locked (plock (pools s' ! n)) = 0"
    using addRandomEvent_ok [OF assms(2) fm pool_number(1,2) [of pool] d4, unfolded pool_number(3),
        folded n_def, OF pl(1-4)] by blast
  have "free_memory_event pool s = Inr s'"
    using s'(1) count_free_eq [OF assms(1), of 0] by (simp add: free_memory_event_def bs_def)
  moreover have "accum_rep (sts[n := sts ! n @ event_bytes FREE_MEMORY_SIZE (\<lambda>i. bs ! i) 4]) s'"
    by (rule accum_rep_only_pool [OF assms(3) s'(2,3) n])
  moreover have "\<forall>i < MAX_POOLS. length (sts[n := sts ! n @ event_bytes FREE_MEMORY_SIZE (\<lambda>i. bs ! i) 4] ! i)
      \<le> length (sts ! i) + 6"
    using pl(5) n by (auto simp: nth_list_update length_event_bytes)
  ultimately show ?thesis
    using pools_free_only_pool [OF assms(4) s'(2,4)] s'(2) unfolding only_pool_def by blast
qed

text \<open>The part of both functions that may record an event.\<close>

lemma rep_pools_cong:
  "pools s' = pools s \<Longrightarrow> accum_rep sts s' = accum_rep sts s"
  "pools s' = pools s \<Longrightarrow> pools_free s' = pools_free s"
  by (simp_all add: accum_rep_def pools_free_def)

lemma event_step_ok:
  fixes t :: "'a kmem_st_scheme"
  assumes fl: "flist (mem t) (freelist t) ps" and ok: "cpu_ok t"
    and ev: "events_ok (Suc b) s" and t: "pools t = pools s" "kinit2_called t = kinit2_called s"
      "memory_operations t = memory_operations s + 1"
    and upd: "\<And>u. balanced u (upd u)" "\<And>u. same_alloc u (upd u)" "\<And>u. pools (upd u) = pools u"
  shows "\<exists>t'. (if kinit2_called t = 1 \<and> 500 < sint (memory_operations t)
        then bind_res (free_memory_event pool t) (\<lambda>s. Inr (upd s)) else Inr t) = Inr t'
     \<and> balanced t t' \<and> same_alloc t t' \<and> events_ok b t'
     \<and> (quiet (Suc b) s \<longrightarrow> pools t' = pools s \<and> quiet b t')"
proof (cases "quiet (Suc b) s")
  case True
  then have "\<not> (kinit2_called t = 1 \<and> 500 < sint (memory_operations t)) \<and> quiet b t"
    using sint_succ [of "memory_operations s"] by (auto simp: quiet_def t)
  then show ?thesis using quiet_events_ok [of b t] t(1) by (intro exI [of _ t]) (auto simp: same_alloc_def)
next
  case False
  with ev obtain sts where sts: "accum_rep sts t" "pools_free t"
    "\<And>i. i < MAX_POOLS \<Longrightarrow> length (sts ! i) + 6 * Suc b + 34 < 2 ^ 31"
    by (auto simp: events_ok_def quiet_def t rep_pools_cong [OF t(1)])
  have room: "\<forall>i < MAX_POOLS. length (sts ! i) + 34 < 2 ^ 31" using sts(3) by fastforce
  obtain t' sts' where t': "free_memory_event pool t = Inr t'" "balanced t t'"
    "ent_st.more t' = ent_st.more t" "accum_rep sts' t'" "pools_free t'"
    "\<And>i. i < MAX_POOLS \<Longrightarrow> length (sts' ! i) \<le> length (sts ! i) + 6"
    using free_memory_event_ok [OF fl ok sts(1,2) room, of pool] by blast
  have "length (sts' ! i) + 6 * b + 34 < 2 ^ 31" if "i < MAX_POOLS" for i
    using sts(3) [OF that] t'(6) [OF that] by simp
  then have "events_ok b (upd t')"
    using t'(4,5) rep_pools_cong [OF upd(3)] unfolding events_ok_def by blast
  moreover have "same_alloc t (upd t')"
    using same_alloc_more [OF t'(3)] upd(2) [of t'] by (simp add: same_alloc_def)
  moreover have "events_ok b t"
  proof -
    have "\<forall>i < MAX_POOLS. length (sts ! i) + 6 * b + 34 < 2 ^ 31" using sts(3) by fastforce
    with sts(1,2) show ?thesis unfolding events_ok_def by blast
  qed
  ultimately show ?thesis
    using t'(1,2) balanced_trans [OF t'(2) upd(1)] False by (auto simp: same_alloc_def)
qed

text \<open>The allocator's critical section, entered only once \<open>use_lock\<close> is set.\<close>

definition enter :: "'a kmem_st_scheme \<Rightarrow> 'a kmem_st_scheme" where
  "enter s = (if use_lock s \<noteq> 0 then (pushcli s)\<lparr>kmem_lock := taken s (kmem_lock s)\<rparr> else s)"

lemma kmem_pushcli [simp]:
  "mem (pushcli s) = mem s" "freelist (pushcli s) = freelist s" "kmem_lock (pushcli s) = kmem_lock s"
  "use_lock (pushcli s) = use_lock s" "kinit2_called (pushcli s) = kinit2_called s"
  "memory_operations (pushcli s) = memory_operations s" "kend (pushcli s) = kend s"
  "kmem_st.more (pushcli s) = kmem_st.more s" "kfree_pool (pushcli s) = kfree_pool s"
  "kalloc_pool (pushcli s) = kalloc_pool s"
  by (simp_all add: cli_defs)

lemma kmem_leave [simp]:
  "mem (leave s t) = mem t" "freelist (leave s t) = freelist t" "kmem_lock (leave s t) = kmem_lock t"
  "use_lock (leave s t) = use_lock t" "kinit2_called (leave s t) = kinit2_called t"
  "memory_operations (leave s t) = memory_operations t" "kend (leave s t) = kend t"
  "kmem_st.more (leave s t) = kmem_st.more t"
  by (simp_all add: leave_def)

lemma enter_simps [simp]:
  "mem (enter s) = mem s" "freelist (enter s) = freelist s" "use_lock (enter s) = use_lock s"
  "kinit2_called (enter s) = kinit2_called s" "memory_operations (enter s) = memory_operations s"
  "kend (enter s) = kend s" "kmem_st.more (enter s) = kmem_st.more s" "pools (enter s) = pools s"
  by (simp_all add: enter_def)

lemma kmem_acquire_ok: "locked (kmem_lock s) = 0 \<Longrightarrow> kmem_acquire s = Inr (enter s)"
  by (simp add: kmem_acquire_def enter_def acquire_free)

lemma cpu_ok_enter: "cpu_room 2 s \<Longrightarrow> cpu_ok (enter s)"
  using cpu_room_pushcli [of 1 s] by (auto simp: enter_def cpu_room_def numeral_2_eq_2 cpu_ok_def)

lemma kmem_release_ok:
  assumes "cpu_room 2 s" and "balanced (enter s) t" and "use_lock t = use_lock s"
    and "kmem_lock t = kmem_lock (enter s)" and "locked (kmem_lock s) = 0"
  shows "\<exists>u. kmem_release t = Inr u \<and> balanced s u \<and> locked (kmem_lock u) = 0
     \<and> pools u = pools t \<and> same_alloc (t\<lparr>kmem_lock := kmem_lock u\<rparr>) u
     \<and> memory_operations u = memory_operations t"
proof (cases "use_lock s = 0")
  case True
  then show ?thesis using assms by (simp add: kmem_release_def enter_def same_alloc_def)
next
  case False
  then have b: "balanced (pushcli s) t" using assms(2) by (simp add: enter_def balanced_def)
  have "locked (kmem_lock t) \<noteq> 0" "lcpu (kmem_lock t) = Some (cpuid s)"
    using assms(4) False by (simp_all add: enter_def)
  from release_taken [OF cpu_room_ok [OF assms(1)] b this] False assms(3)
  have "kmem_release t = Inr (leave s t\<lparr>kmem_lock := freed (kmem_lock t)\<rparr>)"
    by (simp add: kmem_release_def)
  then show ?thesis
    using balanced_leave [OF cpu_room_ok [OF assms(1)] b] by (simp add: same_alloc_def balanced_def)
qed


section \<open>Allocation and release of a page\<close>

lemma kalloc_call:
  fixes s :: "'a kmem_st_scheme"
  assumes inv: "kinv (Suc b) ps s"
  shows "\<exists>s'. kalloc s = Inr (case ps of [] \<Rightarrow> 0 | p # _ \<Rightarrow> p, s') \<and> kinv b (tl ps) s'
     \<and> mem s' = mem s \<and> kframe s s' \<and> (quiet (Suc b) s \<longrightarrow> pools s' = pools s \<and> quiet b s')"
proof -
  define s1 where "s1 = s\<lparr>memory_operations := memory_operations s + 1\<rparr>"
  define t where "t = (if freelist s \<noteq> 0 then (enter s1)\<lparr>freelist := load32 (mem s) (freelist s)\<rparr> else enter s1)"
  have rep: "flist (mem s) (freelist s) ps" "distinct ps" "\<forall>p \<in> set ps. page_ok (kend s) p"
    and cpu: "cpu_room 2 s1" and lk: "locked (kmem_lock s1) = 0" and ev: "events_ok (Suc b) s"
    using inv by (auto simp: kinv_def alloc_rep_def s1_def cpu_room_def cpu_ok_def)
  have t: "mem t = mem s" "pools t = pools s" "kinit2_called t = kinit2_called s" "kend t = kend s"
    "memory_operations t = memory_operations s + 1" "use_lock t = use_lock s1"
    "kmem_lock t = kmem_lock (enter s1)" "kmem_st.more t = kmem_st.more s" "balanced (enter s1) t"
    by (simp_all add: t_def s1_def balanced_def)
  have fl: "flist (mem t) (freelist t) (tl ps)"
    using rep(1) by (cases ps) (auto simp: t_def s1_def)
  have ok: "cpu_ok t" using cpu_ok_enter [OF cpu] cpu_ok_balanced [OF t(9)] by simp
  obtain t' where t': "(if kinit2_called t = 1 \<and> 500 < sint (memory_operations t)
        then bind_res (free_memory_event (kalloc_pool t) t)
          (\<lambda>s. Inr (s\<lparr>kalloc_pool := kalloc_pool s + 1, memory_operations := 0\<rparr>)) else Inr t) = Inr t'"
      "balanced t t'" "same_alloc t t'" "events_ok b t'" "quiet (Suc b) s \<longrightarrow> pools t' = pools s \<and> quiet b t'"
    using event_step_ok [OF fl ok ev t(2,3,5),
        of "\<lambda>s. s\<lparr>kalloc_pool := kalloc_pool s + 1, memory_operations := 0\<rparr>" "kalloc_pool t"]
    by (auto simp: balanced_def same_alloc_def)
  have sa: "use_lock t' = use_lock s1" "kmem_lock t' = kmem_lock (enter s1)"
    using t'(3) t(6,7) by (simp_all add: same_alloc_def)
  obtain u where u: "kmem_release t' = Inr u" "balanced s1 u" "locked (kmem_lock u) = 0" "pools u = pools t'"
      "same_alloc (t'\<lparr>kmem_lock := kmem_lock u\<rparr>) u" "memory_operations u = memory_operations t'"
    using kmem_release_ok [OF cpu balanced_trans [OF t(9) t'(2)] sa lk] by blast
  have fs: "freelist (enter s1) = freelist s" "mem (enter s1) = mem s" by (simp_all add: s1_def)
  have eq: "kalloc s = Inr (freelist s, u)"
    unfolding kalloc_def Let_def s1_def [symmetric] kmem_acquire_ok [OF lk] bind_res_Inr fs
      t_def [symmetric] t'(1) u(1) ..
  have "events_ok b u"
    using t'(4) u(4-6) by (simp add: events_ok_def same_alloc_def rep_pools_cong [OF u(4)])
  moreover have "alloc_rep (tl ps) u"
    using fl rep t(1,4) t'(3) u(5) by (cases ps) (auto simp: alloc_rep_def same_alloc_def)
  moreover have "balanced s u" using u(2) by (simp add: balanced_def s1_def)
  moreover from this have "cpu_room 2 u" using inv by (simp add: cpu_room_balanced kinv_def)
  moreover have "mem u = mem s" "use_lock u = use_lock s" "kinit2_called u = kinit2_called s"
    "kend u = kend s" "kmem_st.more u = kmem_st.more s"
    using u(5) t'(3) t by (simp_all add: same_alloc_def s1_def)
  moreover have "quiet (Suc b) s \<longrightarrow> pools u = pools s \<and> quiet b u"
    using t'(3,5) u(4-6) by (auto simp: quiet_def same_alloc_def)
  ultimately have "kinv b (tl ps) u \<and> mem u = mem s \<and> kframe s u
      \<and> (quiet (Suc b) s \<longrightarrow> pools u = pools s \<and> quiet b u)"
    using u(3) by (simp add: kinv_def kframe_def)
  moreover have "freelist s = (case ps of [] \<Rightarrow> 0 | p # _ \<Rightarrow> p)" using rep(1) by (cases ps) auto
  ultimately show ?thesis using eq by auto
qed

lemma kalloc_ok:
  fixes s :: "'a kmem_st_scheme"
  assumes inv: "kinv (Suc b) ps s"
  shows "\<exists>s'. kalloc s = Inr (case ps of [] \<Rightarrow> 0 | p # _ \<Rightarrow> p, s') \<and> kinv b (tl ps) s'
     \<and> mem s' = mem s \<and> kframe s s'"
  using kalloc_call [OF assms] by blast

lemma kfree_bad: "\<not> page_ok (kend s) v \<Longrightarrow> kfree v s = Inl (Panic ''kfree'')"
  by (simp add: kfree_def page_ok_def Let_def not_le not_less)

text \<open>Pushing page \<open>v\<close>, once its contents are overwritten, on the list in memory.\<close>

lemma flist_push:
  assumes "flist m p ps" "\<forall>q \<in> set ps. page_ok e q" "page_ok e v" "v \<notin> set ps"
  shows "flist (store32 (memset m v 1 (of_nat PGSIZE)) v p) v (v # ps)"
    and "\<not> in_range v 4096 x \<Longrightarrow> store32 (memset m v 1 (of_nat PGSIZE)) v p x = m x"
proof -
  let ?m = "store32 (memset m v 1 (of_nat PGSIZE)) v p"
  have frame: "?m x = m x" if "\<not> in_range v 4096 x" for x
  proof -
    have "\<not> in_range v 4 x" using that in_range_mono [of v 4 x 4096] by auto
    with that show ?thesis by (simp add: store32_def store_bytes_out memset_eq PGSIZE_def)
  qed
  have far: "m x = ?m x" if "q \<in> set ps" "in_range q 4 x" for q x
  proof -
    have "in_range q 4096 x" using that(2) by (rule in_range_mono) simp
    then have "\<not> in_range v 4096 x"
      using page_ok_disjoint [of e q v x] assms(2-4) that(1) by blast
    then show ?thesis by (simp add: frame)
  qed
  have "flist ?m p ps" using assms(1) far by (subst flist_cong [of ps ?m m p]) auto
  then show "flist ?m v (v # ps)"
    using page_ok_nonzero [OF assms(3)] by (simp add: load32_store32)
  show "\<not> in_range v 4096 x \<Longrightarrow> ?m x = m x" by (rule frame)
qed

lemma kfree_call:
  fixes s :: "'a kmem_st_scheme"
  assumes inv: "kinv (Suc b) ps s" and v: "page_ok (kend s) v" "v \<notin> set ps"
  shows "\<exists>s'. kfree v s = Inr s' \<and> kinv b (v # ps) s'
     \<and> (\<forall>x. \<not> in_range v 4096 x \<longrightarrow> mem s' x = mem s x) \<and> kframe s s'
     \<and> (quiet (Suc b) s \<longrightarrow> pools s' = pools s \<and> quiet b s')"
proof -
  define s1 where "s1 = s\<lparr>memory_operations := memory_operations s + 1, mem := memset (mem s) v 1 (of_nat PGSIZE)\<rparr>"
  define m where "m = store32 (memset (mem s) v 1 (of_nat PGSIZE)) v (freelist s)"
  define t where "t = (enter s1)\<lparr>mem := m, freelist := v\<rparr>"
  have rep: "flist (mem s) (freelist s) ps" "distinct ps" "\<forall>p \<in> set ps. page_ok (kend s) p"
    and cpu: "cpu_room 2 s1" and lk: "locked (kmem_lock s1) = 0" and ev: "events_ok (Suc b) s"
    using inv by (auto simp: kinv_def alloc_rep_def s1_def cpu_room_def cpu_ok_def)
  have t: "mem t = m" "pools t = pools s" "kinit2_called t = kinit2_called s" "kend t = kend s"
    "memory_operations t = memory_operations s + 1" "use_lock t = use_lock s1"
    "kmem_lock t = kmem_lock (enter s1)" "kmem_st.more t = kmem_st.more s" "balanced (enter s1) t"
    by (simp_all add: t_def s1_def balanced_def)
  have fl: "flist (mem t) (freelist t) (v # ps)"
    using flist_push(1) [OF rep(1,3) v] by (simp add: t_def m_def)
  have ok: "cpu_ok t" using cpu_ok_enter [OF cpu] cpu_ok_balanced [OF t(9)] by simp
  obtain t' where t': "(if kinit2_called t = 1 \<and> 500 < sint (memory_operations t)
        then bind_res (free_memory_event (kfree_pool t) t)
          (\<lambda>s. Inr (s\<lparr>kfree_pool := kfree_pool s + 1, memory_operations := 0\<rparr>)) else Inr t) = Inr t'"
      "balanced t t'" "same_alloc t t'" "events_ok b t'" "quiet (Suc b) s \<longrightarrow> pools t' = pools s \<and> quiet b t'"
    using event_step_ok [OF fl ok ev t(2,3,5),
        of "\<lambda>s. s\<lparr>kfree_pool := kfree_pool s + 1, memory_operations := 0\<rparr>" "kfree_pool t"]
    by (auto simp: balanced_def same_alloc_def)
  have sa: "use_lock t' = use_lock s1" "kmem_lock t' = kmem_lock (enter s1)"
    using t'(3) t(6,7) by (simp_all add: same_alloc_def)
  obtain u where u: "kmem_release t' = Inr u" "balanced s1 u" "locked (kmem_lock u) = 0" "pools u = pools t'"
      "same_alloc (t'\<lparr>kmem_lock := kmem_lock u\<rparr>) u" "memory_operations u = memory_operations t'"
    using kmem_release_ok [OF cpu balanced_trans [OF t(9) t'(2)] sa lk] by blast
  have fs: "store32 (mem (enter s1)) v (freelist (enter s1)) = m" by (simp add: s1_def m_def)
  have guard: "\<not> (v mod of_nat PGSIZE \<noteq> 0 \<or> v < kend s \<or> PHYSTOP \<le> V2P v)" using v(1) by (auto simp: page_ok_def)
  have s1: "kend (s\<lparr>memory_operations := memory_operations s + 1\<rparr>) = kend s"
    "s\<lparr>memory_operations := memory_operations s + 1,
       mem := memset (mem (s\<lparr>memory_operations := memory_operations s + 1\<rparr>)) v 1 (of_nat PGSIZE)\<rparr> = s1"
    by (simp_all add: s1_def)
  have eq: "kfree v s = Inr u"
    unfolding kfree_def Let_def s1 if_not_P [OF guard] kmem_acquire_ok [OF lk] bind_res_Inr fs
      t_def [symmetric] t'(1) u(1) ..
  have "events_ok b u"
    using t'(4) u(4-6) by (simp add: events_ok_def same_alloc_def rep_pools_cong [OF u(4)])
  moreover have "alloc_rep (v # ps) u"
    using fl rep(2,3) v t(1,4) t'(3) u(5) by (auto simp: alloc_rep_def same_alloc_def)
  moreover have b: "balanced s u" using u(2) by (simp add: balanced_def s1_def)
  moreover from this have "cpu_room 2 u" using inv by (simp add: cpu_room_balanced kinv_def)
  moreover have "mem u = m" "use_lock u = use_lock s" "kinit2_called u = kinit2_called s"
    "kend u = kend s" "kmem_st.more u = kmem_st.more s"
    using u(5) t'(3) t by (simp_all add: same_alloc_def s1_def)
  moreover have "quiet (Suc b) s \<longrightarrow> pools u = pools s \<and> quiet b u"
    using t'(3,5) u(4-6) by (auto simp: quiet_def same_alloc_def)
  ultimately show ?thesis
    using u(3) eq flist_push(2) [OF rep(1,3) v] by (simp add: kinv_def kframe_def m_def)
qed

lemma kfree_ok:
  fixes s :: "'a kmem_st_scheme"
  assumes inv: "kinv (Suc b) ps s" and v: "page_ok (kend s) v" "v \<notin> set ps"
  shows "\<exists>s'. kfree v s = Inr s' \<and> kinv b (v # ps) s'
     \<and> (\<forall>x. \<not> in_range v 4096 x \<longrightarrow> mem s' x = mem s x) \<and> kframe s s'"
  using kfree_call [OF assms] by blast


section \<open>The interface other components use\<close>

text \<open>
  A page allocator, as its clients see it: \<open>inv b ps s\<close> says that the free pages are the
  stack \<open>ps\<close> and that \<open>b\<close> more calls are provided for; \<open>rest s t\<close> that \<open>t\<close> differs from
  \<open>s\<close> only in memory and the allocator's own data.
\<close>

locale page_allocator =
  fixes alloc :: "'s \<Rightarrow> (u32 \<times> 's) res" and free :: "u32 \<Rightarrow> 's \<Rightarrow> 's res"
    and inv :: "nat \<Rightarrow> u32 list \<Rightarrow> 's \<Rightarrow> bool"
    and get_mem :: "'s \<Rightarrow> memory" and put_mem :: "memory \<Rightarrow> 's \<Rightarrow> 's"
    and page :: "'s \<Rightarrow> u32 \<Rightarrow> bool" and rest :: "'s \<Rightarrow> 's \<Rightarrow> bool"
  assumes alloc_law: "inv (Suc b) ps s \<Longrightarrow>
      \<exists>t. alloc s = Inr (case ps of [] \<Rightarrow> 0 | p # _ \<Rightarrow> p, t) \<and> inv b (tl ps) t
        \<and> get_mem t = get_mem s \<and> rest s t"
    and free_law: "inv (Suc b) ps s \<Longrightarrow> page s v \<Longrightarrow> v \<notin> set ps \<Longrightarrow>
      \<exists>t. free v s = Inr t \<and> inv b (v # ps) t
        \<and> (\<forall>x. \<not> in_range v 4096 x \<longrightarrow> get_mem t x = get_mem s x) \<and> rest s t"
    and put_law: "inv b ps s \<Longrightarrow> (\<forall>q \<in> set ps. \<forall>x. in_range q 4096 x \<longrightarrow> m x = get_mem s x) \<Longrightarrow>
      inv b ps (put_mem m s)"
    and get_put: "get_mem (put_mem m s) = m"
    and rest_put: "rest s (put_mem m s)"
    and rest_trans: "rest s t \<Longrightarrow> rest t u \<Longrightarrow> rest s u"
    and rest_page: "rest s t \<Longrightarrow> page t = page s"
    and inv_page: "inv b ps s \<Longrightarrow> p \<in> set ps \<Longrightarrow> page s p"
    and inv_distinct: "inv b ps s \<Longrightarrow> distinct ps"
    and page_nonzero: "page s p \<Longrightarrow> p \<noteq> 0"
    and page_apart: "page s p \<Longrightarrow> page s q \<Longrightarrow> p \<noteq> q \<Longrightarrow> in_range p 4096 x \<Longrightarrow> \<not> in_range q 4096 x"
begin

text \<open>Taking the top page of a nonempty free list.\<close>

lemma alloc_Cons:
  assumes "inv (Suc b) (p # ps) s"
  shows "\<exists>t. alloc s = Inr (p, t) \<and> inv b ps t \<and> get_mem t = get_mem s \<and> rest s t
     \<and> page t p \<and> p \<noteq> 0 \<and> p \<notin> set ps"
proof -
  obtain t where "alloc s = Inr (p, t)" "inv b ps t" "get_mem t = get_mem s" "rest s t"
    using alloc_law [OF assms] by auto
  moreover have "page s p" "distinct (p # ps)" using inv_page [OF assms] inv_distinct [OF assms] by simp_all
  ultimately show ?thesis using page_nonzero rest_page by fastforce
qed

text \<open>A client that owns page \<open>p\<close> may write to it.\<close>

lemma put_owned:
  assumes "inv b ps s" and "page s p" and "p \<notin> set ps"
    and "\<And>x. \<not> in_range p 4096 x \<Longrightarrow> m x = get_mem s x"
  shows "inv b ps (put_mem m s)"
proof (rule put_law [OF assms(1)], intro ballI allI impI)
  fix q x
  assume q: "q \<in> set ps" "in_range q 4096 x"
  then have "page s q" "q \<noteq> p" using inv_page [OF assms(1)] assms(3) by auto
  with q(2) assms(2) have "\<not> in_range p 4096 x" using page_apart by blast
  then show "m x = get_mem s x" by (rule assms(4))
qed

text \<open>
  Allocating a page, writing only to it, and freeing it: the calls succeed, the free list is
  what it was, and memory outside the page is untouched.
\<close>

lemma scratch_page:
  assumes "inv (Suc (Suc b)) (p # ps) s"
  shows "\<exists>t. alloc s = Inr (p, t) \<and> get_mem t = get_mem s \<and> rest s t
     \<and> (\<forall>m. (\<forall>x. \<not> in_range p 4096 x \<longrightarrow> m x = get_mem t x) \<longrightarrow>
          (\<exists>u. free p (put_mem m t) = Inr u \<and> inv b (p # ps) u \<and> rest s u
            \<and> (\<forall>x. \<not> in_range p 4096 x \<longrightarrow> get_mem u x = get_mem s x)))"
proof -
  obtain t where t: "alloc s = Inr (p, t)" "inv (Suc b) ps t" "get_mem t = get_mem s" "rest s t"
    "page t p" "p \<notin> set ps"
    using alloc_Cons [OF assms] by auto
  have "\<exists>u. free p (put_mem m t) = Inr u \<and> inv b (p # ps) u \<and> rest s u
      \<and> (\<forall>x. \<not> in_range p 4096 x \<longrightarrow> get_mem u x = get_mem s x)"
    if m: "\<forall>x. \<not> in_range p 4096 x \<longrightarrow> m x = get_mem t x" for m
  proof -
    have "inv (Suc b) ps (put_mem m t)" by (rule put_owned [OF t(2,5,6)]) (use m in blast)
    moreover have "page (put_mem m t) p" using t(5) rest_page [OF rest_put [of t m]] by simp
    ultimately obtain u where u: "free p (put_mem m t) = Inr u" "inv b (p # ps) u"
      "\<forall>x. \<not> in_range p 4096 x \<longrightarrow> get_mem u x = m x" "rest (put_mem m t) u"
      using free_law [of b ps "put_mem m t" p] t(6) get_put by auto
    have "rest s u" using rest_trans [OF t(4) rest_trans [OF rest_put u(4)]] .
    with u m t(3) show ?thesis by auto
  qed
  with t show ?thesis by blast
qed

end

lemma kinv_put:
  assumes "kinv b ps s" and "\<forall>q \<in> set ps. \<forall>x. in_range q 4096 x \<longrightarrow> m x = mem s x"
  shows "kinv b ps (s\<lparr>mem := m\<rparr>)"
proof -
  have "flist m (freelist s) ps = flist (mem s) (freelist s) ps"
    using assms(2) in_range_mono [of _ 4 _ 4096] by (intro flist_cong) fastforce
  with assms(1) show ?thesis
    by (simp add: kinv_def alloc_rep_def events_ok_def cpu_room_def cpu_ok_def
        rep_pools_cong [of "s\<lparr>mem := m\<rparr>" s])
qed

interpretation kmem: page_allocator kalloc kfree kinv mem "\<lambda>m s. s\<lparr>mem := m\<rparr>"
  "\<lambda>s. page_ok (kend s)" kframe
proof unfold_locales
  fix b ps p and s :: "'a kmem_st_scheme"
  show "kinv b ps s \<Longrightarrow> p \<in> set ps \<Longrightarrow> page_ok (kend s) p" "kinv b ps s \<Longrightarrow> distinct ps"
    by (simp_all add: kinv_def alloc_rep_def)
qed (use kalloc_ok kfree_ok kinv_put kframe_trans page_ok_nonzero page_ok_disjoint in
    \<open>(blast | simp add: kframe_def balanced_def)+\<close>)


section \<open>Freeing a range at boot\<close>

text \<open>\<open>PGROUNDUP\<close> and \<open>PGROUNDDOWN\<close> round to multiples of the page size.\<close>

lemma page_mask: "a AND - 4096 = push_bit 12 (drop_bit 12 (a :: u32))"
proof -
  have m: "(- 4096 :: u32) = NOT (mask 12)" by (simp add: mask_eq_exp_minus_1)
  show ?thesis unfolding m by (rule bit_word_eqI) (auto simp: bit_simps)
qed
lemma unat_page_mask: "unat (a AND - 4096 :: u32) = unat a div 4096 * 4096"
proof -
  have "unat (a div 4096 * 4096) = unat a div 4096 * 4096"
    using unat_less_exp32 [of a] div_times_less_eq_dividend [of "unat a" 4096]
    by (simp add: unat_word_ariths unat_div)
  then show ?thesis by (simp add: page_mask push_bit_eq_mult drop_bit_eq_div)
qed

lemma unat_PGROUNDDOWN: "unat (PGROUNDDOWN a) = unat a div 4096 * 4096"
  by (simp add: PGROUNDDOWN_def PGSIZE_def unat_page_mask)

lemma unat_PGROUNDUP: "unat a + 4095 < 2 ^ 32 \<Longrightarrow> unat (PGROUNDUP a) = (unat a + 4095) div 4096 * 4096"
  by (simp add: PGROUNDUP_def PGSIZE_def unat_page_mask unat_word_ariths)

text \<open>The \<open>n\<close> consecutive pages from \<open>p\<close>.\<close>

definition pages_from :: "u32 \<Rightarrow> nat \<Rightarrow> u32 list" where
  "pages_from p n = map (\<lambda>i. p + of_nat (4096 * i)) [0..<n]"

lemma pages_from_Suc: "pages_from p (Suc n) = p # pages_from (p + of_nat PGSIZE) n"
  by (simp add: pages_from_def upt_conv_Cons map_Suc_upt [symmetric] PGSIZE_def algebra_simps del: upt_Suc)

lemma freerange_loop_ok:
  assumes "kinv (b + n) ps s" and "\<forall>q \<in> set (pages_from p n). page_ok (kend s) q \<and> q \<notin> set ps"
    and "unat p + 4096 * n \<le> unat vend" and "unat vend < unat p + 4096 * Suc n"
    and "unat p + 4096 * Suc n < 2 ^ 32"
  shows "\<exists>s'. freerange_loop p vend s = Inr s' \<and> kinv b (rev (pages_from p n) @ ps) s' \<and> kframe s s'"
  using assms
proof (induction n arbitrary: p ps s)
  case 0
  have "\<not> p + of_nat PGSIZE \<le> vend"
    using 0(3-5) by (simp add: word_le_nat_alt PGSIZE_def unat_word_ariths)
  with 0 show ?case by (auto simp: freerange_loop.simps pages_from_def)
next
  case (Suc n)
  let ?q = "p + of_nat PGSIZE"
  have q: "unat ?q = unat p + 4096" using Suc.prems(5) by (simp add: PGSIZE_def unat_word_ariths)
  have le: "?q \<le> vend" using Suc.prems(3) q by (simp add: word_le_nat_alt)
  have p: "page_ok (kend s) p" "p \<notin> set ps" using Suc.prems(2) by (simp_all add: pages_from_Suc)
  obtain t where t: "kfree p s = Inr t" "kinv (b + n) (p # ps) t" "kframe s t"
    using kfree_ok [of "b + n" ps s p] Suc.prems(1) p by auto
  have "p \<notin> set (pages_from ?q n)"
  proof
    assume "p \<in> set (pages_from ?q n)"
    then obtain i where i: "i < n" "p = ?q + of_nat (4096 * i)" by (auto simp: pages_from_def)
    then have "unat p = unat ?q + 4096 * i"
      using Suc.prems(5) q by (subst i(2)) (simp add: unat_word_ariths unat_of_nat)
    with q show False by simp
  qed
  then have pages: "\<forall>r \<in> set (pages_from ?q n). page_ok (kend t) r \<and> r \<notin> set (p # ps)"
    using Suc.prems(2) t(3) by (auto simp: pages_from_Suc kframe_def)
  obtain u where "freerange_loop ?q vend t = Inr u" "kinv b (rev (pages_from ?q n) @ p # ps) u" "kframe t u"
    using Suc.IH [OF t(2) pages] Suc.prems(3-5) q by auto
  with t le show ?case
    by (subst freerange_loop.simps) (auto simp: pages_from_Suc intro: kframe_trans)
qed

lemma pages_from_ok:
  assumes "page_aligned p" and "e \<le> p" and "unat KERNBASE \<le> unat p"
    and "unat p + 4096 * n \<le> unat KERNBASE + unat PHYSTOP"
  shows "\<forall>q \<in> set (pages_from p n). page_ok e q"
proof
  fix q
  assume "q \<in> set (pages_from p n)"
  then obtain i where i: "i < n" and q: "q = p + of_nat (4096 * i)" by (auto simp: pages_from_def)
  have "4096 * i + 4096 \<le> 4096 * n" using i by simp
  then have lim: "unat p + 4096 * i + 4096 \<le> unat KERNBASE + unat PHYSTOP" using assms(4) by linarith
  then have uq: "unat q = unat p + 4096 * i"
    unfolding q by (simp add: unat_word_ariths unat_of_nat KERNBASE_def PHYSTOP_def)
  have "unat (q mod 4096) = 0" using uq assms(1) by (simp add: unat_mod)
  then have "q mod of_nat PGSIZE = 0" by (simp add: PGSIZE_def unat_eq_zero)
  moreover have "e \<le> q" using assms(2) uq by (simp add: word_le_nat_alt)
  moreover have "unat (V2P q) = unat q - unat KERNBASE"
    unfolding V2P_def using uq assms(3) by (intro unat_sub) (simp add: word_le_nat_alt)
  then have "V2P q < PHYSTOP" using lim uq assms(3) unfolding word_less_nat_alt by linarith
  ultimately show "page_ok e q" by (simp add: page_ok_def)
qed

lemma PGROUNDUP_kernel:
  assumes "V2P a < PHYSTOP"
  shows "page_aligned (PGROUNDUP a)" and "a \<le> PGROUNDUP a" and "unat KERNBASE \<le> unat (PGROUNDUP a)"
proof -
  have u: "unat (PGROUNDUP a) = (unat a + 4095) div 4096 * 4096"
    using V2P_bounds [OF assms] by (intro unat_PGROUNDUP) simp
  then show al: "page_aligned (PGROUNDUP a)" by simp
  have "unat a \<le> unat (PGROUNDUP a)" unfolding u by (simp add: algebra_simps)
  then show "a \<le> PGROUNDUP a" "unat KERNBASE \<le> unat (PGROUNDUP a)"
    using V2P_bounds [OF assms] by (simp_all add: word_le_nat_alt)
qed

text \<open>A small allocator state: one free page at \<open>0x80400000\<close>.\<close>

definition one_page :: kmem_st where
  "one_page = ent_st.extend zero_ent (kmem_st.fields (\<lambda>_. 0) zero_lock 1 0x80400000 1 0 0 0 0x80110000)"

lemma one_page_facts:
  "kinv 2 [0x80400000] one_page" "kend one_page = 0x80110000" "freelist one_page = 0x80400000"
  by (simp_all add: one_page_def ent_st.defs kmem_st.defs kinv_def alloc_rep_def zero_ent_def events_ok_def
      cpu_room_def cpu_ok_def page_ok_def PGSIZE_def V2P_def KERNBASE_def PHYSTOP_def zero_lock_def
      load32_def u32_of_bytes_def)


section \<open>Properties\<close>

text \<open>
  C7: \<open>kalloc\<close> pops the stack of free pages and \<open>kfree\<close> pushes on it. \<open>kalloc\<close> returns the
  most recently freed page, or 0 when there is none, and leaves memory alone; \<open>kfree\<close> of a
  page that is not already free succeeds and changes memory only inside that page. Both keep
  the invariant (the list in memory is acyclic, its pages are distinct, aligned and in range,
  the allocator's lock is free, the interrupt state restored), also when they record an
  entropy event.
\<close>

theorem page_allocator_stack:
  assumes "kinv (Suc b) ps s"
  shows "(\<exists>t. kalloc s = Inr (case ps of [] \<Rightarrow> 0 | p # _ \<Rightarrow> p, t) \<and> kinv b (tl ps) t \<and> mem t = mem s
        \<and> kframe s t)
   \<and> (page_ok (kend s) v \<and> v \<notin> set ps \<longrightarrow>
        (\<exists>t. kfree v s = Inr t \<and> kinv b (v # ps) t \<and> kframe s t
          \<and> (\<forall>x. \<not> in_range v 4096 x \<longrightarrow> mem t x = mem s x)))"
  using kmem.alloc_law [OF assms] kmem.free_law [OF assms, of v] by blast

theorem page_allocator_stack_witness:
  "\<exists>t. kalloc one_page = Inr (0x80400000, t) \<and> kinv 1 [] t"
  using page_allocator_stack [of 1 "[0x80400000]" one_page 0] one_page_facts
  by (auto simp: numeral_2_eq_2)

text \<open>
  C25: a page taken from the allocator, written to and given back: the calls succeed, the free
  list is what it was before, and no byte outside the page has changed.
\<close>

theorem kalloc_kfree_scratch:
  assumes "kinv (Suc (Suc b)) (p # ps) s"
  shows "\<exists>t. kalloc s = Inr (p, t) \<and> mem t = mem s \<and> kframe s t
     \<and> (\<forall>m. (\<forall>x. \<not> in_range p 4096 x \<longrightarrow> m x = mem t x) \<longrightarrow>
          (\<exists>u. kfree p (t\<lparr>mem := m\<rparr>) = Inr u \<and> kinv b (p # ps) u \<and> kframe s u
            \<and> (\<forall>x. \<not> in_range p 4096 x \<longrightarrow> mem u x = mem s x)))"
  by (rule kmem.scratch_page [OF assms])

theorem kalloc_kfree_scratch_witness:
  "\<exists>t u. kalloc one_page = Inr (0x80400000, t) \<and> kfree 0x80400000 t = Inr u \<and> kinv 0 [0x80400000] u"
proof -
  have inv: "kinv (Suc (Suc 0)) [0x80400000] one_page" using one_page_facts(1) by (simp add: numeral_2_eq_2)
  obtain t where t: "kalloc one_page = Inr (0x80400000, t)"
    and "\<forall>m. (\<forall>x. \<not> in_range 0x80400000 4096 x \<longrightarrow> m x = mem t x) \<longrightarrow>
      (\<exists>u. kfree 0x80400000 (t\<lparr>mem := m\<rparr>) = Inr u \<and> kinv 0 [0x80400000] u)"
    using kalloc_kfree_scratch [OF inv] by metis
  from this(2) [THEN spec, of "mem t"] t show ?thesis by auto
qed

text \<open>
  C33: \<open>kinit1\<close> terminates and puts on the empty free list exactly the whole pages between
  \<open>vstart\<close> and \<open>vend\<close>, the last one on top.
\<close>

theorem kinit1_frees_range:
  assumes "freelist s = 0" and "kinit2_called s = 0" and "cpu_room 2 s"
    and "p = PGROUNDUP vstart" and "kend s \<le> vstart" and "V2P vstart < PHYSTOP"
    and "unat p + 4096 * n \<le> unat vend" and "unat vend < unat p + 4096 * Suc n"
    and "unat vend \<le> unat KERNBASE + unat PHYSTOP"
  shows "\<exists>t. kinit1 vstart vend s = Inr t \<and> kinv b (rev (pages_from p n)) t"
proof -
  define s1 where "s1 = s\<lparr>kmem_lock := initlock ''kmem'' (kmem_lock s), use_lock := 0\<rparr>"
  have "kinv (b + n) [] s1"
    using assms(1-3) by (simp add: kinv_def alloc_rep_def events_ok_def s1_def cpu_room_def cpu_ok_def)
  moreover have "\<forall>q \<in> set (pages_from p n). page_ok (kend s1) q \<and> q \<notin> set []"
    using pages_from_ok [of p "kend s" n] PGROUNDUP_kernel [OF assms(6)] assms(4,5,7,9)
    by (auto simp: s1_def)
  moreover have "unat p + 4096 * Suc n < 2 ^ 32"
    using assms(7,9) by (simp add: KERNBASE_def PHYSTOP_def)
  ultimately show ?thesis
    using freerange_loop_ok [of b n "[]" s1 p vend] assms(4,7,8)
    by (auto simp: kinit1_def freerange_def s1_def)
qed

theorem kinit1_frees_range_witness:
  "\<exists>t. kinit1 0x80400000 0x80402000 (one_page\<lparr>freelist := 0, kinit2_called := 0\<rparr>) = Inr t
     \<and> kinv 0 [0x80401000, 0x80400000] t"
  using kinit1_frees_range [of "one_page\<lparr>freelist := 0, kinit2_called := 0\<rparr>" "0x80400000" "0x80400000" 2 "0x80402000" 0]
    one_page_facts
  by (simp add: PGROUNDUP_def PGSIZE_def V2P_def KERNBASE_def PHYSTOP_def pages_from_def kinv_def
      cpu_room_def cpu_ok_def upt_rec)

end
