(* ===== verification/Hash.thy ===== *)
theory Hash
  imports Kalloc
begin

text \<open>
  The hash of \<open>src/hash.c\<close>, which is SHA-256 in outline. The file's static arrays \<open>h\<close> and
  \<open>w\<close> are the state fields \<open>hh\<close> and \<open>ww\<close>; the message buffer is a page from \<open>kalloc\<close>, in
  memory. The \<open>data\<close> pointer is a function that reads byte \<open>i\<close> in a given memory, so that it
  can stand for an entropy pool as well as for a page; the 32 bytes stored through \<open>hash\<close> at
  the end are the result. The line that \<open>sha256\<close> prints is left out. When no page is free, \<open>kalloc\<close> answers 0 and the
  buffer is the memory at address 0, as in the code, which does not test it.

  \<open>rotright\<close> shifts left by \<open>sizeof(unsigned int) - n\<close>, which is \<open>4 - n\<close> in 32-bit unsigned
  arithmetic and so out of range for \<open>n > 4\<close>. C leaves such a shift undefined: it is the
  parameter \<open>ubshl\<close> of every definition here, and \<open>x86_shl\<close> is what the instruction does.
\<close>

section \<open>Definitions\<close>

record sha_st = kmem_st +
  hh :: "u32 list"
  ww :: "u32 list"

definition sha_k :: "u32 list" where
  "sha_k =
   [0x428a2f98, 0x71374491, 0xb5c0fbcf, 0xe9b5dba5, 0x3956c25b, 0x59f111f1, 0x923f82a4, 0xab1c5ed5] @
   [0xd807aa98, 0x12835b01, 0x243185be, 0x550c7dc3, 0x72be5d74, 0x80deb1fe, 0x9bdc06a7, 0xc19bf174] @
   [0xe49b69c1, 0xefbe4786, 0x0fc19dc6, 0x240ca1cc, 0x2de92c6f, 0x4a7484aa, 0x5cb0a9dc, 0x76f988da] @
   [0x983e5152, 0xa831c66d, 0xb00327c8, 0xbf597fc7, 0xc6e00bf3, 0xd5a79147, 0x06ca6351, 0x14292967] @
   [0x27b70a85, 0x2e1b2138, 0x4d2c6dfc, 0x53380d13, 0x650a7354, 0x766a0abb, 0x81c2c92e, 0x92722c85] @
   [0xa2bfe8a1, 0xa81a664b, 0xc24b8b70, 0xc76c51a3, 0xd192e819, 0xd6990624, 0xf40e3585, 0x106aa070] @
   [0x19a4c116, 0x1e376c08, 0x2748774c, 0x34b0bcb5, 0x391c0cb3, 0x4ed8aa4a, 0x5b9cca4f, 0x682e6ff3] @
   [0x748f82ee, 0x78a5636f, 0x84c87814, 0x8cc70208, 0x90befffa, 0xa4506ceb, 0xbef9a3f7, 0xc67178f2]"

type_synonym shift = "u32 \<Rightarrow> u32 \<Rightarrow> u32"

definition rotright :: "shift \<Rightarrow> u32 \<Rightarrow> u32 \<Rightarrow> u32" where
  "rotright ubshl a n =
     (let y = drop_bit (unat n) a;
        c = 4 - n;
        z = (if unat c < 32 then push_bit (unat c) a else ubshl a c)
      in y OR z)"

text \<open>The \<open>shl\<close> instruction uses the low five bits of the count.\<close>

definition x86_shl :: shift where
  "x86_shl a c = push_bit (unat (c AND 31)) a"

definition sha_h0 :: "u32 list" where
  "sha_h0 = [0x6a09e667, 0xbb67ae85, 0x3c6ef372, 0xa54ff53a, 0x510e527f, 0x9b05688c, 0x1f83d9ab, 0x5be0cd19]"

text \<open>\<open>char\<close> is signed: a byte with its top bit set spreads ones over the whole word.\<close>

definition data_word :: "(nat \<Rightarrow> u8) \<Rightarrow> nat \<Rightarrow> u32" where
  "data_word data i =
     scast (data (i + 3)) OR push_bit 8 (scast (data (i + 2)))
     OR push_bit 16 (scast (data (i + 1))) OR push_bit 24 (scast (data i))"

text \<open>The indices \<open>0, 4, 8, \<dots>\<close> below \<open>size\<close>.\<close>

definition word_starts :: "i32 \<Rightarrow> nat list" where
  "word_starts sz = map (\<lambda>j. 4 * j) [0..<(nat (sint sz) + 3) div 4]"

definition sha_size_msg :: string where
  "sha_size_msg = ''invalid sha256 message size'' @ [CHR 0x0A]"

definition init_sha :: "(memory \<Rightarrow> nat \<Rightarrow> u8) \<Rightarrow> i32 \<Rightarrow> u32 \<Rightarrow> 'a sha_st_scheme \<Rightarrow> (i32 \<times> 'a sha_st_scheme) res" where
  "init_sha data sz buffer s =
     (let s = s\<lparr>hh := sha_h0\<rparr>;
        l = sz;
        subbufsize = word_of_int (sint l smod 512) :: i32;
        bufsize = l + (512 - subbufsize)
      in if sint sz < 0 \<or> sint bufsize < sint sz \<or> bufsize \<ge> of_nat PGSIZE
         then Inl (Panic sha_size_msg)
         else
           (let s = s\<lparr>mem := memset (mem s) buffer bufsize 0\<rparr>;
              s = s\<lparr>mem := fold (\<lambda>i m. store32 m (buffer + 4 * of_nat (i div 4)) (data_word (data m) i))
                              (word_starts sz) (mem s)\<rparr>
            in Inr (bufsize div 4, s)))"

text \<open>One 512-bit chunk: the message schedule, and the compression rounds on the eight words.\<close>

definition schedule_step :: "shift \<Rightarrow> nat \<Rightarrow> u32 list \<Rightarrow> u32 list" where
  "schedule_step ubshl i w =
     (let s0 = rotright ubshl (w ! (i - 15)) 7 XOR rotright ubshl (w ! (i - 15)) 18 XOR drop_bit 3 (w ! (i - 15));
        s1 = rotright ubshl (w ! (i - 2)) 17 XOR rotright ubshl (w ! (i - 2)) 19 XOR drop_bit 10 (w ! (i - 2))
      in w[i := w ! (i - 16) + s0 + w ! (i - 7) + s1])"

definition schedule :: "shift \<Rightarrow> (nat \<Rightarrow> u32) \<Rightarrow> u32 list \<Rightarrow> u32 list" where
  "schedule ubshl chunk w =
     fold (schedule_step ubshl) [16..<64] (fold (\<lambda>i w. w[i := chunk i]) [0..<16] w)"

type_synonym working = "u32 \<times> u32 \<times> u32 \<times> u32 \<times> u32 \<times> u32 \<times> u32 \<times> u32"

definition sha_round :: "shift \<Rightarrow> u32 list \<Rightarrow> nat \<Rightarrow> working \<Rightarrow> working" where
  "sha_round ubshl w i v =
     (case v of (a, b, c, d, e, f, g, z) \<Rightarrow>
       let S1 = rotright ubshl e 6 XOR rotright ubshl e 11 XOR rotright ubshl e 25;
         ch = (e AND f) XOR (NOT e AND g);
         temp1 = z + S1 + ch + sha_k ! i + w ! i;
         S0 = rotright ubshl a 2 XOR rotright ubshl a 13 XOR rotright ubshl a 22;
         maj = (a AND b) XOR (a AND c) XOR (b AND c);
         temp2 = S0 + maj
       in (temp1 + temp2, a, b, c, d + temp1, e, f, g))"

definition sha_chunk :: "shift \<Rightarrow> (nat \<Rightarrow> u32) \<Rightarrow> u32 list \<times> u32 list \<Rightarrow> u32 list \<times> u32 list" where
  "sha_chunk ubshl chunk hw =
     (case hw of (h, w) \<Rightarrow>
       let w = schedule ubshl chunk w
       in case fold (sha_round ubshl w) [0..<64] (h ! 0, h ! 1, h ! 2, h ! 3, h ! 4, h ! 5, h ! 6, h ! 7)
          of (a, b, c, d, e, f, g, z) \<Rightarrow>
            ([h ! 0 + a, h ! 1 + b, h ! 2 + c, h ! 3 + d, h ! 4 + e, h ! 5 + f, h ! 6 + g, h ! 7 + z], w))"

definition sha256internal :: "shift \<Rightarrow> u32 \<Rightarrow> i32 \<Rightarrow> 'a sha_st_scheme \<Rightarrow> 'a sha_st_scheme" where
  "sha256internal ubshl buffer bufsize s =
     (let chunkinds = map (\<lambda>j. 16 * j) [0..<(nat (sint bufsize) + 15) div 16];
        hw = fold (\<lambda>chunkind. sha_chunk ubshl (\<lambda>i. load32 (mem s) (buffer + 4 * of_nat (chunkind + i))))
               chunkinds (hh s, ww s)
      in s\<lparr>hh := fst hw, ww := snd hw\<rparr>)"

definition sha256final :: "'a sha_st_scheme \<Rightarrow> u32 list" where
  "sha256final s = map (\<lambda>i. hh s ! i) [0..<8]"

definition hash_bytes :: "u32 list \<Rightarrow> u8 list" where
  "hash_bytes hashinternal =
     concat (map (\<lambda>v. [ucast (drop_bit 24 v), ucast (drop_bit 16 v), ucast (drop_bit 8 v), ucast v])
       (map (\<lambda>i. hashinternal ! i) [0..<8]))"

definition sha256 :: "shift \<Rightarrow> (memory \<Rightarrow> nat \<Rightarrow> u8) \<Rightarrow> i32 \<Rightarrow> 'a sha_st_scheme \<Rightarrow> (u8 list \<times> 'a sha_st_scheme) res" where
  "sha256 ubshl data sz s =
     bind_res (kalloc s) (\<lambda>(buffer, s).
     bind_res (init_sha data sz buffer s) (\<lambda>(bufsize, s).
     let s = sha256internal ubshl buffer bufsize s
     in Inr (hash_bytes (sha256final s), s)))"


section \<open>The message schedule\<close>

text \<open>The recurrence of the standard, with the code's \<open>rotright\<close>.\<close>

function sched_word :: "shift \<Rightarrow> (nat \<Rightarrow> u32) \<Rightarrow> nat \<Rightarrow> u32" where
  "sched_word ubshl chunk t =
     (if t < 16 then chunk t
      else
        sched_word ubshl chunk (t - 16)
        + (rotright ubshl (sched_word ubshl chunk (t - 15)) 7 XOR rotright ubshl (sched_word ubshl chunk (t - 15)) 18
           XOR drop_bit 3 (sched_word ubshl chunk (t - 15)))
        + sched_word ubshl chunk (t - 7)
        + (rotright ubshl (sched_word ubshl chunk (t - 2)) 17 XOR rotright ubshl (sched_word ubshl chunk (t - 2)) 19
           XOR drop_bit 10 (sched_word ubshl chunk (t - 2))))"
  by pat_completeness auto
termination
  by (relation "measure (\<lambda>(ubshl, chunk, t). t)") auto

declare sched_word.simps [simp del]

lemma sched_word_less: "t < 16 \<Longrightarrow> sched_word ubshl chunk t = chunk t"
  by (subst sched_word.simps) simp

lemma fold_upd_index:
  "n \<le> length w \<Longrightarrow> fold (\<lambda>i w. w[i := f i]) [0..<n] w = map f [0..<n] @ drop n w"
proof (induction n)
  case (Suc n)
  then show ?case by (simp add: list_update_append Cons_nth_drop_Suc [symmetric])
qed simp

lemma schedule_steps:
  assumes "length w = 64" "16 \<le> n" "n \<le> 64" "\<And>t. t < 16 \<Longrightarrow> w ! t = chunk t"
  shows "length (fold (schedule_step ubshl) [16..<n] w) = 64
     \<and> (\<forall>t < n. fold (schedule_step ubshl) [16..<n] w ! t = sched_word ubshl chunk t)"
  using assms(2,3)
proof (induction n rule: dec_induct)
  case base
  show ?case using assms(1,4) by (simp add: sched_word_less)
next
  case (step n)
  define w' where "w' = fold (schedule_step ubshl) [16..<n] w"
  have w': "length w' = 64" "\<And>t. t < n \<Longrightarrow> w' ! t = sched_word ubshl chunk t"
    using step.IH step.prems unfolding w'_def by simp_all
  have "schedule_step ubshl n w' = w'[n := sched_word ubshl chunk n]"
    using step.hyps w'(2) by (subst sched_word.simps) (simp add: schedule_step_def Let_def)
  moreover have "fold (schedule_step ubshl) [16..<Suc n] w = schedule_step ubshl n w'"
    using step.hyps by (simp add: w'_def)
  ultimately show ?case
    using step.prems w' by (simp add: nth_list_update less_Suc_eq)
qed

lemma schedule_eq:
  assumes "length w = 64"
  shows "schedule ubshl chunk w = map (sched_word ubshl chunk) [0..<64]"
proof -
  define w1 where "w1 = fold (\<lambda>i w. w[i := chunk i]) [0..<16] w"
  have w1: "w1 = map chunk [0..<16] @ drop 16 w"
    unfolding w1_def by (rule fold_upd_index) (simp add: assms)
  have "length w1 = 64" "\<And>t. t < 16 \<Longrightarrow> w1 ! t = chunk t"
    unfolding w1 using assms by (simp_all add: nth_append del: upt_rec_numeral)
  from schedule_steps [OF this(1) _ _ this(2), of 64 ubshl]
  have "length (schedule ubshl chunk w) = 64 \<and> (\<forall>t < 64. schedule ubshl chunk w ! t = sched_word ubshl chunk t)"
    unfolding schedule_def w1_def [symmetric] by simp
  then show ?thesis by (intro nth_equalityI) (simp_all del: upt_rec_numeral)
qed


section \<open>Filling the buffer\<close>

text \<open>Word \<open>j\<close> of the page at \<open>p\<close>.\<close>

abbreviation page_word :: "memory \<Rightarrow> u32 \<Rightarrow> nat \<Rightarrow> u32" where
  "page_word m p j \<equiv> load32 m (p + 4 * of_nat j)"

lemma word_in_page:
  assumes "j < 1024" and "in_range (p + 4 * of_nat j) 4 x"
  shows "in_range p 4096 x"
  using assms in_range_offset_iff [of "4 * j" 4 p x] by (simp add: in_range_def)

lemma words_apart:
  assumes "j < 1024" "k < 1024" "j \<noteq> k" "in_range (p + 4 * of_nat j) 4 x"
  shows "\<not> in_range (p + 4 * of_nat k) 4 x"
  using assms in_range_offset_iff [of "4 * j" 4 p x] in_range_offset_iff [of "4 * k" 4 p x] by auto

lemma page_word_store:
  assumes "j < 1024" "k < 1024"
  shows "page_word (store32 m (p + 4 * of_nat j) v) p k = (if k = j then v else page_word m p k)"
proof (cases "k = j")
  case False
  then have "load32 (store32 m (p + 4 * of_nat j) v) (p + 4 * of_nat k) = load32 m (p + 4 * of_nat k)"
    unfolding store32_def using words_apart [of k j p] assms
    by (intro load32_store_bytes_out) auto
  with False show ?thesis by simp
qed (simp add: load32_store32)

lemma store32_page_frame:
  "j < 1024 \<Longrightarrow> \<not> in_range p 4096 x \<Longrightarrow> store32 m (p + 4 * of_nat j) v x = m x"
  unfolding store32_def using word_in_page [of j p x] by (intro store_bytes_out) auto

text \<open>What a loop of word stores into the page leaves behind.\<close>

lemma store_words:
  assumes "n \<le> 1024"
    and f: "\<And>m' j. (\<And>x. \<not> in_range p 4096 x \<Longrightarrow> m' x = m x) \<Longrightarrow> j < n \<Longrightarrow> f m' j = g j"
  defines "m' \<equiv> fold (\<lambda>j m. store32 m (p + 4 * of_nat j) (f m j)) [0..<n] m"
  shows "(\<forall>k < 1024. page_word m' p k = (if k < n then g k else page_word m p k))
     \<and> (\<forall>x. \<not> in_range p 4096 x \<longrightarrow> m' x = m x)"
  unfolding m'_def using assms(1) f
proof (induction n)
  case 0
  then show ?case by simp
next
  case (Suc n)
  define m1 where "m1 = fold (\<lambda>j m. store32 m (p + 4 * of_nat j) (f m j)) [0..<n] m"
  have m1: "\<And>k. k < 1024 \<Longrightarrow> page_word m1 p k = (if k < n then g k else page_word m p k)"
    "\<And>x. \<not> in_range p 4096 x \<Longrightarrow> m1 x = m x"
    using Suc.IH Suc.prems unfolding m1_def by auto
  have "f m1 n = g n" using Suc.prems(2) [of m1 n] m1(2) by simp
  moreover have "fold (\<lambda>j m. store32 m (p + 4 * of_nat j) (f m j)) [0..<Suc n] m
      = store32 m1 (p + 4 * of_nat n) (f m1 n)" by (simp add: m1_def)
  ultimately show ?case
    using Suc.prems(1) m1 by (simp add: page_word_store store32_page_frame less_Suc_eq)
qed

text \<open>The buffer holds the data words, and behind them whatever the page held before.\<close>

definition message_word :: "(nat \<Rightarrow> u8) \<Rightarrow> nat \<Rightarrow> (nat \<Rightarrow> u32) \<Rightarrow> nat \<Rightarrow> u32" where
  "message_word data n stale j = (if 4 * j < n then data_word data (4 * j) else stale j)"

lemma ceil_div_4: "j < (n + 3) div 4 \<longleftrightarrow> 4 * j < (n :: nat)"
  by (simp add: less_eq_div_iff_mult_less_eq Suc_le_eq [symmetric] del: Suc_le_eq) linarith

lemma bufsize_value:
  assumes "0 \<le> sint sz" "sint sz < 3584"
  shows "sz + (512 - word_of_int (sint sz smod 512)) = (of_nat (512 * (nat (sint sz) div 512 + 1)) :: i32)"
    and "512 * (nat (sint sz) div 512 + 1) < 4096"
    and "nat (sint sz) < 512 * (nat (sint sz) div 512 + 1)"
proof -
  define n where "n = nat (sint sz)"
  have n: "sint sz = int n" "sz = of_nat n" "n < 3584" using assms by (simp_all add: n_def)
  have "n div 512 \<le> 6" using n(3) by linarith
  then show "512 * (nat (sint sz) div 512 + 1) < 4096" by (simp add: n(1))
  show "nat (sint sz) < 512 * (nat (sint sz) div 512 + 1)"
    using dividend_less_div_times [of 512 n] by (simp add: n(1))
  have "n = 512 * (n div 512) + n mod 512" by simp
  then have "of_nat n = (of_nat (512 * (n div 512)) + of_nat (n mod 512) :: i32)"
    by (metis of_nat_add)
  moreover have "int n smod 512 = int (n mod 512)" by (simp add: smod_mod_positive zmod_int)
  then have "word_of_int (int n smod 512) = (of_nat (n mod 512) :: i32)" by simp
  ultimately show "sz + (512 - word_of_int (sint sz smod 512)) = (of_nat (512 * (nat (sint sz) div 512 + 1)) :: i32)"
    unfolding n(1) nat_int by (simp add: n(2) algebra_simps)
qed


text \<open>Any other size is rejected, on one of the three conditions.\<close>

lemma init_sha_rejects:
  assumes "\<not> (0 \<le> sint sz \<and> sint sz < 3584)"
  shows "init_sha data sz buffer s = Inl (Panic sha_size_msg)"
proof (cases "sint sz < 0")
  case True
  then show ?thesis by (simp add: init_sha_def)
next
  case False
  define n where "n = nat (sint sz)"
  define k where "k = 512 * (n div 512 + 1)"
  have n: "sint sz = int n" "sz = of_nat n" "3584 \<le> n" using assms False by (simp_all add: n_def)
  have "n < 2 ^ 31" using sint_lt [of sz] by (simp add: n(1) flip: of_nat_less_iff)
  then have "n div 512 < 4194304" by (intro less_mult_imp_div_less) simp
  moreover have "7 \<le> n div 512" using n(3) by linarith
  ultimately have k: "4096 \<le> k" "k \<le> 2 ^ 31" by (simp_all add: k_def)
  have "int n smod 512 = int (n mod 512)" by (simp add: smod_mod_positive zmod_int)
  then have "word_of_int (int n smod 512) = (of_nat (n mod 512) :: i32)" by simp
  moreover have "of_nat n = (of_nat (512 * (n div 512)) + of_nat (n mod 512) :: i32)"
    by (metis mult_div_mod_eq of_nat_add)
  ultimately have "of_nat n + (512 - word_of_int (int n smod 512)) = (of_nat k :: i32)"
    by (simp add: k_def algebra_simps)
  moreover have "of_nat PGSIZE \<le> (of_nat k :: i32)"
    using k by (simp add: PGSIZE_def word_le_nat_alt unat_of_nat)
  ultimately show ?thesis unfolding init_sha_def Let_def n(1) by (simp add: n(2))
qed

text \<open>The bytes that hashing \<open>n\<close> of them reads do not lie in the page at \<open>p\<close>.\<close>

definition reads_outside :: "u32 \<Rightarrow> nat \<Rightarrow> (memory \<Rightarrow> nat \<Rightarrow> u8) \<Rightarrow> memory \<Rightarrow> bool" where
  "reads_outside p n data m \<longleftrightarrow>
     (\<forall>m'. (\<forall>x. \<not> in_range p 4096 x \<longrightarrow> m' x = m x) \<longrightarrow> (\<forall>i < n + 3. data m' i = data m i))"

lemma data_word_outside:
  assumes "reads_outside p n data m" "\<And>x. \<not> in_range p 4096 x \<Longrightarrow> m' x = m x" "4 * j < n"
  shows "data_word (data m') (4 * j) = data_word (data m) (4 * j)"
proof -
  have "data m' i = data m i" if "i < n + 3" for i
    using assms(1,2) that unfolding reads_outside_def by blast
  then show ?thesis using assms(3) by (simp add: data_word_def)
qed

lemma init_sha_ok:
  assumes "0 \<le> sint sz" "sint sz < 3584"
    and data: "reads_outside p (nat (sint sz)) data (mem s)"
  shows "\<exists>m. init_sha data sz p s = Inr (of_nat (128 * (nat (sint sz) div 512 + 1)), s\<lparr>hh := sha_h0, mem := m\<rparr>)
     \<and> (\<forall>k < 1024. page_word m p k = message_word (data (mem s)) (nat (sint sz)) (page_word (mem s) p) k)
     \<and> (\<forall>x. \<not> in_range p 4096 x \<longrightarrow> m x = mem s x)"
proof -
  define n where "n = nat (sint sz)"
  define k where "k = 512 * (n div 512 + 1)"
  define m where "m = fold (\<lambda>j m. store32 m (p + 4 * of_nat j) (data_word (data m) (4 * j))) [0..<(n + 3) div 4] (mem s)"
  have n: "n < 3584" using assms(1,2) by (simp add: n_def)
  have k: "sz + (512 - word_of_int (sint sz smod 512)) = of_nat k" "k < 4096" "n < k"
    using bufsize_value [OF assms(1,2)] by (simp_all add: n_def k_def)
  have "sint (of_nat k :: i32) = int k" using k(2) by (intro sint_of_nat) simp
  then have guard: "\<not> (sint sz < 0 \<or> sint (of_nat k :: i32) < sint sz \<or> of_nat PGSIZE \<le> (of_nat k :: i32))"
    using assms(1) k by (simp add: n_def PGSIZE_def word_le_nat_alt unat_of_nat)
  have "of_nat k div 4 = (of_nat (k div 4) :: i32)"
    using k(2) by (simp add: word_unat_eq_iff unat_div unat_of_nat)
  also have "k div 4 = 128 * (n div 512 + 1)" by (simp add: k_def)
  finally have "of_nat k div 4 = (of_nat (128 * (n div 512 + 1)) :: i32)" .
  moreover have "memset (mem s) p (of_nat k) 0 = mem s" by (simp add: memset_eq store_bytes_Nil)
  ultimately have "init_sha data sz p s = Inr (of_nat (128 * (n div 512 + 1)), s\<lparr>hh := sha_h0, mem := m\<rparr>)"
    unfolding init_sha_def Let_def k(1) if_not_P [OF guard] word_starts_def n_def [symmetric] fold_map m_def
    by (simp add: comp_def)
  moreover have "(\<forall>j < 1024. page_word m p j = (if j < (n + 3) div 4 then data_word (data (mem s)) (4 * j) else page_word (mem s) p j))
      \<and> (\<forall>x. \<not> in_range p 4096 x \<longrightarrow> m x = mem s x)"
    unfolding m_def
  proof (rule store_words)
    show "(n + 3) div 4 \<le> 1024" using n by simp
    fix m' j
    assume "\<And>x. \<not> in_range p 4096 x \<Longrightarrow> m' x = mem s x" and "j < (n + 3) div 4"
    then show "data_word (data m') (4 * j) = data_word (data (mem s)) (4 * j)"
      using data by (intro data_word_outside [of p n]) (simp_all add: n_def ceil_div_4)
  qed
  ultimately show ?thesis
    by (intro exI [of _ m]) (simp add: n_def message_word_def ceil_div_4)
qed


section \<open>The digest\<close>

text \<open>
  The digest of a message of \<open>n\<close> chunks, with the message schedule given by the recurrence:
  what is left of \<open>sha256internal\<close> when the static arrays are taken out.
\<close>

definition compress :: "shift \<Rightarrow> (nat \<Rightarrow> u32) \<Rightarrow> u32 list \<Rightarrow> u32 list" where
  "compress ubshl chunk h = fst (sha_chunk ubshl chunk (h, replicate 64 0))"

definition digest :: "shift \<Rightarrow> (nat \<Rightarrow> u32) \<Rightarrow> nat \<Rightarrow> u32 list" where
  "digest ubshl msg n = fold (\<lambda>c. compress ubshl (\<lambda>i. msg (16 * c + i))) [0..<n] sha_h0"

lemma sha_chunk_compress:
  assumes "length w = 64"
  shows "fst (sha_chunk ubshl chunk (h, w)) = compress ubshl chunk h"
    and "length (snd (sha_chunk ubshl chunk (h, w))) = 64"
  using schedule_eq [OF assms, of ubshl chunk] schedule_eq [of "replicate 64 0" ubshl chunk]
  by (simp_all add: compress_def sha_chunk_def Let_def split: prod.split del: upt_rec_numeral)

lemma sha_chunk_cong:
  "(\<And>i. i < 16 \<Longrightarrow> c i = d i) \<Longrightarrow> sha_chunk ubshl c hw = sha_chunk ubshl d hw"
proof -
  assume "\<And>i. i < 16 \<Longrightarrow> c i = d i"
  then have "fold (\<lambda>i w. w[i := c i]) [0..<16] w = fold (\<lambda>i w. w[i := d i]) [0..<16] w" for w :: "u32 list"
    by (intro fold_cong) (simp_all del: upt_rec_numeral)
  then show ?thesis by (simp only: sha_chunk_def schedule_def)
qed

lemma sha_chunks:
  assumes "length w = 64"
  shows "fst (fold (\<lambda>c. sha_chunk ubshl (\<lambda>i. msg (c + i))) (map (\<lambda>j. 16 * j) [0..<n]) (sha_h0, w))
      = digest ubshl msg n
     \<and> length (snd (fold (\<lambda>c. sha_chunk ubshl (\<lambda>i. msg (c + i))) (map (\<lambda>j. 16 * j) [0..<n]) (sha_h0, w))) = 64"
proof (induction n)
  case 0
  then show ?case using assms by (simp add: digest_def)
next
  case (Suc n)
  define hw where "hw = fold (\<lambda>c. sha_chunk ubshl (\<lambda>i. msg (c + i))) (map (\<lambda>j. 16 * j) [0..<n]) (sha_h0, w)"
  obtain h w' where hw: "hw = (h, w')" by fastforce
  with Suc.IH have "h = digest ubshl msg n" "length w' = 64" by (simp_all add: hw_def)
  then show ?case
    using sha_chunk_compress [of w' ubshl "\<lambda>i. msg (16 * n + i)" h]
    by (simp add: hw_def [symmetric] hw digest_def)
qed

lemma length_digest: "length (digest ubshl msg n) = 8"
proof (cases n)
  case (Suc k)
  then show ?thesis by (simp add: digest_def compress_def sha_chunk_def Let_def split: prod.split)
qed (simp add: digest_def sha_h0_def)

lemma sha256internal_digest:
  assumes "length (ww s) = 64" "hh s = sha_h0" "sint bufsize = int (16 * n)"
  shows "\<exists>w. sha256internal ubshl buffer bufsize s
     = s\<lparr>hh := digest ubshl (page_word (mem s) buffer) n, ww := w\<rparr> \<and> length w = 64"
proof -
  have "(nat (sint bufsize) + 15) div 16 = n" using assms(3) by simp
  then show ?thesis
    using sha_chunks [OF assms(1), of ubshl "page_word (mem s) buffer" n] assms(2)
    by (simp add: sha256internal_def Let_def) (rule exI, rule conjI, rule refl, simp)
qed

lemma length_hash_bytes: "length (hash_bytes h) = 32"
  by (simp add: hash_bytes_def upt_rec)


text \<open>
  A call on a state with a free page: the message is hashed together with the stale rest of
  the page, and the page is never given back.
\<close>

definition sha_chunks_of :: "nat \<Rightarrow> nat" where
  "sha_chunks_of n = 8 * (n div 512 + 1)"

lemma digest_cong:
  assumes "\<And>j. j < 16 * n \<Longrightarrow> f j = g j"
  shows "digest ubshl f n = digest ubshl g n"
  unfolding digest_def
proof (rule fold_cong)
  fix c assume "c \<in> set [0..<n]"
  then have "sha_chunk ubshl (\<lambda>i. f (16 * c + i)) hw = sha_chunk ubshl (\<lambda>i. g (16 * c + i)) hw" for hw
    using assms by (intro sha_chunk_cong) auto
  then show "compress ubshl (\<lambda>i. f (16 * c + i)) = compress ubshl (\<lambda>i. g (16 * c + i))"
    by (simp add: compress_def fun_eq_iff)
qed simp_all

lemma sha_kframe_more: "kframe s t \<Longrightarrow> hh t = hh s \<and> ww t = ww s \<and> sha_st.more t = sha_st.more s"
  by (cases s; cases t) (simp add: kframe_def)

lemma kinv_sha_update [simp]:
  "kinv b ps (s\<lparr>hh := h\<rparr>) = kinv b ps s" "kinv b ps (s\<lparr>ww := w\<rparr>) = kinv b ps s"
  by (simp_all add: kinv_def alloc_rep_def events_ok_def cpu_room_def cpu_ok_def accum_rep_def pools_free_def)

lemma sha256_ok:
  fixes s :: "'a sha_st_scheme"
  assumes inv: "kinv (Suc b) (p # ps) s" and sz: "0 \<le> sint sz" "sint sz < 3584"
    and w: "length (ww s) = 64"
    and data: "reads_outside p (nat (sint sz)) data (mem s)"
  defines "n \<equiv> nat (sint sz)"
  shows "\<exists>t. sha256 ubshl data sz s = Inr
        (hash_bytes (digest ubshl (message_word (data (mem s)) n (page_word (mem s) p)) (sha_chunks_of n)), t)
     \<and> kinv b ps t \<and> (\<forall>x. \<not> in_range p 4096 x \<longrightarrow> mem t x = mem s x)
     \<and> balanced s t \<and> kend t = kend s \<and> kinit2_called t = kinit2_called s \<and> use_lock t = use_lock s
     \<and> length (ww t) = 64 \<and> sha_st.more t = sha_st.more s
     \<and> (quiet (Suc b) s \<longrightarrow> pools t = pools s \<and> quiet b t)"
proof -
  obtain s1 where s1: "kalloc s = Inr (p, s1)" "kinv b ps s1" "mem s1 = mem s" "kframe s s1"
    "page_ok (kend s1) p" "p \<notin> set ps" "quiet (Suc b) s \<Longrightarrow> pools s1 = pools s \<and> quiet b s1"
    using kmem.alloc_Cons [OF inv] kalloc_call [OF inv] by fastforce
  obtain m where m: "init_sha data sz p s1 = Inr (of_nat (128 * (n div 512 + 1)), s1\<lparr>hh := sha_h0, mem := m\<rparr>)"
    "\<And>k. k < 1024 \<Longrightarrow> page_word m p k = message_word (data (mem s)) n (page_word (mem s) p) k"
    "\<And>x. \<not> in_range p 4096 x \<Longrightarrow> m x = mem s x"
  proof -
    have "reads_outside p (nat (sint sz)) data (mem s1)" using data s1(3) by simp
    from init_sha_ok [OF sz this] show ?thesis using that unfolding n_def s1(3) by blast
  qed
  define s2 where "s2 = s1\<lparr>hh := sha_h0, mem := m\<rparr>"
  have n: "n < 3584" using sz by (simp add: n_def)
  then have q: "n div 512 \<le> 6" by linarith
  have "sint (of_nat (128 * (n div 512 + 1)) :: i32) = int (16 * sha_chunks_of n)"
    using q by (subst sint_of_nat) (simp_all add: sha_chunks_of_def)
  moreover have "length (ww s2) = 64" using w sha_kframe_more [OF s1(4)] by (simp add: s2_def)
  ultimately obtain w' where w': "sha256internal ubshl p (of_nat (128 * (n div 512 + 1))) s2
      = s2\<lparr>hh := digest ubshl (page_word m p) (sha_chunks_of n), ww := w'\<rparr>" "length w' = 64"
    using sha256internal_digest [of s2] by (fastforce simp: s2_def)
  define t where "t = s2\<lparr>hh := digest ubshl (page_word m p) (sha_chunks_of n), ww := w'\<rparr>"
  have d: "digest ubshl (page_word m p) (sha_chunks_of n)
      = digest ubshl (message_word (data (mem s)) n (page_word (mem s) p)) (sha_chunks_of n)"
    using m(2) q by (intro digest_cong) (simp add: sha_chunks_of_def)
  have h: "map (\<lambda>i. digest ubshl f k ! i) [0..<8] = digest ubshl f k" for f k
    using map_nth [of "digest ubshl f k"] by (simp add: length_digest)
  have "sha256 ubshl data sz s = Inr (hash_bytes (digest ubshl (page_word m p) (sha_chunks_of n)), t)"
    unfolding sha256_def s1(1) bind_res_Inr case_prod_conv m(1) s2_def [symmetric] Let_def w'(1)
    by (simp add: sha256final_def h t_def del: upt_rec_numeral)
  moreover have "kinv b ps (s1\<lparr>mem := m\<rparr>)"
    using kmem.put_owned [OF s1(2,5,6), of m] m(3) s1(3) by auto
  then have "kinv b ps t"
    by (simp add: t_def s2_def kinv_def alloc_rep_def events_ok_def cpu_room_def cpu_ok_def accum_rep_def pools_free_def)
  moreover have "balanced s t" using s1(4) by (simp add: kframe_def balanced_def t_def s2_def)
  moreover have "quiet (Suc b) s \<longrightarrow> pools t = pools s \<and> quiet b t"
    using s1(7) by (auto simp: t_def s2_def quiet_def)
  ultimately show ?thesis
    using m(3) w'(2) s1(4) sha_kframe_more [OF s1(4)] d by (simp add: t_def s2_def kframe_def)
qed


text \<open>The one-page state with the hash's static arrays, zero as in the bss.\<close>

definition one_page_sha :: sha_st where
  "one_page_sha = kmem_st.extend one_page (sha_st.fields (replicate 8 0) (replicate 64 0))"

lemma one_page_sha_facts:
  "kinv 2 [0x80400000] one_page_sha" "length (ww one_page_sha) = 64" "mem one_page_sha = (\<lambda>_. 0)"
  using one_page_facts
  by (simp_all add: one_page_sha_def one_page_def ent_st.defs kmem_st.defs sha_st.defs kinv_def alloc_rep_def
      events_ok_def cpu_room_def cpu_ok_def accum_rep_def pools_free_def)


section \<open>Properties\<close>

text \<open>
  C8: \<open>sha256\<close> of at most 3583 bytes returns the digest of a whole number of 512-byte units:
  the data words (sign-extended bytes or-ed together), followed by whatever the buffer page
  held before, since the \<open>memset\<close> that should clear it has its last two arguments swapped and
  no padding is written. The page it takes from the allocator is never freed; the interrupt
  state and all memory outside that page are as before.
\<close>

theorem sha256_digest:
  fixes s :: "'a sha_st_scheme"
  assumes "kinv (Suc b) (p # ps) s" and "0 \<le> sint sz" "sint sz < 3584" and "length (ww s) = 64"
    and "reads_outside p (nat (sint sz)) data (mem s)"
  shows "\<exists>t. sha256 ubshl data sz s = Inr
        (hash_bytes (digest ubshl (message_word (data (mem s)) (nat (sint sz)) (page_word (mem s) p))
           (sha_chunks_of (nat (sint sz)))), t)
     \<and> kinv b ps t \<and> (\<forall>x. \<not> in_range p 4096 x \<longrightarrow> mem t x = mem s x)
     \<and> balanced s t \<and> sha_st.more t = sha_st.more s"
  using sha256_ok [OF assms, of ubshl] by blast

theorem sha256_digest_witness:
  "\<exists>t. sha256 x86_shl (\<lambda>m i. 0) 100 one_page_sha =
      Inr (hash_bytes (digest x86_shl (\<lambda>j. 0) 8), t) \<and> kinv 1 [] t"
proof -
  have inv: "kinv (Suc 1) [0x80400000] one_page_sha" using one_page_sha_facts(1) by (simp add: numeral_2_eq_2)
  have "message_word (\<lambda>i. 0) 100 (page_word (\<lambda>_. 0) 0x80400000) = (\<lambda>j. 0)"
    by (simp add: message_word_def data_word_def load32_def u32_of_bytes_def fun_eq_iff)
  then show ?thesis
    using sha256_digest [OF inv, of 100 "\<lambda>m i. 0" x86_shl] one_page_sha_facts(2,3)
    by (auto simp: sha_chunks_of_def reads_outside_def)
qed

text \<open>
  C34: on every other size \<open>sha256\<close> panics, so a pool that holds 3584 bytes or more, as a full
  one does, cannot be hashed.
\<close>

theorem sha256_size_limit:
  assumes "kinv (Suc b) ps s" and "sint sz < 0 \<or> 3584 \<le> sint sz"
  shows "sha256 ubshl data sz s = Inl (Panic sha_size_msg)"
proof -
  obtain q t where "kalloc s = Inr (q, t)" using kmem.alloc_law [OF assms(1)] by blast
  with init_sha_rejects [of sz data q t] assms(2) show ?thesis by (auto simp: sha256_def)
qed

theorem sha256_size_limit_witness:
  "sha256 x86_shl (\<lambda>m i. 0) 4096 one_page_sha = Inl (Panic sha_size_msg)"
  using sha256_size_limit [of 1 "[0x80400000]" one_page_sha 4096] one_page_sha_facts(1)
  by (simp add: numeral_2_eq_2)





end
