(* ===== verification/Aes.thy ===== *)
theory Aes
  imports Prelude
begin

text \<open>
  The AES block cipher of \<open>src/aes.c\<close>. The state \<open>block\<close> is an array of 16 bytes, here a
  list; a loop that assigns array cells is a fold of list updates over its index range. A
  local array that C leaves uninitialised starts as zeros: every cell of it is assigned
  before it is read (\<open>loadToState_any\<close>). Integer promotion followed by truncation to a
  byte commutes with xor, so byte expressions are computed on bytes.
  The key size counts words and is a natural number; the three sizes are 4, 6 and 8, so the bytes and words computed from it do not wrap.
  The round keys are a list that \<open>keyExpansion\<close> fills; the other definitions are used with the length that it gives.
\<close>

section \<open>Definitions\<close>

definition BLOCK_SHIFT :: nat where "BLOCK_SHIFT = 2"
definition BLOCK_ROWS :: nat where "BLOCK_ROWS = 4"
definition BLOCK_COLUMNS :: nat where "BLOCK_COLUMNS = 4"
definition BLOCK_LENGTH :: nat where "BLOCK_LENGTH = 16"
definition AES_128_KEY_SIZE :: nat where "AES_128_KEY_SIZE = 4"
definition AES_192_KEY_SIZE :: nat where "AES_192_KEY_SIZE = 6"
definition AES_256_KEY_SIZE :: nat where "AES_256_KEY_SIZE = 8"

type_synonym block = "u8 list"

text \<open>The index into \<open>state\<close> of the cell \<open>byteOfState\<close> points to.\<close>

definition byteOfState :: "nat \<Rightarrow> nat \<Rightarrow> nat" where
  "byteOfState row column = push_bit BLOCK_SHIFT row + column"

definition loadToState :: "u8 list \<Rightarrow> block \<Rightarrow> block" where
  "loadToState inp state =
     fold (\<lambda>col st. fold (\<lambda>row st. st[byteOfState row col := inp ! (col * BLOCK_ROWS + row)])
       [0..<BLOCK_ROWS] st) [0..<BLOCK_COLUMNS] state"

definition loadFromState :: "block \<Rightarrow> u8 list \<Rightarrow> u8 list" where
  "loadFromState state out =
     fold (\<lambda>col out. fold (\<lambda>row out. out[col * BLOCK_ROWS + row := state ! byteOfState row col])
       [0..<BLOCK_ROWS] out) [0..<BLOCK_COLUMNS] out"

definition sBox :: "u16 list" where
  "sBox = [
   0x63, 0x7c, 0x77, 0x7b, 0xf2, 0x6b, 0x6f, 0xc5, 0x30, 0x01, 0x67, 0x2b, 0xfe, 0xd7, 0xab, 0x76,
   0xca, 0x82, 0xc9, 0x7d, 0xfa, 0x59, 0x47, 0xf0, 0xad, 0xd4, 0xa2, 0xaf, 0x9c, 0xa4, 0x72, 0xc0,
   0xb7, 0xfd, 0x93, 0x26, 0x36, 0x3f, 0xf7, 0xcc, 0x34, 0xa5, 0xe5, 0xf1, 0x71, 0xd8, 0x31, 0x15,
   0x04, 0xc7, 0x23, 0xc3, 0x18, 0x96, 0x05, 0x9a, 0x07, 0x12, 0x80, 0xe2, 0xeb, 0x27, 0xb2, 0x75,
   0x09, 0x83, 0x2c, 0x1a, 0x1b, 0x6e, 0x5a, 0xa0, 0x52, 0x3b, 0xd6, 0xb3, 0x29, 0xe3, 0x2f, 0x84,
   0x53, 0xd1, 0x00, 0xed, 0x20, 0xfc, 0xb1, 0x5b, 0x6a, 0xcb, 0xbe, 0x39, 0x4a, 0x4c, 0x58, 0xcf,
   0xd0, 0xef, 0xaa, 0xfb, 0x43, 0x4d, 0x33, 0x85, 0x45, 0xf9, 0x02, 0x7f, 0x50, 0x3c, 0x9f, 0xa8,
   0x51, 0xa3, 0x40, 0x8f, 0x92, 0x9d, 0x38, 0xf5, 0xbc, 0xb6, 0xda, 0x21, 0x10, 0xff, 0xf3, 0xd2,
   0xcd, 0x0c, 0x13, 0xec, 0x5f, 0x97, 0x44, 0x17, 0xc4, 0xa7, 0x7e, 0x3d, 0x64, 0x5d, 0x19, 0x73,
   0x60, 0x81, 0x4f, 0xdc, 0x22, 0x2a, 0x90, 0x88, 0x46, 0xee, 0xb8, 0x14, 0xde, 0x5e, 0x0b, 0xdb,
   0xe0, 0x32, 0x3a, 0x0a, 0x49, 0x06, 0x24, 0x5c, 0xc2, 0xd3, 0xac, 0x62, 0x91, 0x95, 0xe4, 0x79,
   0xe7, 0xc8, 0x37, 0x6d, 0x8d, 0xd5, 0x4e, 0xa9, 0x6c, 0x56, 0xf4, 0xea, 0x65, 0x7a, 0xae, 0x08,
   0xba, 0x78, 0x25, 0x2e, 0x1c, 0xa6, 0xb4, 0xc6, 0xe8, 0xdd, 0x74, 0x1f, 0x4b, 0xbd, 0x8b, 0x8a,
   0x70, 0x3e, 0xb5, 0x66, 0x48, 0x03, 0xf6, 0x0e, 0x61, 0x35, 0x57, 0xb9, 0x86, 0xc1, 0x1d, 0x9e,
   0xe1, 0xf8, 0x98, 0x11, 0x69, 0xd9, 0x8e, 0x94, 0x9b, 0x1e, 0x87, 0xe9, 0xce, 0x55, 0x28, 0xdf,
   0x8c, 0xa1, 0x89, 0x0d, 0xbf, 0xe6, 0x42, 0x68, 0x41, 0x99, 0x2d, 0x0f, 0xb0, 0x54, 0xbb, 0x16]"

definition invSBox :: "u16 list" where
  "invSBox = [
   0x52, 0x09, 0x6a, 0xd5, 0x30, 0x36, 0xa5, 0x38, 0xbf, 0x40, 0xa3, 0x9e, 0x81, 0xf3, 0xd7, 0xfb,
   0x7c, 0xe3, 0x39, 0x82, 0x9b, 0x2f, 0xff, 0x87, 0x34, 0x8e, 0x43, 0x44, 0xc4, 0xde, 0xe9, 0xcb,
   0x54, 0x7b, 0x94, 0x32, 0xa6, 0xc2, 0x23, 0x3d, 0xee, 0x4c, 0x95, 0x0b, 0x42, 0xfa, 0xc3, 0x4e,
   0x08, 0x2e, 0xa1, 0x66, 0x28, 0xd9, 0x24, 0xb2, 0x76, 0x5b, 0xa2, 0x49, 0x6d, 0x8b, 0xd1, 0x25,
   0x72, 0xf8, 0xf6, 0x64, 0x86, 0x68, 0x98, 0x16, 0xd4, 0xa4, 0x5c, 0xcc, 0x5d, 0x65, 0xb6, 0x92,
   0x6c, 0x70, 0x48, 0x50, 0xfd, 0xed, 0xb9, 0xda, 0x5e, 0x15, 0x46, 0x57, 0xa7, 0x8d, 0x9d, 0x84,
   0x90, 0xd8, 0xab, 0x00, 0x8c, 0xbc, 0xd3, 0x0a, 0xf7, 0xe4, 0x58, 0x05, 0xb8, 0xb3, 0x45, 0x06,
   0xd0, 0x2c, 0x1e, 0x8f, 0xca, 0x3f, 0x0f, 0x02, 0xc1, 0xaf, 0xbd, 0x03, 0x01, 0x13, 0x8a, 0x6b,
   0x3a, 0x91, 0x11, 0x41, 0x4f, 0x67, 0xdc, 0xea, 0x97, 0xf2, 0xcf, 0xce, 0xf0, 0xb4, 0xe6, 0x73,
   0x96, 0xac, 0x74, 0x22, 0xe7, 0xad, 0x35, 0x85, 0xe2, 0xf9, 0x37, 0xe8, 0x1c, 0x75, 0xdf, 0x6e,
   0x47, 0xf1, 0x1a, 0x71, 0x1d, 0x29, 0xc5, 0x89, 0x6f, 0xb7, 0x62, 0x0e, 0xaa, 0x18, 0xbe, 0x1b,
   0xfc, 0x56, 0x3e, 0x4b, 0xc6, 0xd2, 0x79, 0x20, 0x9a, 0xdb, 0xc0, 0xfe, 0x78, 0xcd, 0x5a, 0xf4,
   0x1f, 0xdd, 0xa8, 0x33, 0x88, 0x07, 0xc7, 0x31, 0xb1, 0x12, 0x10, 0x59, 0x27, 0x80, 0xec, 0x5f,
   0x60, 0x51, 0x7f, 0xa9, 0x19, 0xb5, 0x4a, 0x0d, 0x2d, 0xe5, 0x7a, 0x9f, 0x93, 0xc9, 0x9c, 0xef,
   0xa0, 0xe0, 0x3b, 0x4d, 0xae, 0x2a, 0xf5, 0xb0, 0xc8, 0xeb, 0xbb, 0x3c, 0x83, 0x53, 0x99, 0x61,
   0x17, 0x2b, 0x04, 0x7e, 0xba, 0x77, 0xd6, 0x26, 0xe1, 0x69, 0x14, 0x63, 0x55, 0x21, 0x0c, 0x7d]"

definition rcon :: "u32 list" where
  "rcon = [
   0x00000000, 0x01000000, 0x02000000, 0x04000000,
   0x08000000, 0x10000000, 0x20000000, 0x40000000,
   0x80000000, 0x1B000000, 0x36000000]"

definition subBytes :: "block \<Rightarrow> block" where
  "subBytes state = fold (\<lambda>i st. st[i := ucast (sBox ! unat (st ! i))]) [0..<BLOCK_LENGTH] state"

definition invSubBytes :: "block \<Rightarrow> block" where
  "invSubBytes state = fold (\<lambda>i st. st[i := ucast (invSBox ! unat (st ! i))]) [0..<BLOCK_LENGTH] state"

definition shiftRows :: "block \<Rightarrow> block" where
  "shiftRows state =
     fold (\<lambda>row st.
       let storedRow = map (\<lambda>column. st ! byteOfState row column) [0..<BLOCK_COLUMNS]
       in fold (\<lambda>column st. st[byteOfState row column := storedRow ! unat ((of_nat column + of_nat row :: u32) AND 3)])
            [0..<BLOCK_COLUMNS] st)
       [0..<BLOCK_ROWS] state"

definition invShiftRows :: "block \<Rightarrow> block" where
  "invShiftRows state =
     fold (\<lambda>row st.
       let storedRow = map (\<lambda>column. st ! byteOfState row column) [0..<BLOCK_COLUMNS]
       in fold (\<lambda>column st. st[byteOfState row column := storedRow ! unat ((of_nat column - of_nat row :: u32) AND 3)])
            [0..<BLOCK_COLUMNS] st)
       [0..<BLOCK_ROWS] state"

definition xTimes :: "u8 \<Rightarrow> u8" where
  "xTimes i = (let needToXor = i AND 0x80; i = push_bit 1 i
               in if needToXor \<noteq> 0 then i XOR 0x1b else i)"

lemma unat_half_less: "mul \<noteq> 0 \<Longrightarrow> unat (drop_bit 1 mul) < unat (mul :: u8)"
proof -
  assume "mul \<noteq> 0"
  then have "0 < unat mul" by (simp add: unat_gt_0)
  then show ?thesis by (simp add: drop_bit_eq_div unat_div)
qed

function mult_loop :: "u8 \<Rightarrow> u8 \<Rightarrow> u8 \<Rightarrow> u8" where
  "mult_loop mul i result =
     (if mul \<noteq> 0 then
        (let i = xTimes i; result = (if mul AND 1 \<noteq> 0 then result XOR i else result)
         in mult_loop (drop_bit 1 mul) i result)
      else result)"
  by pat_completeness auto
termination
  by (relation "measure (\<lambda>(mul, i, result). unat mul)") (use unat_half_less in simp_all)

declare mult_loop.simps [simp del]

definition mult :: "u8 \<Rightarrow> u8 \<Rightarrow> u8" where
  "mult mul i =
     (let result = (if mul AND 1 \<noteq> 0 then 0 XOR i else 0) in mult_loop (drop_bit 1 mul) i result)"

definition mixColumns :: "block \<Rightarrow> block" where
  "mixColumns state =
     fold (\<lambda>column st.
       let storedColumn = map (\<lambda>row. st ! byteOfState row column) [0..<BLOCK_ROWS];
         st = st[byteOfState 0 column := mult 2 (storedColumn ! 0) XOR mult 3 (storedColumn ! 1)
                  XOR storedColumn ! 2 XOR storedColumn ! 3];
         st = st[byteOfState 1 column := storedColumn ! 0 XOR mult 2 (storedColumn ! 1)
                  XOR mult 3 (storedColumn ! 2) XOR storedColumn ! 3];
         st = st[byteOfState 2 column := storedColumn ! 0 XOR storedColumn ! 1
                  XOR mult 2 (storedColumn ! 2) XOR mult 3 (storedColumn ! 3)];
         st = st[byteOfState 3 column := mult 3 (storedColumn ! 0) XOR storedColumn ! 1
                  XOR storedColumn ! 2 XOR mult 2 (storedColumn ! 3)]
       in st) [0..<BLOCK_COLUMNS] state"

definition invMixColumns :: "block \<Rightarrow> block" where
  "invMixColumns state =
     fold (\<lambda>column st.
       let storedColumn = map (\<lambda>row. st ! byteOfState row column) [0..<BLOCK_ROWS];
         st = st[byteOfState 0 column := mult 0xe (storedColumn ! 0) XOR mult 0xb (storedColumn ! 1)
                  XOR mult 0xd (storedColumn ! 2) XOR mult 0x9 (storedColumn ! 3)];
         st = st[byteOfState 1 column := mult 0x9 (storedColumn ! 0) XOR mult 0xe (storedColumn ! 1)
                  XOR mult 0xb (storedColumn ! 2) XOR mult 0xd (storedColumn ! 3)];
         st = st[byteOfState 2 column := mult 0xd (storedColumn ! 0) XOR mult 0x9 (storedColumn ! 1)
                  XOR mult 0xe (storedColumn ! 2) XOR mult 0xb (storedColumn ! 3)];
         st = st[byteOfState 3 column := mult 0xb (storedColumn ! 0) XOR mult 0xd (storedColumn ! 1)
                  XOR mult 0x9 (storedColumn ! 2) XOR mult 0xe (storedColumn ! 3)]
       in st) [0..<BLOCK_COLUMNS] state"

definition addRoundKey :: "block \<Rightarrow> u32 list \<Rightarrow> block" where
  "addRoundKey state key =
     fold (\<lambda>col st.
       let st = st[byteOfState 0 col := st ! byteOfState 0 col XOR ucast (drop_bit 24 (key ! col) AND 0xFF)];
         st = st[byteOfState 1 col := st ! byteOfState 1 col XOR ucast (drop_bit 16 (key ! col) AND 0xFF)];
         st = st[byteOfState 2 col := st ! byteOfState 2 col XOR ucast (drop_bit 8 (key ! col) AND 0xFF)];
         st = st[byteOfState 3 col := st ! byteOfState 3 col XOR ucast (key ! col AND 0xFF)]
       in st) [0..<BLOCK_COLUMNS] state"

definition rotWord :: "u32 \<Rightarrow> u32" where
  "rotWord word = (let msb = drop_bit 24 word in push_bit 8 word OR msb)"

text \<open>\<open>subWord\<close> rewrites the four bytes of the word in memory, lowest first.\<close>

definition subWord :: "u32 \<Rightarrow> u32" where
  "subWord word =
     (let bytes = map (\<lambda>b. ucast (sBox ! unat b)) (bytes_of_u32 word)
      in u32_of_bytes (bytes ! 0) (bytes ! 1) (bytes ! 2) (bytes ! 3))"

text \<open>
  \<open>keyExpansion\<close> fills the caller's array of \<open>BLOCK_COLUMNS * (rounds + 1)\<close> words. A zero
  \<open>keySize\<close> divides by zero and a small one indexes past \<open>rcon\<close>.
\<close>

definition keyExpansion_step :: "nat \<Rightarrow> nat \<Rightarrow> u32 list \<Rightarrow> u32 list res" where
  "keyExpansion_step keySize index roundKeys =
     (if keySize = 0 then Inl (Fault ''keyExpansion: division by zero'')
      else
        (let temp = roundKeys ! (index - 1)
         in bind_res
           (if index mod keySize = 0 then
              (if index div keySize < length rcon
               then Inr (subWord (rotWord temp) XOR rcon ! (index div keySize))
               else Inl (Fault ''keyExpansion: rcon''))
            else if keySize > 6 \<and> index mod keySize = 4 then Inr (subWord temp)
            else Inr temp)
           (\<lambda>temp. Inr (roundKeys[index := roundKeys ! (index - keySize) XOR temp]))))"

definition keyExpansion :: "u32 list \<Rightarrow> u32 list \<Rightarrow> nat \<Rightarrow> u32 list res" where
  "keyExpansion key roundKeys keySize =
     (let rounds = 6 + keySize;
        roundKeys = fold (\<lambda>index rk. rk[index := key ! index]) [0..<keySize] roundKeys
      in for_res [keySize..<BLOCK_COLUMNS * (rounds + 1)] (keyExpansion_step keySize) roundKeys)"

text \<open>The \<open>&roundKeys[round * BLOCK_COLUMNS]\<close> argument of \<open>addRoundKey\<close>.\<close>

definition round_key :: "u32 list \<Rightarrow> nat \<Rightarrow> u32 list" where
  "round_key roundKeys round = drop (round * BLOCK_COLUMNS) roundKeys"

definition aes_encrypt :: "u8 list \<Rightarrow> u32 list \<Rightarrow> nat \<Rightarrow> u8 list" where
  "aes_encrypt inp roundKeys keySize =
     (let rounds = 6 + keySize;
        state = loadToState inp (replicate BLOCK_LENGTH 0);
        state = addRoundKey state (round_key roundKeys 0);
        state = fold (\<lambda>round state.
            let state = subBytes state; state = shiftRows state; state = mixColumns state
            in addRoundKey state (round_key roundKeys round)) [1..<rounds] state;
        state = subBytes state;
        state = shiftRows state;
        state = addRoundKey state (round_key roundKeys rounds)
      in loadFromState state (replicate BLOCK_LENGTH 0))"

definition aes_decrypt :: "u8 list \<Rightarrow> u32 list \<Rightarrow> nat \<Rightarrow> u8 list" where
  "aes_decrypt inp roundKeys keySize =
     (let rounds = 6 + keySize;
        state = loadToState inp (replicate BLOCK_LENGTH 0);
        state = addRoundKey state (round_key roundKeys rounds);
        state = fold (\<lambda>round state.
            let state = invShiftRows state; state = invSubBytes state;
              state = addRoundKey state (round_key roundKeys round)
            in invMixColumns state) (rev [1..<rounds]) state;
        state = invShiftRows state;
        state = invSubBytes state;
        state = addRoundKey state (round_key roundKeys 0)
      in loadFromState state (replicate BLOCK_LENGTH 0))"

lemmas aes_consts = BLOCK_SHIFT_def BLOCK_ROWS_def BLOCK_COLUMNS_def BLOCK_LENGTH_def


section \<open>The layers of a round and their inverses\<close>

lemma upt_numeral_simps [simp]:
  "[0..<4] = [0, 1, 2, 3 :: nat]"
  "[0..<16] = [0, 1, 2, 3, 4, 5, 6, 7, 8, 9, 10, 11, 12, 13, 14, 15 :: nat]"
  by (simp_all add: upt_rec)

lemma length_16E:
  assumes "length xs = 16"
  obtains b0 b1 b2 b3 b4 b5 b6 b7 b8 b9 b10 b11 b12 b13 b14 b15 where
    "xs = [b0, b1, b2, b3, b4, b5, b6, b7, b8, b9, b10, b11, b12, b13, b14, b15]"
  using assms by (auto simp: numeral_eq_Suc length_Suc_conv)

lemma loadFromState_loadToState:
  assumes "length inp = 16" "length st = 16" "length out = 16"
  shows "loadFromState (loadToState inp st) out = inp"
  using assms
  by (elim length_16E) (simp add: loadToState_def loadFromState_def aes_consts byteOfState_def)

lemma loadToState_loadFromState:
  assumes "length inp = 16" "length st = 16" "length out = 16"
  shows "loadToState (loadFromState inp st) out = inp"
  using assms
  by (elim length_16E) (simp add: loadToState_def loadFromState_def aes_consts byteOfState_def)

lemma loadToState_any:
  assumes "length inp = 16" "length st = 16" "length st' = 16"
  shows "loadToState inp st = loadToState inp st'"
  using assms by (elim length_16E) (simp add: loadToState_def aes_consts byteOfState_def)


text \<open>The S-box tables are inverse to each other on bytes.\<close>

lemma length_sBox [simp]: "length sBox = 256" "length invSBox = 256"
  by (simp_all add: sBox_def invSBox_def)

lemma invSBox_sBox_table:
  "map (\<lambda>v. unat (invSBox ! unat (ucast v :: u8))) sBox = [0..<256]"
  by code_simp

lemma invSBox_sBox: "ucast (invSBox ! unat (ucast (sBox ! unat b) :: u8)) = (b :: u8)"
proof -
  have b: "unat b < 256" using unsigned_less [of b] by simp
  then have "map (\<lambda>v. unat (invSBox ! unat (ucast v :: u8))) sBox ! unat b = unat b"
    unfolding invSBox_sBox_table by simp
  with b have e: "unat (invSBox ! unat (ucast (sBox ! unat b) :: u8)) = unat b" by simp
  then have "of_nat (unat (invSBox ! unat (ucast (sBox ! unat b) :: u8))) = (of_nat (unat b) :: u8)"
    by (rule arg_cong)
  then show ?thesis by simp
qed

lemma fold_upd_map: "fold (\<lambda>i st. st[i := f (st ! i)]) [0..<length st] st = map f st"
proof -
  have "fold (\<lambda>i st. st[i := f (st ! i)]) [0..<n] st = map f (take n st) @ drop n st"
    if "n \<le> length st" for n
    using that
  proof (induction n)
    case (Suc n)
    then show ?case
      by (simp add: list_update_append nth_append take_Suc_conv_app_nth Cons_nth_drop_Suc [symmetric])
  qed simp
  from this [of "length st"] show ?thesis by simp
qed

lemma subBytes_map:
  assumes "length st = 16"
  shows "subBytes st = map (\<lambda>b. ucast (sBox ! unat b)) st"
    and "invSubBytes st = map (\<lambda>b. ucast (invSBox ! unat b)) st"
  unfolding subBytes_def invSubBytes_def BLOCK_LENGTH_def assms [symmetric]
  by (rule fold_upd_map)+

lemma invSubBytes_subBytes: "length st = 16 \<Longrightarrow> invSubBytes (subBytes st) = st"
  by (simp add: subBytes_map invSBox_sBox map_idI)

lemma invShiftRows_shiftRows: "length st = 16 \<Longrightarrow> invShiftRows (shiftRows st) = st"
  by (elim length_16E)
    (simp add: shiftRows_def invShiftRows_def aes_consts byteOfState_def Let_def)

lemma addRoundKey_cancel: "length st = 16 \<Longrightarrow> addRoundKey (addRoundKey st k) k = st"
  by (elim length_16E)
    (simp add: addRoundKey_def aes_consts byteOfState_def Let_def xor.assoc)

lemma length_fold_keep:
  "(\<And>i s. length (f i s) = length s) \<Longrightarrow> length (fold f xs s) = length s"
  by (induction xs arbitrary: s) simp_all

lemma length_layers [simp]:
  "length (subBytes st) = length st"
  "length (shiftRows st) = length st"
  "length (mixColumns st) = length st"
  "length (addRoundKey st k) = length st"
  "length (loadToState inp st) = length st"
  "length (loadFromState st' out) = length out"
  by (simp_all only: subBytes_def shiftRows_def mixColumns_def addRoundKey_def loadToState_def
      loadFromState_def Let_def length_fold_keep length_list_update)



section \<open>Multiplication in GF(2^8)\<close>

text \<open>\<open>xTimes\<close> is multiplication by the polynomial \<open>x\<close>; it is linear over xor.\<close>

lemma xTimes_eq: "xTimes i = push_bit 1 i XOR (if bit i 7 then 0x1b else 0)"
proof -
  have "(i AND 0x80 \<noteq> 0) = bit i 7"
    by (simp add: bit_iff_and_push_bit_not_eq_0)
  then show ?thesis by (simp add: xTimes_def Let_def)
qed

lemma xTimes_xor: "xTimes (a XOR b) = xTimes a XOR xTimes b"
  by (auto simp: xTimes_eq bit_xor_iff ac_simps)

text \<open>The sum that the loop of \<open>mult\<close> builds from the low \<open>n\<close> bits of the first factor.\<close>

primrec xtimes_sum :: "u8 \<Rightarrow> u8 \<Rightarrow> nat \<Rightarrow> u8" where
  "xtimes_sum a i 0 = 0"
| "xtimes_sum a i (Suc n) =
     (if bit a 0 then i else 0) XOR xtimes_sum (drop_bit 1 a) (xTimes i) n"

lemma xtimes_sum_0 [simp]: "xtimes_sum 0 i n = 0"
  by (induction n arbitrary: i) simp_all

lemma and_1_bit: "(a AND 1 \<noteq> 0) = bit (a :: u8) 0"
  by (simp add: and_one_eq bit_0 odd_iff_mod_2_eq_one)

lemma mult_loop_eq:
  "unat mul < 2 ^ n \<Longrightarrow> mult_loop mul i r = r XOR xtimes_sum mul (xTimes i) n"
proof (induction n arbitrary: mul i r)
  case 0
  then show ?case by (simp add: mult_loop.simps unat_eq_zero)
next
  case (Suc n)
  show ?case
  proof (cases "mul = 0")
    case True
    then show ?thesis by (simp add: mult_loop.simps)
  next
    case False
    have "unat (drop_bit 1 mul) < 2 ^ n"
      using Suc.prems by (simp add: drop_bit_eq_div unat_div)
    then have "mult_loop (drop_bit 1 mul) (xTimes i) r'
        = r' XOR xtimes_sum (drop_bit 1 mul) (xTimes (xTimes i)) n" for r'
      by (rule Suc.IH)
    then show ?thesis
      using False by (subst mult_loop.simps) (simp add: Let_def and_1_bit xor.assoc)
  qed
qed

lemma mult_xtimes_sum_7: "mult a i = (if bit a 0 then i else 0) XOR xtimes_sum (drop_bit 1 a) (xTimes i) 7"
proof -
  have "unat a < 2 ^ LENGTH(8)" by (rule unsigned_less)
  then have "unat (drop_bit 1 a) < 2 ^ 7" by (simp add: drop_bit_eq_div unat_div)
  from mult_loop_eq [OF this] show ?thesis by (simp add: mult_def Let_def and_1_bit)
qed

lemma mult_xtimes_sum: "mult a i = xtimes_sum a i 8"
proof -
  have "(8 :: nat) = Suc 7" by simp
  then show ?thesis by (simp only: mult_xtimes_sum_7 xtimes_sum.simps)
qed

lemma xor_self_left [simp]: "(a :: u8) XOR (a XOR b) = b"
  by (simp add: xor.assoc [symmetric])

lemma xtimes_sum_numeral [simp]:
  "xtimes_sum a i (numeral n) =
     (if bit a 0 then i else 0) XOR xtimes_sum (drop_bit 1 a) (xTimes i) (pred_numeral n)"
  by (simp add: numeral_eq_Suc)

lemma mult_consts:
  "mult 2 i = xTimes i"
  "mult 3 i = i XOR xTimes i"
  "mult 0x9 i = i XOR xTimes (xTimes (xTimes i))"
  "mult 0xb i = i XOR xTimes i XOR xTimes (xTimes (xTimes i))"
  "mult 0xd i = i XOR xTimes (xTimes i) XOR xTimes (xTimes (xTimes i))"
  "mult 0xe i = xTimes i XOR xTimes (xTimes i) XOR xTimes (xTimes (xTimes i))"
  unfolding mult_xtimes_sum by (simp_all add: xor.assoc)

text \<open>The two mixing matrices are inverse to each other, entry by entry.\<close>

lemma mix_inverse:
  fixes a b c d :: u8
  defines "p \<equiv> mult 2 a XOR mult 3 b XOR c XOR d"
    and "q \<equiv> a XOR mult 2 b XOR mult 3 c XOR d"
    and "r \<equiv> a XOR b XOR mult 2 c XOR mult 3 d"
    and "s \<equiv> mult 3 a XOR b XOR c XOR mult 2 d"
  shows "mult 0xe p XOR mult 0xb q XOR mult 0xd r XOR mult 0x9 s = a"
    and "mult 0x9 p XOR mult 0xe q XOR mult 0xb r XOR mult 0xd s = b"
    and "mult 0xd p XOR mult 0x9 q XOR mult 0xe r XOR mult 0xb s = c"
    and "mult 0xb p XOR mult 0xd q XOR mult 0x9 r XOR mult 0xe s = d"
  unfolding p_def q_def r_def s_def
  by (simp_all add: mult_consts xTimes_xor ac_simps)


definition mix_column :: "u8 \<Rightarrow> u8 \<Rightarrow> u8 \<Rightarrow> u8 \<Rightarrow> u8 list" where
  "mix_column a b c d =
     [mult 2 a XOR mult 3 b XOR c XOR d, a XOR mult 2 b XOR mult 3 c XOR d,
      a XOR b XOR mult 2 c XOR mult 3 d, mult 3 a XOR b XOR c XOR mult 2 d]"

definition inv_mix_column :: "u8 \<Rightarrow> u8 \<Rightarrow> u8 \<Rightarrow> u8 \<Rightarrow> u8 list" where
  "inv_mix_column a b c d =
     [mult 0xe a XOR mult 0xb b XOR mult 0xd c XOR mult 0x9 d,
      mult 0x9 a XOR mult 0xe b XOR mult 0xb c XOR mult 0xd d,
      mult 0xd a XOR mult 0x9 b XOR mult 0xe c XOR mult 0xb d,
      mult 0xb a XOR mult 0xd b XOR mult 0x9 c XOR mult 0xe d]"

text \<open>Both loops transform the four columns independently of each other.\<close>

definition map_columns :: "(u8 \<Rightarrow> u8 \<Rightarrow> u8 \<Rightarrow> u8 \<Rightarrow> u8 list) \<Rightarrow> block \<Rightarrow> block" where
  "map_columns f state =
     fold (\<lambda>column st.
       let storedColumn = map (\<lambda>row. st ! byteOfState row column) [0..<BLOCK_ROWS];
         c = f (storedColumn ! 0) (storedColumn ! 1) (storedColumn ! 2) (storedColumn ! 3);
         st = st[byteOfState 0 column := c ! 0]; st = st[byteOfState 1 column := c ! 1];
         st = st[byteOfState 2 column := c ! 2]; st = st[byteOfState 3 column := c ! 3]
       in st) [0..<BLOCK_COLUMNS] state"

lemma map_columns_16:
  "map_columns f [b0, b1, b2, b3, b4, b5, b6, b7, b8, b9, b10, b11, b12, b13, b14, b15] =
     [f b0 b4 b8 b12 ! 0, f b1 b5 b9 b13 ! 0, f b2 b6 b10 b14 ! 0, f b3 b7 b11 b15 ! 0,
      f b0 b4 b8 b12 ! 1, f b1 b5 b9 b13 ! 1, f b2 b6 b10 b14 ! 1, f b3 b7 b11 b15 ! 1,
      f b0 b4 b8 b12 ! 2, f b1 b5 b9 b13 ! 2, f b2 b6 b10 b14 ! 2, f b3 b7 b11 b15 ! 2,
      f b0 b4 b8 b12 ! 3, f b1 b5 b9 b13 ! 3, f b2 b6 b10 b14 ! 3, f b3 b7 b11 b15 ! 3]"
  by (simp add: map_columns_def aes_consts byteOfState_def Let_def)

lemma mixColumns_map_columns:
  "mixColumns = map_columns mix_column" "invMixColumns = map_columns inv_mix_column"
  unfolding mixColumns_def invMixColumns_def map_columns_def Let_def fun_eq_iff
  by (simp_all only: mix_column_def inv_mix_column_def nth_Cons_0 nth_Cons_numeral pred_numeral_simps
      One_nat_def nth_Cons_Suc numeral_2_eq_2 numeral_3_eq_3 simp_thms)

lemma inv_mix_column:
  "inv_mix_column (mix_column a b c d ! 0) (mix_column a b c d ! Suc 0)
     (mix_column a b c d ! 2) (mix_column a b c d ! 3) = [a, b, c, d]"
  using mix_inverse [of a b c d] by (simp add: mix_column_def inv_mix_column_def)

lemma invMixColumns_mixColumns: "length st = 16 \<Longrightarrow> invMixColumns (mixColumns st) = st"
  by (elim length_16E) (simp add: mixColumns_map_columns map_columns_16 inv_mix_column)


section \<open>Decryption inverts encryption\<close>

text \<open>
  An iterated cipher: \<open>G r\<close> is round \<open>r\<close> of encryption, \<open>H r\<close> round \<open>r\<close> of decryption, and
  \<open>T\<close> the half round by which the two are shifted against each other. Running the
  decryption rounds in reverse undoes any sequence of encryption rounds.
\<close>

locale iterated_cipher =
  fixes T :: "'b \<Rightarrow> 'b" and G H :: "'r \<Rightarrow> 'b \<Rightarrow> 'b" and ok :: "'b \<Rightarrow> bool"
  assumes ok_round: "ok u \<Longrightarrow> ok (G r u)"
    and undo_round: "ok u \<Longrightarrow> H r (T (G r u)) = T u"
begin

lemma ok_rounds: "ok v \<Longrightarrow> ok (fold G rs v)"
  by (induction rs arbitrary: v) (simp_all add: ok_round)

lemma undo_rounds: "ok v \<Longrightarrow> fold H (rev rs) (T (fold G rs v)) = T v"
  by (induction rs arbitrary: v) (simp_all add: ok_round undo_round)

end

definition encrypt_round :: "u32 list \<Rightarrow> nat \<Rightarrow> block \<Rightarrow> block" where
  "encrypt_round rk r st = addRoundKey (mixColumns (shiftRows (subBytes st))) (round_key rk r)"

definition decrypt_round :: "u32 list \<Rightarrow> nat \<Rightarrow> block \<Rightarrow> block" where
  "decrypt_round rk r st = invMixColumns (addRoundKey (invSubBytes (invShiftRows st)) (round_key rk r))"

lemmas layer_inverses =
  invSubBytes_subBytes invShiftRows_shiftRows invMixColumns_mixColumns addRoundKey_cancel

interpretation aes_rounds: iterated_cipher "\<lambda>st. shiftRows (subBytes st)"
  "encrypt_round rk" "decrypt_round rk" "\<lambda>st. length st = 16"
  by unfold_locales (simp_all add: encrypt_round_def decrypt_round_def layer_inverses)

lemma aes_encrypt_rounds:
  "aes_encrypt inp rk keySize =
     (let v = addRoundKey (loadToState inp (replicate 16 0)) (round_key rk 0);
        u = fold (encrypt_round rk) [1..<6 + keySize] v
      in loadFromState (addRoundKey (shiftRows (subBytes u)) (round_key rk (6 + keySize))) (replicate 16 0))"
  by (simp add: aes_encrypt_def encrypt_round_def [abs_def] Let_def BLOCK_LENGTH_def)

lemma aes_decrypt_rounds:
  "aes_decrypt inp rk keySize =
     (let v = addRoundKey (loadToState inp (replicate 16 0)) (round_key rk (6 + keySize));
        u = fold (decrypt_round rk) (rev [1..<6 + keySize]) v
      in loadFromState (addRoundKey (invSubBytes (invShiftRows u)) (round_key rk 0)) (replicate 16 0))"
  by (simp add: aes_decrypt_def decrypt_round_def [abs_def] Let_def BLOCK_LENGTH_def)

lemma length_aes_encrypt [simp]: "length (aes_encrypt inp rk keySize) = 16"
  by (simp add: aes_encrypt_rounds Let_def)

lemma aes_roundtrip_aux:
  assumes "length inp = 16"
  shows "aes_decrypt (aes_encrypt inp rk keySize) rk keySize = inp"
proof -
  define rs where "rs = [1..<6 + keySize]"
  define v where "v = addRoundKey (loadToState inp (replicate 16 0)) (round_key rk 0)"
  have v: "length v = 16" by (simp add: v_def)
  note undo = aes_rounds.undo_rounds [OF v, of rk rs] and u = aes_rounds.ok_rounds [OF v, of rk rs]
  have "aes_decrypt (aes_encrypt inp rk keySize) rk keySize
      = loadFromState (addRoundKey v (round_key rk 0)) (replicate 16 0)"
    unfolding aes_decrypt_rounds aes_encrypt_rounds Let_def v_def [symmetric] rs_def [symmetric]
    using v u by (simp add: loadToState_loadFromState layer_inverses undo)
  with assms show ?thesis by (simp add: v_def layer_inverses loadFromState_loadToState)
qed


section \<open>The key schedule\<close>

text \<open>The word that FIPS-197 xors into word \<open>i\<close> of the key schedule.\<close>

definition schedule_word :: "nat \<Rightarrow> u32 list \<Rightarrow> nat \<Rightarrow> u32" where
  "schedule_word nk w i =
     (if i mod nk = 0 then subWord (rotWord (w ! (i - 1))) XOR rcon ! (i div nk)
      else if 6 < nk \<and> i mod nk = 4 then subWord (w ! (i - 1)) else w ! (i - 1))"

lemma fold_load_key:
  "n \<le> length rk \<Longrightarrow> n \<le> length key \<Longrightarrow>
   fold (\<lambda>i rk. rk[i := key ! i]) [0..<n] rk = take n key @ drop n rk"
proof (induction n)
  case (Suc n)
  then show ?case
    by (simp add: list_update_append take_Suc_conv_app_nth Cons_nth_drop_Suc [symmetric])
qed simp

lemma length_rcon [simp]: "length rcon = 11"
  by (simp add: rcon_def)

lemma keyExpansion_step_eq:
  "0 < nk \<Longrightarrow> i div nk < 11 \<Longrightarrow>
   keyExpansion_step nk i rk = Inr (rk[i := rk ! (i - nk) XOR schedule_word nk rk i])"
  by (simp add: keyExpansion_step_def schedule_word_def Let_def)

lemma schedule_word_cong: "0 < i \<Longrightarrow> (w ! (i - 1)) = (w' ! (i - 1)) \<Longrightarrow> schedule_word nk w i = schedule_word nk w' i"
  by (simp add: schedule_word_def)

lemma keyExpansion_loop:
  assumes "0 < nk" and "nk \<le> n" and "n \<le> length rk" and "length rk \<le> 11 * nk"
  shows "\<exists>w. for_res [nk..<n] (keyExpansion_step nk) rk = Inr w \<and> length w = length rk \<and> take nk w = take nk rk
     \<and> (\<forall>i. nk \<le> i \<longrightarrow> i < n \<longrightarrow> w ! i = w ! (i - nk) XOR schedule_word nk w i)"
  using assms(2,3)
proof (induction n rule: dec_induct)
  case base
  then show ?case by simp
next
  case (step n)
  then obtain w where w: "for_res [nk..<n] (keyExpansion_step nk) rk = Inr w" "length w = length rk" "take nk w = take nk rk"
    and rec: "\<And>i. nk \<le> i \<Longrightarrow> i < n \<Longrightarrow> w ! i = w ! (i - nk) XOR schedule_word nk w i"
    by (meson Suc_leD)
  define w' where "w' = w[n := w ! (n - nk) XOR schedule_word nk w n]"
  have "n div nk < 11" using step.prems assms(1,4) by (simp add: div_less_iff_less_mult)
  then have "for_res [nk..<Suc n] (keyExpansion_step nk) rk = Inr w'"
    using w(1) step.hyps assms(1) by (simp add: for_res_append keyExpansion_step_eq w'_def)
  moreover have old: "w' ! j = w ! j" if "j \<noteq> n" for j using that by (simp add: w'_def)
  have "w' ! i = w' ! (i - nk) XOR schedule_word nk w' i" if "nk \<le> i" "i < Suc n" for i
  proof -
    have "0 < i" "i - 1 \<noteq> n" "i - nk \<noteq> n" using that assms(1) by auto
    then have "schedule_word nk w' i = schedule_word nk w i" "w' ! (i - nk) = w ! (i - nk)"
      by (auto intro!: schedule_word_cong old)
    then show ?thesis using rec [of i] that old [of i] step.prems w(2) by (cases "i = n") (auto simp: w'_def)
  qed
  ultimately show ?case using w step.hyps by (intro exI [of _ w']) (auto simp: w'_def take_update_cancel)
qed


section \<open>Properties\<close>

text \<open>
  C4: decrypting with the same round keys gives back the block that was encrypted, for every
  content of the round-key array and every number of rounds.
\<close>

theorem aes_decrypt_encrypt:
  assumes "length inp = BLOCK_LENGTH"
  shows "aes_decrypt (aes_encrypt inp roundKeys keySize) roundKeys keySize = inp"
  using assms by (simp add: aes_roundtrip_aux BLOCK_LENGTH_def)

theorem aes_decrypt_encrypt_witness:
  "aes_decrypt (aes_encrypt (replicate 16 7) (replicate 60 5) 8) (replicate 60 5) 8 = replicate 16 7"
  by (rule aes_decrypt_encrypt) (simp add: BLOCK_LENGTH_def)

text \<open>
  C13: \<open>keyExpansion\<close> succeeds for the three key sizes of the standard; it keeps the key as the
  first words of the schedule, and every later word is the word one key length earlier xored
  with the word before it, transformed by \<open>schedule_word\<close> as FIPS-197 prescribes.
\<close>

theorem keyExpansion_schedule:
  assumes "keySize \<in> {AES_128_KEY_SIZE, AES_192_KEY_SIZE, AES_256_KEY_SIZE}"
    and "length key = keySize" and "length roundKeys = 4 * (keySize + 7)"
  shows "\<exists>w. keyExpansion key roundKeys keySize = Inr w \<and> length w = 4 * (keySize + 7)
     \<and> take keySize w = key
     \<and> (\<forall>i. keySize \<le> i \<longrightarrow> i < 4 * (keySize + 7) \<longrightarrow>
           w ! i = w ! (i - keySize) XOR schedule_word keySize w i)"
proof -
  define rk where "rk = take keySize key @ drop keySize roundKeys"
  have nk: "keySize \<in> {4, 6, 8}"
    using assms(1) by (auto simp: AES_128_KEY_SIZE_def AES_192_KEY_SIZE_def AES_256_KEY_SIZE_def)
  have len: "length rk = 4 * (keySize + 7)" using assms(2,3) by (simp add: rk_def)
  have "fold (\<lambda>i rk. rk[i := key ! i]) [0..<keySize] roundKeys = rk"
    unfolding rk_def using assms(2,3) by (intro fold_load_key) auto
  then have "keyExpansion key roundKeys keySize
      = for_res [keySize..<4 * (keySize + 7)] (keyExpansion_step keySize) rk"
    by (simp add: keyExpansion_def BLOCK_COLUMNS_def Let_def add.commute)
  moreover have "0 < keySize" "keySize \<le> 4 * (keySize + 7)" "4 * (keySize + 7) \<le> 11 * keySize"
    using nk by auto
  moreover have "take keySize rk = key" using assms(2) by (simp add: rk_def)
  ultimately show ?thesis
    using keyExpansion_loop [of keySize "4 * (keySize + 7)" rk] len by simp
qed

theorem keyExpansion_schedule_witness:
  "\<exists>w. keyExpansion (replicate 8 0) (replicate 60 0) 8 = Inr w \<and> length w = 60"
  using keyExpansion_schedule [of 8 "replicate 8 0" "replicate 60 0"]
  by (auto simp: AES_256_KEY_SIZE_def)

section \<open>Multiplication of polynomials over GF(2)\<close>

text \<open>
  A number stands for the polynomial whose coefficients are its bits. The coefficient of a product at \<open>x ^ k\<close> is the
  parity of the pairs of coefficients whose degrees add up to \<open>k\<close>. A byte is the product of two others in GF(2^8) when
  it is the product of the polynomials up to a multiple of \<open>x^8 + x^4 + x^3 + x + 1\<close>, the number \<open>0x11B\<close>.
\<close>

definition poly_coeff :: "nat \<Rightarrow> nat \<Rightarrow> nat \<Rightarrow> bool" where
  "poly_coeff p q k = odd (card {i. i \<le> k \<and> bit p i \<and> bit q (k - i)})"

definition field_product :: "u8 \<Rightarrow> u8 \<Rightarrow> u8 \<Rightarrow> bool" where
  "field_product a b r \<longleftrightarrow>
     (\<exists>m. \<forall>k. poly_coeff (unat a) (unat b) k \<longleftrightarrow> poly_coeff m 0x11B k \<noteq> bit r k)"

lemma odd_card_xor:
  assumes "finite {i. P i}" and "finite {i. Q i}"
  shows "odd (card {i. P i \<noteq> Q i}) \<longleftrightarrow> odd (card {i. P i}) \<noteq> odd (card {i. Q i})"
proof -
  let ?A = "{i. P i \<and> \<not> Q i}" and ?B = "{i. Q i \<and> \<not> P i}" and ?C = "{i. P i \<and> Q i}"
  have f: "finite ?A" "finite ?B" "finite ?C"
    using assms by (auto intro: finite_subset)
  have u: "{i. P i \<noteq> Q i} = ?A \<union> ?B" "{i. P i} = ?A \<union> ?C" "{i. Q i} = ?B \<union> ?C" by auto
  have c: "card (?A \<union> ?B) = card ?A + card ?B" "card (?A \<union> ?C) = card ?A + card ?C"
      "card (?B \<union> ?C) = card ?B + card ?C"
    by (rule card_Un_disjoint; use f in blast)+
  have "odd (x + y) \<longleftrightarrow> odd (x + z) \<noteq> odd (y + z)" for x y z :: nat by auto
  then show ?thesis unfolding u c by blast
qed

lemma poly_coeff_xor:
  "poly_coeff (p XOR p') q k \<longleftrightarrow> poly_coeff p q k \<noteq> poly_coeff p' q k"
  "poly_coeff p (q XOR q') k \<longleftrightarrow> poly_coeff p q k \<noteq> poly_coeff p q' k"
proof -
  let ?S = "\<lambda>p q i. i \<le> k \<and> bit (p :: nat) i \<and> bit (q :: nat) (k - i)"
  have f: "finite {i. ?S p q i}" for p q by simp
  have 1: "{i. ?S (p XOR p') q i} = {i. ?S p q i \<noteq> ?S p' q i}"
    and 2: "{i. ?S p (q XOR q') i} = {i. ?S p q i \<noteq> ?S p q' i}"
    by (auto simp: bit_xor_iff)
  show "poly_coeff (p XOR p') q k \<longleftrightarrow> poly_coeff p q k \<noteq> poly_coeff p' q k"
    unfolding poly_coeff_def 1 by (rule odd_card_xor [OF f f])
  show "poly_coeff p (q XOR q') k \<longleftrightarrow> poly_coeff p q k \<noteq> poly_coeff p q' k"
    unfolding poly_coeff_def 2 by (rule odd_card_xor [OF f f])
qed

lemma poly_coeff_0 [simp]: "\<not> poly_coeff 0 q k" "\<not> poly_coeff p 0 k"
  by (simp_all add: poly_coeff_def)

lemma poly_coeff_one_pair:
  assumes "\<And>i. i \<le> k \<Longrightarrow> bit p i \<Longrightarrow> bit q (k - i) \<Longrightarrow> i = j" and "j \<le> k"
  shows "poly_coeff p q k \<longleftrightarrow> bit p j \<and> bit q (k - j)"
proof -
  have "{i. i \<le> k \<and> bit p i \<and> bit q (k - i)} = (if bit p j \<and> bit q (k - j) then {j} else {})"
  proof (cases "bit p j \<and> bit q (k - j)")
    case True
    then have "{i. i \<le> k \<and> bit p i \<and> bit q (k - i)} = {j}" using assms by blast
    then show ?thesis by (simp only: True simp_thms if_True)
  next
    case False
    then have "{i. i \<le> k \<and> bit p i \<and> bit q (k - i)} = {}" using assms by blast
    then show ?thesis by (simp only: False if_False)
  qed
  then show ?thesis unfolding poly_coeff_def by simp
qed

lemma poly_coeff_1: "poly_coeff 1 q k \<longleftrightarrow> bit q k"
  by (subst poly_coeff_one_pair [of k 1 q 0]) (simp_all add: bit_1_iff bit_Suc_0_iff)

text \<open>A factor \<open>x\<close> may be moved from one polynomial to the other.\<close>

lemma poly_coeff_shift: "poly_coeff (2 * p) q k \<longleftrightarrow> poly_coeff p (2 * q) k"
proof -
  have "{i. i \<le> k \<and> bit (2 * p) i \<and> bit q (k - i)} = Suc ` {i. i \<le> k \<and> bit p i \<and> bit (2 * q) (k - i)}"
  proof (rule set_eqI)
    fix i
    show "i \<in> {i. i \<le> k \<and> bit (2 * p) i \<and> bit q (k - i)} \<longleftrightarrow> i \<in> Suc ` {i. i \<le> k \<and> bit p i \<and> bit (2 * q) (k - i)}"
      by (cases i) (auto simp: bit_double_iff image_iff Suc_diff_Suc)
  qed
  then show ?thesis by (simp add: poly_coeff_def card_image)
qed

lemma bit_poly_bits: "bit (0x11B :: nat) n \<longleftrightarrow> n \<in> {0, 1, 3, 4, 8}"
proof (cases "n < 9")
  case True
  then have "n \<in> {0, 1, 2, 3, 4, 5, 6, 7, 8}" by auto
  then show ?thesis by (auto simp: bit_Suc_0_iff)
next
  case False
  then have "(2 :: nat) ^ 9 \<le> 2 ^ n" by (intro power_increasing) auto
  then show ?thesis using False by (auto simp: bit_iff_odd)
qed

lemma bit_reduction: "bit (0x1B :: u8) n \<longleftrightarrow> n \<in> {0, 1, 3, 4}"
proof (cases "n < 8")
  case True
  then have "n \<in> {0, 1, 2, 3, 4, 5, 6, 7}" by auto
  then show ?thesis by (auto simp: bit_1_iff)
next
  case False
  then show ?thesis using bit_imp_le_length [of "0x1B :: u8" n] by auto
qed

lemma bit_xTimes:
  "bit (xTimes i) n \<longleftrightarrow> n < 8 \<and> ((1 \<le> n \<and> bit i (n - 1)) \<noteq> (bit i 7 \<and> n \<in> {0, 1, 3, 4}))"
proof -
  have "bit (if bit i 7 then 0x1B else 0 :: u8) n \<longleftrightarrow> bit i 7 \<and> n \<in> {0, 1, 3, 4}"
    by (simp only: bit_reduction bit_0_eq split: if_split) simp
  moreover have "bit (push_bit 1 i) n \<longleftrightarrow> 1 \<le> n \<and> n < 8 \<and> bit i (n - 1)"
    by (simp only: bit_push_bit_iff) simp
  ultimately show ?thesis unfolding xTimes_eq bit_xor_iff by auto
qed

lemma unat_xTimes: "2 * unat i = unat (xTimes i) XOR (if bit i 7 then 0x11B else 0)"
proof (rule bit_eqI)
  fix n
  have "\<not> bit i m" if "8 \<le> m" for m using that bit_imp_le_length [of i m] by auto
  then have "(1 \<le> n \<and> bit i (n - 1)) \<longleftrightarrow> bit (xTimes i) n \<noteq> (bit i 7 \<and> n \<in> {0, 1, 3, 4, 8})"
    unfolding bit_xTimes by (cases "n < 8"; cases "n = 8") auto
  then show "bit (2 * unat i) n \<longleftrightarrow> bit (unat (xTimes i) XOR (if bit i 7 then 0x11B else 0)) n"
    by (cases "bit i 7") (auto simp: bit_xor_iff bit_double_iff bit_unsigned_iff bit_poly_bits)
qed


lemma xtimes_sum_product:
  "unat a < 2 ^ n \<Longrightarrow>
     \<exists>m. \<forall>k. poly_coeff (unat a) (unat i) k \<longleftrightarrow> poly_coeff m 0x11B k \<noteq> bit (xtimes_sum a i n) k"
proof (induction n arbitrary: a i)
  case 0
  then show ?case by (intro exI [of _ 0]) (simp add: unat_eq_zero)
next
  case (Suc n)
  let ?h = "drop_bit 1 a"
  have half: "unat ?h < 2 ^ n" using Suc.prems by (simp add: drop_bit_eq_div unat_div)
  obtain m where m: "\<And>k. poly_coeff (unat ?h) (unat (xTimes i)) k \<longleftrightarrow>
      poly_coeff m 0x11B k \<noteq> bit (xtimes_sum ?h (xTimes i) n) k"
    using Suc.IH [OF half, of "xTimes i"] by blast
  have a: "unat a = (if bit a 0 then 1 else 0) XOR 2 * unat ?h"
  proof (rule bit_eqI)
    fix j
    show "bit (unat a) j \<longleftrightarrow> bit ((if bit a 0 then 1 else 0) XOR 2 * unat ?h) j"
      by (cases j) (auto simp: bit_xor_iff bit_double_iff bit_unsigned_iff bit_1_iff bit_Suc_0_iff bit_drop_bit_eq)
  qed
  have "poly_coeff (unat a) (unat i) k \<longleftrightarrow>
      poly_coeff (m XOR (if bit i 7 then unat ?h else 0)) 0x11B k \<noteq> bit (xtimes_sum a i (Suc n)) k" for k
  proof -
    have "poly_coeff (unat a) (unat i) k \<longleftrightarrow> (bit a 0 \<and> bit i k) \<noteq> poly_coeff (2 * unat ?h) (unat i) k"
      by (subst a) (simp add: poly_coeff_xor poly_coeff_1 [simplified] bit_unsigned_iff)
    moreover have "poly_coeff (2 * unat ?h) (unat i) k \<longleftrightarrow>
        poly_coeff (unat ?h) (unat (xTimes i)) k \<noteq> (bit i 7 \<and> poly_coeff (unat ?h) 0x11B k)"
      unfolding poly_coeff_shift unat_xTimes [of i] poly_coeff_xor by simp
    moreover have "poly_coeff (m XOR (if bit i 7 then unat ?h else 0)) 0x11B k \<longleftrightarrow>
        poly_coeff m 0x11B k \<noteq> (bit i 7 \<and> poly_coeff (unat ?h) 0x11B k)"
      unfolding poly_coeff_xor by simp
    moreover have "bit (xtimes_sum a i (Suc n)) k \<longleftrightarrow>
        (bit a 0 \<and> bit i k) \<noteq> bit (xtimes_sum ?h (xTimes i) n) k"
      by (simp add: bit_xor_iff)
    ultimately show ?thesis unfolding m by metis
  qed
  then show ?case by blast
qed

lemma multiple_high_bit:
  assumes "m \<noteq> 0"
  shows "\<exists>k\<ge>8. poly_coeff m 0x11B k"
proof -
  have "j \<le> m" if "bit m j" for j
  proof -
    have "2 ^ j \<le> m" using that by (cases "m < 2 ^ j") (auto simp: bit_iff_odd)
    then show ?thesis using less_exp [of j] by linarith
  qed
  then have fin: "finite {j. bit m j}" by (auto intro: finite_subset [of _ "{..m}"])
  obtain j where "bit m j" using assms bit_eqI [of m 0] by auto
  define t where "t = Max {j. bit m j}"
  have t: "bit m t" "bit m i \<Longrightarrow> i \<le> t" for i
    using Max_in [OF fin] Max_ge [OF fin] \<open>bit m j\<close> by (auto simp: t_def)
  have "poly_coeff m 0x11B (t + 8) \<longleftrightarrow> bit m t \<and> bit (0x11B :: nat) (t + 8 - t)"
    by (rule poly_coeff_one_pair) (use t(2) in \<open>fastforce simp: bit_poly_bits\<close>)+
  then show ?thesis using t(1) by (intro exI [of _ "t + 8"]) (simp add: bit_Suc_0_iff)
qed

lemma field_product_unique:
  assumes "field_product a b r" and "field_product a b r'"
  shows "r = r'"
proof -
  obtain m m' where "\<And>k. poly_coeff (unat a) (unat b) k \<longleftrightarrow> poly_coeff m 0x11B k \<noteq> bit r k"
      "\<And>k. poly_coeff (unat a) (unat b) k \<longleftrightarrow> poly_coeff m' 0x11B k \<noteq> bit r' k"
    using assms unfolding field_product_def by metis
  then have d: "poly_coeff (m XOR m') 0x11B k \<longleftrightarrow> bit (r XOR r') k" for k
    unfolding poly_coeff_xor bit_xor_iff by metis
  have "m XOR m' = 0"
    using multiple_high_bit [of "m XOR m'"] d bit_imp_le_length [of "r XOR r'"] by fastforce
  then have "r XOR r' = 0" using d by (intro bit_eqI) simp
  then show ?thesis by (metis xor_self_eq xor.right_neutral xor.assoc)
qed

text \<open>
  C27: \<open>mult\<close> is multiplication in GF(2^8): a byte is the product of two bytes, as polynomials modulo
  \<open>x^8 + x^4 + x^3 + x + 1\<close>, exactly when it is the one that \<open>mult\<close> computes.
\<close>

theorem mult_is_field_product: "field_product a b r \<longleftrightarrow> r = mult a b"
proof
  have "unat a < 2 ^ 8" using unsigned_less [of a] by simp
  from xtimes_sum_product [OF this, of b] have p: "field_product a b (mult a b)"
    unfolding field_product_def mult_xtimes_sum by blast
  show "r = mult a b" if "field_product a b r" using that p by (rule field_product_unique)
  show "field_product a b r" if "r = mult a b" using that p by simp
qed

end
