(* ===== verification/Ctr.thy ===== *)
theory Ctr
  imports Aes CString
begin

text \<open>
  Counter-mode encryption, \<open>src/ctr.c\<close>. The message, the output, the pseudo-random sequence
  and the key are pointers into memory; the round keys and the encrypted sequence are local
  arrays. The encrypted sequence has room for one block only, but block number \<open>k\<close> is
  written at offset \<open>16 * k\<close>, so a message of more than one block overruns it.
\<close>

section \<open>Definitions\<close>

definition ctr_step ::
  "u32 \<Rightarrow> u32 \<Rightarrow> u32 \<Rightarrow> u32 list \<Rightarrow> nat \<Rightarrow> nat \<Rightarrow> memory \<times> u8 list \<Rightarrow> (memory \<times> u8 list) res" where
  "ctr_step inp out sequence roundKeys keySize index st =
     (case st of (m, encrypted_sequence) \<Rightarrow>
        bind_res
          (if index mod BLOCK_LENGTH = 0 then
             (if index + BLOCK_LENGTH \<le> length encrypted_sequence
              then Inr (aes_encrypt (load_bytes m (sequence + of_nat index) BLOCK_LENGTH) roundKeys keySize
                        @ drop (index + BLOCK_LENGTH) encrypted_sequence)
              else Inl (Fault ''ctr: encrypted_sequence''))
           else Inr encrypted_sequence)
          (\<lambda>encrypted_sequence.
             Inr (m(out + of_nat index := encrypted_sequence ! index XOR m (inp + of_nat index)),
                  encrypted_sequence)))"

definition ctr :: "memory \<Rightarrow> u32 \<Rightarrow> u32 \<Rightarrow> u32 \<Rightarrow> u32 \<Rightarrow> u32 \<Rightarrow> nat \<Rightarrow> memory res" where
  "ctr m inp out sequence sz key keySize =
     (let rounds = keySize + 6;
        roundKeys = replicate (BLOCK_COLUMNS * (rounds + 1)) 0;
        encrypted_sequence = replicate BLOCK_LENGTH 0
      in bind_res (keyExpansion (map (\<lambda>i. load32 m (key + 4 * of_nat i)) [0..<keySize]) roundKeys keySize)
           (\<lambda>roundKeys.
         bind_res (for_res [0..<unat sz] (ctr_step inp out sequence roundKeys keySize) (m, encrypted_sequence))
           (\<lambda>(m, _). Inr m)))"

definition ctr_encrypt :: "memory \<Rightarrow> u32 \<Rightarrow> u32 \<Rightarrow> u32 \<Rightarrow> u32 \<Rightarrow> u32 \<Rightarrow> nat \<Rightarrow> memory res" where
  "ctr_encrypt m message ciphertext sz sequence key keySize =
     ctr m message ciphertext sequence sz key keySize"

definition ctr_decrypt :: "memory \<Rightarrow> u32 \<Rightarrow> u32 \<Rightarrow> u32 \<Rightarrow> u32 \<Rightarrow> u32 \<Rightarrow> nat \<Rightarrow> memory res" where
  "ctr_decrypt m ciphertext message sz sequence key keySize =
     ctr m ciphertext message sequence sz key keySize"


section \<open>One block\<close>

text \<open>The key stream of the only block that fits.\<close>

definition key_words :: "memory \<Rightarrow> u32 \<Rightarrow> nat \<Rightarrow> u32 list" where
  "key_words m key keySize = map (\<lambda>i. load32 m (key + 4 * of_nat i)) [0..<keySize]"

definition xor_bytes :: "u8 list \<Rightarrow> u8 list \<Rightarrow> u8 list" where
  "xor_bytes xs ys = map2 (XOR) xs ys"

lemma xor_bytes_cancel: "length xs \<le> length ks \<Longrightarrow> xor_bytes (take (length xs) ks) (xor_bytes (take (length xs) ks) xs) = xs"
  by (rule nth_equalityI) (simp_all add: xor_bytes_def)

text \<open>
  The loop from index 1 on, once the key stream \<open>ks\<close> is there: it may run in place, or from
  a source that the output does not touch.
\<close>

lemma ctr_loop:
  assumes "n \<le> 16" "length ks = 16"
    and "inp = out \<or> (\<forall>x. in_range out n x \<longrightarrow> \<not> in_range inp n x)"
    and "0 < n" and "load_bytes m sequence 16 = sq" and "ks = aes_encrypt sq rk keySize"
  shows "for_res [0..<n] (ctr_step inp out sequence rk keySize) (m, replicate 16 0)
     = Inr (store_bytes m out (xor_bytes (take n ks) (load_bytes m inp n)), ks)"
  using assms(1,3,4)
proof (induction n)
  case 0
  then show ?case by simp
next
  case (Suc n)
  let ?x = "\<lambda>k. xor_bytes (take k ks) (load_bytes m inp k)"
  have xs: "?x (Suc n) = ?x n @ [ks ! n XOR m (inp + of_nat n)]" "length (?x n) = n"
    using Suc.prems(1) assms(2) by (simp_all add: xor_bytes_def load_bytes_snoc take_Suc_conv_app_nth)
  show ?case
  proof (cases "n = 0")
    case True
    have "ctr_step inp out sequence rk keySize 0 (m, replicate 16 0) = Inr (m(out := ks ! 0 XOR m inp), ks)"
      using assms(2,5,6) by (simp add: ctr_step_def BLOCK_LENGTH_def)
    with True xs show ?thesis by (simp add: store_bytes_single xor_bytes_def fun_upd_def)
  next
    case False
    define m' where "m' = store_bytes m out (?x n)"
    have far: "inp = out \<or> (\<forall>x. in_range out n x \<longrightarrow> \<not> in_range inp n x)"
      using Suc.prems(2) in_range_mono [of _ n _ "Suc n"] by fastforce
    have IH: "for_res [0..<n] (ctr_step inp out sequence rk keySize) (m, replicate 16 0) = Inr (m', ks)"
      using Suc.IH far Suc.prems(1) False by (simp add: m'_def)
    have "\<not> in_range out n (inp + of_nat n)"
    proof (cases "inp = out")
      case True
      then show ?thesis using Suc.prems(1) by (simp add: in_range_def unat_of_nat)
    next
      case False
      have "in_range inp (Suc n) (inp + of_nat n)" using Suc.prems(1) by (intro in_range_offset_nat) simp_all
      with False Suc.prems(2) have "\<not> in_range out (Suc n) (inp + of_nat n)" by blast
      then show ?thesis using in_range_mono [of out n _ "Suc n"] by auto
    qed
    then have "m' (inp + of_nat n) = m (inp + of_nat n)" by (simp add: m'_def store_bytes_out xs(2))
    moreover have "n mod 16 \<noteq> 0" using False Suc.prems(1) by simp
    ultimately have "ctr_step inp out sequence rk keySize n (m', ks)
        = Inr (m'(out + of_nat n := ks ! n XOR m (inp + of_nat n)), ks)"
      by (simp add: ctr_step_def BLOCK_LENGTH_def)
    moreover have "m'(out + of_nat n := ks ! n XOR m (inp + of_nat n)) = store_bytes m out (?x (Suc n))"
      using store_bytes_snoc [of "?x n" m out] Suc.prems(1) by (simp add: m'_def xs)
    ultimately show ?thesis by (simp add: for_res_append IH)
  qed
qed


text \<open>The round keys come out of \<open>keyExpansion\<close> for AES-256.\<close>

lemma keyExpansion_256:
  assumes "length key = 8"
  obtains rk where "keyExpansion key (replicate 60 0) AES_256_KEY_SIZE = Inr rk"
proof -
  define r :: "u32 list" where "r = key @ replicate 52 0"
  have "fold (\<lambda>i rk. rk[i := key ! i]) [0..<8] (replicate 60 0) = r"
    using fold_load_key [of 8 "replicate 60 0" key] assms unfolding r_def
    by (simp del: upt_rec_numeral)
  moreover obtain rk where "for_res [8..<60] (keyExpansion_step 8) r = Inr rk"
    using keyExpansion_loop [of 8 60 r] assms by (auto simp: r_def simp del: upt_rec_numeral)
  ultimately have "keyExpansion key (replicate 60 0) AES_256_KEY_SIZE = Inr rk"
    by (simp add: keyExpansion_def AES_256_KEY_SIZE_def BLOCK_COLUMNS_def del: upt_rec_numeral)
  then show ?thesis by (rule that)
qed

definition key_stream :: "u32 list \<Rightarrow> u8 list \<Rightarrow> u8 list" where
  "key_stream key sq =
     (case keyExpansion key (replicate 60 0) AES_256_KEY_SIZE of
        Inr rk \<Rightarrow> aes_encrypt sq rk AES_256_KEY_SIZE | Inl _ \<Rightarrow> [])"

lemma length_key_stream: "length key = 8 \<Longrightarrow> length (key_stream key sq) = 16"
  by (rule keyExpansion_256 [of key]) (simp_all add: key_stream_def)

lemma ctr_one_block:
  assumes "unat sz \<le> 16" and "inp = out \<or> (\<forall>x. in_range out (unat sz) x \<longrightarrow> \<not> in_range inp (unat sz) x)"
  shows "ctr m inp out sequence sz key AES_256_KEY_SIZE = Inr (store_bytes m out
     (xor_bytes (take (unat sz) (key_stream (key_words m key 8) (load_bytes m sequence 16)))
        (load_bytes m inp (unat sz))))"
proof -
  have len: "length (key_words m key 8) = 8" by (simp add: key_words_def)
  obtain rk where rk: "keyExpansion (key_words m key 8) (replicate 60 0) AES_256_KEY_SIZE = Inr rk"
    using keyExpansion_256 [OF len] .
  define ks where "ks = aes_encrypt (load_bytes m sequence 16) rk AES_256_KEY_SIZE"
  have "for_res [0..<unat sz] (ctr_step inp out sequence rk AES_256_KEY_SIZE) (m, replicate 16 0)
      = Inr (store_bytes m out (xor_bytes (take (unat sz) ks) (load_bytes m inp (unat sz))),
          if unat sz = 0 then replicate 16 0 else ks)"
    using ctr_loop [OF assms(1) _ assms(2), of ks m sequence] unfolding ks_def
    by (cases "unat sz = 0") (simp_all add: xor_bytes_def store_bytes_Nil load_bytes_def)
  then show ?thesis
    using rk unfolding ctr_def Let_def key_words_def
    by (simp add: key_stream_def ks_def key_words_def [symmetric] AES_256_KEY_SIZE_def BLOCK_COLUMNS_def BLOCK_LENGTH_def
        del: upt_rec_numeral)
qed

lemma key_words_apart:
  assumes "apart a (length bs) key 32"
  shows "key_words (store_bytes m a bs) key 8 = key_words m key 8"
proof -
  have "load32 (store_bytes m a bs) (key + 4 * of_nat i) = load32 m (key + 4 * of_nat i)" if "i < 8" for i
  proof (rule load32_cong)
    fix x
    assume "in_range (key + 4 * of_nat i) 4 x"
    then have "in_range key 32 x" using that in_range_sub [of key "4 * i" 4 x 32] by simp
    then have "\<not> in_range a (length bs) x" using apart_in_range [OF assms, of x] by blast
    then show "store_bytes m a bs x = m x" by (rule store_bytes_out)
  qed
  then show ?thesis by (simp add: key_words_def)
qed

lemma ctr_step_total:
  "length (snd st) = 16 \<Longrightarrow> (\<exists>st'. ctr_step inp out sequence rk keySize i st = Inr st' \<and> length (snd st') = 16)
     \<or> ctr_step inp out sequence rk keySize i st = Inl (Fault ''ctr: encrypted_sequence'')"
  by (cases "i mod 16 = 0"; cases "i + 16 \<le> 16"; cases st) (simp_all add: ctr_step_def BLOCK_LENGTH_def)


section \<open>Properties\<close>

text \<open>
  C14: for a message of at most one block, decrypting what was encrypted with the same key and
  sequence gives back the message, also in place. The ciphertext may not overlap the sequence
  or the key, nor overlap the message partially.
\<close>

theorem ctr_roundtrip:
  assumes "unat sz \<le> 16"
    and "message = cipher \<or> apart cipher (unat sz) message (unat sz)"
    and "plain = cipher \<or> apart plain (unat sz) cipher (unat sz)"
    and "apart cipher (unat sz) sequence 16" and "apart cipher (unat sz) key 32"
  shows "\<exists>m1 m2. ctr_encrypt m message cipher sz sequence key AES_256_KEY_SIZE = Inr m1
     \<and> ctr_decrypt m1 cipher plain sz sequence key AES_256_KEY_SIZE = Inr m2
     \<and> load_bytes m2 plain (unat sz) = load_bytes m message (unat sz)"
proof -
  define n where "n = unat sz"
  define ks where "ks = key_stream (key_words m key 8) (load_bytes m sequence 16)"
  define ct where "ct = xor_bytes (take n ks) (load_bytes m message n)"
  define m1 where "m1 = store_bytes m cipher ct"
  have "length ks = 16" unfolding ks_def by (rule length_key_stream) (simp add: key_words_def)
  then have len: "length ct = n" using assms(1) by (simp add: ct_def xor_bytes_def n_def)
  have n: "n \<le> 2 ^ 32" using assms(1) by (simp add: n_def)
  have "ctr_encrypt m message cipher sz sequence key AES_256_KEY_SIZE = Inr m1"
    unfolding ctr_encrypt_def m1_def ct_def ks_def n_def
    using assms(2) apart_in_range by (intro ctr_one_block [OF assms(1)]) blast
  moreover have "key_stream (key_words m1 key 8) (load_bytes m1 sequence 16) = ks"
    using assms(4,5) len unfolding m1_def ks_def n_def
    by (simp add: load_bytes_apart key_words_apart)
  moreover have "load_bytes m1 cipher n = ct" unfolding m1_def using len n by (simp add: load_store_bytes)
  ultimately have "ctr_decrypt m1 cipher plain sz sequence key AES_256_KEY_SIZE
      = Inr (store_bytes m1 plain (xor_bytes (take n ks) ct))"
    using ctr_one_block [OF assms(1), of cipher plain m1 sequence key] assms(3) apart_in_range
    unfolding ctr_decrypt_def n_def by metis
  moreover have "xor_bytes (take n ks) ct = load_bytes m message n"
    using xor_bytes_cancel [of "load_bytes m message n" ks] \<open>length ks = 16\<close> assms(1)
    by (simp add: ct_def n_def)
  ultimately show ?thesis
    using \<open>ctr_encrypt m message cipher sz sequence key AES_256_KEY_SIZE = Inr m1\<close> n
    by (auto simp: n_def load_store_bytes)
qed

theorem ctr_roundtrip_witness:
  "\<exists>m1 m2. ctr_encrypt (\<lambda>x. ucast x) 100 200 16 300 400 AES_256_KEY_SIZE = Inr m1
     \<and> ctr_decrypt m1 200 500 16 300 400 AES_256_KEY_SIZE = Inr m2
     \<and> load_bytes m2 500 16 = load_bytes (\<lambda>x. ucast x) 100 16"
  using ctr_roundtrip [of 16 100 200 500 300 400] by (simp add: apart_def)

text \<open>
  C36: a message longer than one block makes \<open>ctr\<close> write past its local array of 16 bytes.
\<close>

theorem ctr_overruns:
  assumes "16 < unat sz"
  shows "ctr m inp out sequence sz key AES_256_KEY_SIZE = Inl (Fault ''ctr: encrypted_sequence'')"
proof -
  have len: "length (key_words m key 8) = 8" by (simp add: key_words_def)
  obtain rk where rk: "keyExpansion (key_words m key 8) (replicate 60 0) AES_256_KEY_SIZE = Inr rk"
    using keyExpansion_256 [OF len] .
  have "for_res [0..<unat sz] (ctr_step inp out sequence rk AES_256_KEY_SIZE) (m, replicate 16 0)
      = Inl (Fault ''ctr: encrypted_sequence'')"
    using assms
    by (intro for_res_error [where P = "\<lambda>st. length (snd st) = 16" and k = 16])
      (use ctr_step_total in \<open>auto simp: ctr_step_def BLOCK_LENGTH_def\<close>)
  then show ?thesis
    using rk unfolding ctr_def Let_def key_words_def
    by (simp add: AES_256_KEY_SIZE_def BLOCK_COLUMNS_def BLOCK_LENGTH_def del: upt_rec_numeral)
qed

theorem ctr_overruns_witness:
  "ctr (\<lambda>x. 0) 100 200 300 32 400 AES_256_KEY_SIZE = Inl (Fault ''ctr: encrypted_sequence'')"
  by (rule ctr_overruns) simp

end
