(* ===== verification/Prng.thy ===== *)
theory Prng
  imports Hash Ctr
begin

text \<open>
  The pseudo-random number generator of \<open>src/prng.c\<close>. The struct \<open>prng\<close> and the clock it
  reads extend the kernel state; its pages and the caller's buffer are in memory, and an
  array of page pointers is a page of little-endian words. \<open>ubshl\<close> is passed on to the hash.
\<close>

section \<open>Definitions\<close>

record prng_st = sha_st +
  counter :: "u32 list"
  pkey :: "u8 list"
  reseed_ctr :: i32
  last_reseed_ticks :: i32
  ticks :: u32
  tickslock :: spinlock

definition incr_counter :: "u32 list \<Rightarrow> u32 list" where
  "incr_counter c =
     (if c ! 0 \<noteq> 0xFFFFFFFF then c[0 := c ! 0 + 1]
      else if c ! 1 \<noteq> 0xFFFFFFFF then c[1 := c ! 1 + 1]
      else if c ! 2 \<noteq> 0xFFFFFFFF then c[2 := c ! 2 + 1]
      else if c ! 3 \<noteq> 0xFFFFFFFF then c[3 := c ! 3 + 1]
      else c[0 := 0, 1 := 0, 2 := 0, 3 := 0])"

definition incrctr :: "'a prng_st_scheme \<Rightarrow> 'a prng_st_scheme" where
  "incrctr s = s\<lparr>counter := incr_counter (counter s)\<rparr>"

definition prnginit_internal :: "'a prng_st_scheme \<Rightarrow> 'a prng_st_scheme" where
  "prnginit_internal s = s\<lparr>counter := replicate 4 0, pkey := replicate 32 0\<rparr>"

definition prnginit :: "'a prng_st_scheme \<Rightarrow> 'a prng_st_scheme" where
  "prnginit s =
     (let s = initEntropyAccumulator s; s = s\<lparr>reseed_ctr := 0, last_reseed_ticks := 0\<rparr>
      in prnginit_internal s)"

definition acquire_ticks :: "'a prng_st_scheme \<Rightarrow> 'a prng_st_scheme res" where
  "acquire_ticks s = bind_res (acquire (tickslock s) s) (\<lambda>(lk, s). Inr (s\<lparr>tickslock := lk\<rparr>))"

definition release_ticks :: "'a prng_st_scheme \<Rightarrow> 'a prng_st_scheme res" where
  "release_ticks s = bind_res (release (tickslock s) s) (\<lambda>(lk, s). Inr (s\<lparr>tickslock := lk\<rparr>))"

definition acquire_pool :: "nat \<Rightarrow> 'a prng_st_scheme \<Rightarrow> 'a prng_st_scheme res" where
  "acquire_pool i s = bind_res (acquire (plock (pools s ! i)) s) (\<lambda>(lk, s).
     Inr (s\<lparr>pools := (pools s)[i := (pools s ! i)\<lparr>plock := lk\<rparr>]\<rparr>))"

definition release_pool :: "nat \<Rightarrow> 'a prng_st_scheme \<Rightarrow> 'a prng_st_scheme res" where
  "release_pool i s = bind_res (release (plock (pools s ! i)) s) (\<lambda>(lk, s).
     Inr (s\<lparr>pools := (pools s)[i := (pools s ! i)\<lparr>plock := lk\<rparr>]\<rparr>))"

definition prngreseed :: "shift \<Rightarrow> u32 \<Rightarrow> i32 \<Rightarrow> 'a prng_st_scheme \<Rightarrow> 'a prng_st_scheme res" where
  "prngreseed ubshl seed len s =
     bind_res (sha256 ubshl (\<lambda>m i. m (seed + of_nat i)) len s) (\<lambda>(hash, s).
     let s = incrctr (s\<lparr>pkey := hash\<rparr>) in
     bind_res (kfree seed s) (\<lambda>s.
     bind_res (acquire_ticks s) (\<lambda>s.
     release_ticks (s\<lparr>last_reseed_ticks := ticks s\<rparr>))))"

text \<open>A page from \<open>kalloc\<close>, panicking when there is none, and filled with zeros.\<close>

definition kalloc_zeroed :: "string \<Rightarrow> 'a kmem_st_scheme \<Rightarrow> (u32 \<times> 'a kmem_st_scheme) res" where
  "kalloc_zeroed msg s =
     bind_res (kalloc s) (\<lambda>(p, s).
     if p = 0 then Inl (Panic msg) else Inr (p, s\<lparr>mem := memset (mem s) p 0 4096\<rparr>))"

text \<open>The bytes of the counter, and the key as the words AES reads.\<close>

definition counter_bytes :: "u32 list \<Rightarrow> u8 list" where
  "counter_bytes c = concat (map bytes_of_u32 c)"

definition prng_key_words :: "u8 list \<Rightarrow> u32 list" where
  "prng_key_words k = map (\<lambda>i. u32_of_bytes (k ! (4 * i)) (k ! (4 * i + 1)) (k ! (4 * i + 2)) (k ! (4 * i + 3))) [0..<8]"

definition genblock_step :: "u32 \<Rightarrow> nat \<Rightarrow> u32 \<times> 'a prng_st_scheme \<Rightarrow> (u32 \<times> 'a prng_st_scheme) res" where
  "genblock_step memaddr_arr b st =
     (case st of (pgwrittento, s) \<Rightarrow>
        let i = 16 * b in
        bind_res
          (if i mod 4096 = 0 then
             bind_res (kalloc_zeroed ''prnggenblocks: unable to allocate memory for block generation.'' s)
               (\<lambda>(kalloc_pg, s).
               Inr (kalloc_pg, s\<lparr>mem := store32 (mem s) (memaddr_arr + 4 * of_nat (i div 4096)) kalloc_pg\<rparr>))
           else Inr (pgwrittento, s)) (\<lambda>(pgwrittento, s).
        bind_res (keyExpansion (prng_key_words (pkey s)) (replicate 60 0) AES_256_KEY_SIZE) (\<lambda>roundKeys.
        let s = s\<lparr>mem := store_bytes (mem s) (pgwrittento + of_nat (i mod 4096))
                   (aes_encrypt (counter_bytes (counter s)) roundKeys AES_256_KEY_SIZE)\<rparr>
        in Inr (pgwrittento, incrctr s))))"

definition prnggenblocks :: "i32 \<Rightarrow> u32 \<Rightarrow> 'a prng_st_scheme \<Rightarrow> 'a prng_st_scheme res" where
  "prnggenblocks blocks memaddr_arr s =
     (if counter s ! 0 = 0 then Inl (Panic ''prnggenblocks: called with non-seeded generator.'')
      else if memaddr_arr = 0 then Inl (Panic ''prnggenblocks: called with null memory location for output.'')
      else bind_res (for_res [0..<nat (sint blocks)] (genblock_step memaddr_arr) (0, s)) (\<lambda>(_, s). Inr s))"

definition randdata_step :: "u32 \<Rightarrow> u32 \<Rightarrow> nat \<Rightarrow> u32 \<times> u32 \<times> 'a prng_st_scheme \<Rightarrow> (u32 \<times> u32 \<times> 'a prng_st_scheme) res" where
  "randdata_step output blocks_ptr_page j st =
     (case st of (pgwrittento, pgreadfrom, s) \<Rightarrow>
        bind_res
          (if j mod 4096 = 0 then
             bind_res (kalloc_zeroed ''prngranddata: unable to allocate memory.'' s) (\<lambda>(pgwrittento, s).
             let s = s\<lparr>mem := store32 (mem s) (output + 4 * of_nat (j div 4096)) pgwrittento\<rparr>
             in Inr (pgwrittento, load32 (mem s) (blocks_ptr_page + 4 * of_nat (j div 4096)), s))
           else Inr (pgwrittento, pgreadfrom, s)) (\<lambda>(pgwrittento, pgreadfrom, s).
        Inr (pgwrittento, pgreadfrom,
             s\<lparr>mem := (mem s)(pgwrittento + of_nat j := mem s (pgreadfrom + of_nat j))\<rparr>)))"

text \<open>The loop that frees the pages of a pointer page up to its first null entry.\<close>

primrec free_pages_loop :: "u32 \<Rightarrow> nat \<Rightarrow> nat \<Rightarrow> 'a prng_st_scheme \<Rightarrow> 'a prng_st_scheme res" where
  "free_pages_loop iter_bpp i 0 s = Inr s"
| "free_pages_loop iter_bpp i (Suc n) s =
     (let pg = load32 (mem s) (iter_bpp + 4 * of_nat i)
      in if pg = 0 then Inr s
         else bind_res (kfree pg s) (free_pages_loop iter_bpp (Suc i) n))"

text \<open>The two halves of \<open>prngranddata\<close>: the data, and the new key.\<close>

definition fill_output :: "nat \<Rightarrow> u32 \<Rightarrow> 'a prng_st_scheme \<Rightarrow> 'a prng_st_scheme res" where
  "fill_output n output s =
     bind_res (kalloc_zeroed ''prngranddata: unable to allocate memory.'' s) (\<lambda>(blocks_ptr_page, s).
     let numblocks = (if n mod 16 = 0 then n div 16 else n div 16 + 1) in
     bind_res (prnggenblocks (of_nat numblocks) blocks_ptr_page s) (\<lambda>s.
     bind_res (for_res [0..<n] (randdata_step output blocks_ptr_page) (0, 0, s)) (\<lambda>(_, _, s).
     bind_res (free_pages_loop blocks_ptr_page 0 1024 s) (\<lambda>s.
     kfree blocks_ptr_page s))))"

definition renew_key :: "'a prng_st_scheme \<Rightarrow> 'a prng_st_scheme res" where
  "renew_key s =
     bind_res (kalloc_zeroed ''prngranddata: unable to allocate memory.'' s) (\<lambda>(blocks_ptr_page, s).
     bind_res (prnggenblocks 2 blocks_ptr_page s) (\<lambda>s.
     let s = s\<lparr>pkey := load_bytes (mem s) (load32 (mem s) blocks_ptr_page) 32\<rparr> in
     bind_res (kfree (load32 (mem s) blocks_ptr_page) s) (\<lambda>s.
     kfree blocks_ptr_page s)))"

definition prngranddata :: "i32 \<Rightarrow> u32 \<Rightarrow> 'a prng_st_scheme \<Rightarrow> 'a prng_st_scheme res" where
  "prngranddata sz output s =
     (if sint sz < 0 \<or> sint sz > 2 ^ 20 then Inl (Panic ''prngranddata: requested negative or too much data.'')
      else if output = 0 then Inl (Panic ''prnggranddata: provided null memory location for output.'')
      else bind_res (fill_output (nat (sint sz)) output s) renew_key)"

text \<open>The loop that moves the pages of data to the caller's buffer and frees them.\<close>

primrec copy_pages_loop :: "u32 \<Rightarrow> u32 \<Rightarrow> nat \<Rightarrow> nat \<Rightarrow> i32 \<Rightarrow> 'a prng_st_scheme \<Rightarrow> 'a prng_st_scheme res" where
  "copy_pages_loop output data_ptr_page i 0 left s = Inr s"
| "copy_pages_loop output data_ptr_page i (Suc n) left s =
     (let data_page = load32 (mem s) (data_ptr_page + 4 * of_nat i)
      in if sint left < 4096 then
           kfree data_page (s\<lparr>mem := memmove (mem s) (output + of_nat (i * 4096)) data_page left\<rparr>)
         else
           bind_res (kfree data_page (s\<lparr>mem := memmove (mem s) (output + of_nat (i * 4096)) data_page 4096\<rparr>))
             (copy_pages_loop output data_ptr_page (Suc i) n (left - 4096)))"

definition pool_len :: "entropy_pool \<Rightarrow> i32" where
  "pool_len p = (if sint (psize p) > int POOL_SIZE then of_nat POOL_SIZE else psize p)"

definition drain_pool :: "shift \<Rightarrow> u32 \<Rightarrow> nat \<Rightarrow> i32 \<times> 'a prng_st_scheme \<Rightarrow> (i32 \<times> 'a prng_st_scheme) res" where
  "drain_pool ubshl seed_data i st =
     (case st of (offset, s) \<Rightarrow>
        if reseed_ctr s OR push_bit i 1 \<noteq> 0 then
          bind_res (acquire_pool i s) (\<lambda>s.
          bind_res (sha256 ubshl (\<lambda>m j. entropy (pools s ! i) ! j) (pool_len (pools s ! i)) s) (\<lambda>(hash, s).
          let s = s\<lparr>mem := store_bytes (mem s) (seed_data + offset) hash\<rparr>;
            p = pools s ! i;
            k = unat (pool_len p);
            s = s\<lparr>pools := (pools s)[i := p\<lparr>entropy := replicate k 0 @ drop k (entropy p), psize := 0\<rparr>]\<rparr>
          in bind_res (release_pool i s) (\<lambda>s. Inr (offset + 32, s))))
        else Inr (offset, s))"

definition prng_reseed_part :: "shift \<Rightarrow> u32 \<Rightarrow> 'a prng_st_scheme \<Rightarrow> 'a prng_st_scheme res" where
  "prng_reseed_part ubshl xticks s =
     bind_res (acquire_pool 0 s) (\<lambda>s.
     if sint (psize (pools s ! 0)) > MIN_SIZE_POOL \<and> xticks - last_reseed_ticks s > 10 then
       (let s = s\<lparr>reseed_ctr := reseed_ctr s + 1\<rparr> in
        bind_res (release_pool 0 s) (\<lambda>s.
        bind_res (kalloc_zeroed ''prngrand: unable to allocate memory.'' s) (\<lambda>(seed_data, s).
        bind_res (for_res [0..<MAX_POOLS] (drain_pool ubshl seed_data) (0, s)) (\<lambda>(offset, s).
        prngreseed ubshl seed_data offset s))))
     else release_pool 0 s)"

definition prngrand :: "shift \<Rightarrow> u32 \<Rightarrow> i32 \<Rightarrow> 'a prng_st_scheme \<Rightarrow> 'a prng_st_scheme res" where
  "prngrand ubshl output numbytes s =
     bind_res (acquire_ticks s) (\<lambda>s.
     let xticks = ticks s in
     bind_res (release_ticks s) (\<lambda>s.
     bind_res (prng_reseed_part ubshl xticks s) (\<lambda>s.
     if reseed_ctr s = 0 then Inl (Panic ''prngrand: attempted to get random data without seeding.'')
     else
       bind_res (kalloc_zeroed ''prngrand: unable to allocate memory.'' s) (\<lambda>(data_ptr_page, s).
       bind_res (prngranddata numbytes data_ptr_page s) (\<lambda>s.
       bind_res (copy_pages_loop output data_ptr_page 0 1024 numbytes s) (\<lambda>s.
       kfree data_ptr_page s))))))"

text \<open>
  \<open>sys_random\<close>: the results of \<open>argint\<close> and \<open>argptr\<close> are ignored, so the two arguments are
  whatever the calls left in the local variables.
\<close>

definition sys_random :: "shift \<Rightarrow> i32 \<Rightarrow> u32 \<Rightarrow> 'a prng_st_scheme \<Rightarrow> (i32 \<times> 'a prng_st_scheme) res" where
  "sys_random ubshl numbytes bytesout s =
     (if sint numbytes < 0 then Inr (- 1, s)
      else if bytesout = 0 then Inr (- 1, s)
      else bind_res (printPoolsData s) (\<lambda>_.
           bind_res (prngrand ubshl bytesout numbytes s) (\<lambda>s. Inr (0, s))))"


section \<open>The generator between reseeds\<close>

text \<open>The \<open>n\<close> blocks that the cipher gives from counter \<open>c\<close> on.\<close>

definition gen_block :: "u8 list \<Rightarrow> u32 list \<Rightarrow> u8 list" where
  "gen_block k c = key_stream (prng_key_words k) (counter_bytes c)"

definition gen_stream :: "u8 list \<Rightarrow> u32 list \<Rightarrow> nat \<Rightarrow> u8 list" where
  "gen_stream k c n = concat (map (\<lambda>i. gen_block k ((incr_counter ^^ i) c)) [0..<n])"

lemma length_gen_block [simp]: "length (gen_block k c) = 16"
  by (simp add: gen_block_def length_key_stream prng_key_words_def)

lemma gen_stream_Suc: "gen_stream k c (Suc n) = gen_stream k c n @ gen_block k ((incr_counter ^^ n) c)"
  by (simp add: gen_stream_def)

lemma length_gen_stream [simp]: "length (gen_stream k c n) = 16 * n"
  by (induction n) (simp_all add: gen_stream_Suc, simp add: gen_stream_def)

lemma keyExpansion_gen_block:
  "bind_res (keyExpansion (prng_key_words k) (replicate 60 0) AES_256_KEY_SIZE)
     (\<lambda>rk. f (aes_encrypt (counter_bytes c) rk AES_256_KEY_SIZE)) = f (gen_block k c)"
proof -
  obtain rk where "keyExpansion (prng_key_words k) (replicate 60 0) AES_256_KEY_SIZE = Inr rk"
    by (rule keyExpansion_256 [of "prng_key_words k"]) (simp add: prng_key_words_def)
  then show ?thesis by (simp add: gen_block_def key_stream_def)
qed

text \<open>
  What the generator leaves alone: everything outside memory, the allocator, the counter and
  the key.
\<close>

definition gframe :: "'a prng_st_scheme \<Rightarrow> 'a prng_st_scheme \<Rightarrow> bool" where
  "gframe s t \<longleftrightarrow> balanced s t \<and> use_lock t = use_lock s \<and> kinit2_called t = kinit2_called s \<and> kend t = kend s
     \<and> hh t = hh s \<and> ww t = ww s \<and> reseed_ctr t = reseed_ctr s \<and> last_reseed_ticks t = last_reseed_ticks s
     \<and> ticks t = ticks s \<and> tickslock t = tickslock s \<and> prng_st.more t = prng_st.more s"

lemma gframe_refl [simp, intro]: "gframe s s"
  by (simp add: gframe_def)

lemma gframe_trans [trans]: "gframe s t \<Longrightarrow> gframe t u \<Longrightarrow> gframe s u"
  by (auto simp: gframe_def intro: balanced_trans)

lemma gframe_updates [simp]:
  "gframe s (t\<lparr>mem := m\<rparr>) = gframe s t" "gframe s (t\<lparr>counter := c\<rparr>) = gframe s t"
  "gframe s (t\<lparr>pkey := k\<rparr>) = gframe s t" "gframe (s\<lparr>mem := m\<rparr>) t = gframe s t"
  "gframe (s\<lparr>pkey := k\<rparr>) t = gframe s t" "gframe (s\<lparr>counter := c\<rparr>) t = gframe s t"
  by (simp_all add: gframe_def balanced_def)

lemma kframe_gframe:
  "kframe s t \<Longrightarrow> gframe s t \<and> counter t = counter s \<and> pkey t = pkey s" for s :: "'a prng_st_scheme"
  by (cases s; cases t) (simp add: kframe_def gframe_def)

lemma kinv_prng_updates [simp]:
  "kinv b ps (s\<lparr>counter := c\<rparr>) = kinv b ps s" "kinv b ps (s\<lparr>pkey := k\<rparr>) = kinv b ps s"
  by (simp_all add: kinv_def alloc_rep_def events_ok_def cpu_room_def cpu_ok_def accum_rep_def pools_free_def)

lemma kalloc_zeroed_ok:
  fixes s :: "'a kmem_st_scheme"
  assumes "kinv (Suc b) (p # ps) s"
  shows "\<exists>t. kalloc_zeroed msg s = Inr (p, t) \<and> kinv b ps t \<and> mem t = memset (mem s) p 0 4096 \<and> kframe s t"
proof -
  obtain t where t: "kalloc s = Inr (p, t)" "kinv b ps t" "mem t = mem s" "kframe s t"
    "page_ok (kend t) p" "p \<noteq> 0" "p \<notin> set ps"
    using kmem.alloc_Cons [OF assms] by auto
  have "kinv b ps (t\<lparr>mem := memset (mem t) p 0 4096\<rparr>)"
    by (rule kmem.put_owned [OF t(2,5,7)]) (simp add: memset_eq store_bytes_out)
  then show ?thesis using t by (auto simp: kalloc_zeroed_def kframe_def balanced_def)
qed

text \<open>Memory after a page \<open>p\<close> was cleared, entered as the first pointer of page \<open>q\<close>, and filled.\<close>

definition gen_mem :: "memory \<Rightarrow> u32 \<Rightarrow> u32 \<Rightarrow> u8 list \<Rightarrow> memory" where
  "gen_mem m p q bs = store_bytes (store32 (memset m p 0 4096) q p) p bs"

lemma gen_mem_off:
  assumes "length bs \<le> 4096" "\<not> in_range p 4096 x" "\<not> in_range q 4096 x"
  shows "gen_mem m p q bs x = m x"
proof -
  have "\<not> in_range p (length bs) x" "\<not> in_range q 4 x"
    using assms in_range_mono [of p "length bs" x 4096] in_range_mono [of q 4 x 4096] by auto
  with assms(2) show ?thesis by (simp add: gen_mem_def store32_def store_bytes_out memset_eq)
qed

lemma gen_mem_append:
  "length bs + length cs \<le> 4096 \<Longrightarrow>
   store_bytes (gen_mem m p q bs) (p + of_nat (length bs)) cs = gen_mem m p q (bs @ cs)"
  unfolding gen_mem_def by (rule store_bytes_append) simp

lemma kinv_owned:
  assumes "kinv b ps s" "page_ok (kend s) p" "page_ok (kend s) q" "p \<notin> set ps" "q \<notin> set ps"
    and "\<And>x. \<not> in_range p 4096 x \<Longrightarrow> \<not> in_range q 4096 x \<Longrightarrow> m x = mem s x"
  shows "kinv b ps (s\<lparr>mem := m\<rparr>)"
proof (rule kinv_put [OF assms(1)], intro ballI allI impI)
  fix r x
  assume r: "r \<in> set ps" "in_range r 4096 x"
  then have "page_ok (kend s) r" using assms(1) by (simp add: kinv_def alloc_rep_def)
  then have "\<not> in_range p 4096 x" "\<not> in_range q 4096 x"
    using page_ok_disjoint r assms(2-5) by blast+
  then show "m x = mem s x" by (rule assms(6))
qed

lemma genblock_later:
  assumes "0 < b" "b < 256"
  shows "genblock_step q b (p, s) =
     Inr (p, incrctr (s\<lparr>mem := store_bytes (mem s) (p + of_nat (16 * b)) (gen_block (pkey s) (counter s))\<rparr>))"
proof -
  have "16 * b < 4096" "16 * b mod 4096 \<noteq> 0" using assms by simp_all
  then show ?thesis
    using keyExpansion_gen_block [of "pkey s" "\<lambda>bs. Inr (p, incrctr (s\<lparr>mem := store_bytes (mem s) (p + of_nat (16 * b)) bs\<rparr>))" "counter s"]
    by (simp add: genblock_step_def Let_def)
qed

lemma genblock_loop:
  fixes s :: "'a prng_st_scheme"
  assumes inv: "kinv (Suc d) (p # ps) s" and q: "page_ok (kend s) q" "q \<notin> set (p # ps)"
    and n: "0 < n" "n \<le> 256"
  shows "\<exists>t. for_res [0..<n] (genblock_step q) (0, s) = Inr (p, t) \<and> kinv d ps t
     \<and> mem t = gen_mem (mem s) p q (gen_stream (pkey s) (counter s) n)
     \<and> counter t = (incr_counter ^^ n) (counter s) \<and> pkey t = pkey s \<and> gframe s t"
  using n
proof (induction n)
  case (Suc n)
  have p: "page_ok (kend s) p" "p \<notin> set ps" "p \<noteq> 0"
    using inv page_ok_nonzero by (auto simp: kinv_def alloc_rep_def)
  show ?case
  proof (cases "n = 0")
    case True
    obtain t where t: "kalloc_zeroed ''prnggenblocks: unable to allocate memory for block generation.'' s = Inr (p, t)"
      "kinv d ps t" "mem t = memset (mem s) p 0 4096" "kframe s t"
      using kalloc_zeroed_ok [OF inv] by blast
    have gt: "gframe s t" "counter t = counter s" "pkey t = pkey s" using kframe_gframe [OF t(4)] by auto
    define u where "u = t\<lparr>mem := gen_mem (mem s) p q (gen_block (pkey s) (counter s))\<rparr>"
    have "genblock_step q 0 (0, s) = Inr (p, incrctr u)"
      using keyExpansion_gen_block [of "pkey s" "\<lambda>bs. Inr (p, incrctr (t\<lparr>mem := gen_mem (mem s) p q bs\<rparr>))" "counter s"]
      by (simp add: genblock_step_def t gt u_def gen_mem_def)
    moreover have "kinv d ps u"
      unfolding u_def
    proof (rule kinv_owned [OF t(2) _ _ p(2)])
      show "page_ok (kend t) p" "page_ok (kend t) q" "q \<notin> set ps"
        using p q t(4) by (simp_all add: kframe_def)
      show "gen_mem (mem s) p q (gen_block (pkey s) (counter s)) x = mem t x"
        if "\<not> in_range p 4096 x" "\<not> in_range q 4096 x" for x
        using that by (simp add: gen_mem_off t(3) memset_eq store_bytes_out)
    qed
    ultimately show ?thesis
      using True gt by (simp add: incrctr_def u_def gen_stream_def)
  next
    case False
    then obtain t where t: "for_res [0..<n] (genblock_step q) (0, s) = Inr (p, t)" "kinv d ps t"
      "mem t = gen_mem (mem s) p q (gen_stream (pkey s) (counter s) n)"
      "counter t = (incr_counter ^^ n) (counter s)" "pkey t = pkey s" "gframe s t"
      using Suc by auto
    let ?bs = "gen_stream (pkey s) (counter s) n"
    define m where "m = store_bytes (mem t) (p + of_nat (16 * n)) (gen_block (pkey s) (counter t))"
    have m: "m = gen_mem (mem s) p q (gen_stream (pkey s) (counter s) (Suc n))"
      using gen_mem_append [of ?bs "gen_block (pkey s) (counter t)" "mem s" p q] Suc.prems
      by (simp add: m_def t(3,4) gen_stream_Suc)
    have "genblock_step q n (p, t) = Inr (p, incrctr (t\<lparr>mem := m\<rparr>))"
      using genblock_later [of n q p t] False Suc.prems by (simp add: m_def t(5))
    then have "for_res [0..<Suc n] (genblock_step q) (0, s) = Inr (p, incrctr (t\<lparr>mem := m\<rparr>))"
      using t(1) by (simp add: for_res_append)
    moreover have "kinv d ps (t\<lparr>mem := m\<rparr>)"
    proof (rule kinv_owned [OF t(2) _ _ p(2)])
      show "page_ok (kend t) p" "page_ok (kend t) q" "q \<notin> set ps"
        using p q t(6) by (simp_all add: gframe_def)
      show "m x = mem t x" if "\<not> in_range p 4096 x" "\<not> in_range q 4096 x" for x
        using that Suc.prems by (simp add: m t(3) gen_mem_off)
    qed
    ultimately show ?thesis using t(4-6) m by (simp add: incrctr_def)
  qed
qed simp

lemma prnggenblocks_ok:
  fixes s :: "'a prng_st_scheme"
  assumes "kinv (Suc d) (p # ps) s" "page_ok (kend s) q" "q \<notin> set (p # ps)" "0 < n" "n \<le> 256"
    and "counter s ! 0 \<noteq> 0"
  shows "\<exists>t. prnggenblocks (of_nat n) q s = Inr t \<and> kinv d ps t
     \<and> mem t = gen_mem (mem s) p q (gen_stream (pkey s) (counter s) n)
     \<and> counter t = (incr_counter ^^ n) (counter s) \<and> pkey t = pkey s \<and> gframe s t"
proof -
  have "sint (of_nat n :: i32) = int n" using assms(5) by (intro sint_of_nat) simp
  moreover have "q \<noteq> 0" using assms(2) by (rule page_ok_nonzero)
  ultimately show ?thesis
    using genblock_loop [OF assms(1-5)] assms(6) by (auto simp: prnggenblocks_def)
qed

text \<open>Reading a page that the writes above do not touch.\<close>

lemma load32_page_off:
  assumes "page_ok e r" "\<And>x. in_range r 4096 x \<Longrightarrow> m' x = m x"
  shows "load32 m' r = load32 m r"
  using assms(2) in_range_mono [of r 4 _ 4096] by (intro load32_cong) auto

lemma load_bytes_page_off:
  assumes "n \<le> 4096" "\<And>x. in_range r 4096 x \<Longrightarrow> m' x = m x"
  shows "load_bytes m' r n = load_bytes m r n"
  using assms in_range_mono [of r n _ 4096] by (intro load_bytes_cong) auto

lemma gen_mem_page:
  assumes "page_ok e r" "page_ok e p" "page_ok e q" "r \<noteq> p" "r \<noteq> q" "length bs \<le> 4096" "in_range r 4096 x"
  shows "gen_mem m p q bs x = m x"
  using gen_mem_off [OF assms(6)] page_ok_disjoint [OF assms(1) _ _ assms(7)] assms(2-5) by blast

lemma randdata_loop:
  fixes s :: "'a prng_st_scheme"
  assumes inv: "kinv (Suc d) (p # ps) s"
    and pg: "page_ok (kend s) oq" "page_ok (kend s) q" "page_ok (kend s) rd"
    and ne: "oq \<notin> set (p # ps)" "q \<noteq> p" "rd \<noteq> p" "q \<noteq> oq" "rd \<noteq> oq"
    and rd: "load32 (mem s) q = rd" and n: "0 < n" "n \<le> 4096"
  shows "\<exists>t. for_res [0..<n] (randdata_step oq q) (0, 0, s) = Inr (p, rd, t) \<and> kinv d ps t
     \<and> mem t = gen_mem (mem s) p oq (load_bytes (mem s) rd n)
     \<and> counter t = counter s \<and> pkey t = pkey s \<and> gframe s t"
  using n
proof (induction n)
  case (Suc n)
  have p: "page_ok (kend s) p" "p \<notin> set ps"
    using inv by (auto simp: kinv_def alloc_rep_def)
  have rdx: "in_range rd 4096 (rd + of_nat n)" using Suc.prems(2) by (intro in_range_offset_nat) simp_all
  show ?case
  proof (cases "n = 0")
    case True
    obtain t where t: "kalloc_zeroed ''prngranddata: unable to allocate memory.'' s = Inr (p, t)"
      "kinv d ps t" "mem t = memset (mem s) p 0 4096" "kframe s t"
      using kalloc_zeroed_ok [OF inv] by blast
    have gt: "gframe s t" "counter t = counter s" "pkey t = pkey s" using kframe_gframe [OF t(4)] by auto
    define m1 where "m1 = store32 (mem t) oq p"
    have m1: "m1 = gen_mem (mem s) p oq []" by (simp add: m1_def t(3) gen_mem_def store_bytes_Nil)
    have off: "m1 x = mem s x" if "in_range r 4096 x" "page_ok (kend s) r" "r \<noteq> p" "r \<noteq> oq" for r x
      unfolding m1 by (rule gen_mem_page [OF that(2) p(1) pg(1) that(3,4) _ that(1)]) simp
    have "load32 m1 q = rd" using load32_page_off [OF pg(2), of m1 "mem s"] off [of q] pg(2) ne rd by simp
    moreover have "m1 rd = mem s rd" using off [of rd rd] pg(3) ne by simp
    ultimately have "randdata_step oq q 0 (0, 0, s) = Inr (p, rd, t\<lparr>mem := m1(p := mem s rd)\<rparr>)"
      by (simp add: randdata_step_def t m1_def [symmetric] Let_def) (simp add: t(3) [symmetric] m1_def [symmetric])
    moreover have "m1(p := mem s rd) = gen_mem (mem s) p oq (load_bytes (mem s) rd 1)"
      by (simp add: m1 gen_mem_def store_bytes_single store_bytes_Nil load_bytes_def)
    moreover have "kinv d ps (t\<lparr>mem := gen_mem (mem s) p oq (load_bytes (mem s) rd 1)\<rparr>)"
    proof (rule kinv_owned [OF t(2) _ _ p(2)])
      show "page_ok (kend t) p" "page_ok (kend t) oq" "oq \<notin> set ps" using p pg ne t(4) by (simp_all add: kframe_def)
      show "gen_mem (mem s) p oq (load_bytes (mem s) rd 1) x = mem t x"
        if "\<not> in_range p 4096 x" "\<not> in_range oq 4096 x" for x
        using that by (simp add: gen_mem_off t(3) memset_eq store_bytes_out)
    qed
    ultimately show ?thesis using True gt by simp
  next
    case False
    then obtain t where t: "for_res [0..<n] (randdata_step oq q) (0, 0, s) = Inr (p, rd, t)" "kinv d ps t"
      "mem t = gen_mem (mem s) p oq (load_bytes (mem s) rd n)" "counter t = counter s" "pkey t = pkey s" "gframe s t"
      using Suc by auto
    define m where "m = (mem t)(p + of_nat n := mem t (rd + of_nat n))"
    have "mem t (rd + of_nat n) = mem s (rd + of_nat n)"
      unfolding t(3) by (rule gen_mem_page [OF pg(3) p(1) pg(1) ne(3,5) _ rdx]) (use Suc.prems in simp)
    then have m: "m = gen_mem (mem s) p oq (load_bytes (mem s) rd (Suc n))"
      using gen_mem_append [of "load_bytes (mem s) rd n" "[mem s (rd + of_nat n)]" "mem s" p oq] Suc.prems
      by (simp add: m_def t(3) store_bytes_single load_bytes_snoc)
    have "n mod 4096 \<noteq> 0" using False Suc.prems by simp
    then have "randdata_step oq q n (p, rd, t) = Inr (p, rd, t\<lparr>mem := m\<rparr>)"
      by (simp add: randdata_step_def m_def)
    then have "for_res [0..<Suc n] (randdata_step oq q) (0, 0, s) = Inr (p, rd, t\<lparr>mem := m\<rparr>)"
      using t(1) by (simp add: for_res_append)
    moreover have "kinv d ps (t\<lparr>mem := m\<rparr>)"
    proof (rule kinv_owned [OF t(2) _ _ p(2)])
      show "page_ok (kend t) p" "page_ok (kend t) oq" "oq \<notin> set ps" using p pg ne t(6) by (simp_all add: gframe_def)
      show "m x = mem t x" if "\<not> in_range p 4096 x" "\<not> in_range oq 4096 x" for x
        using that Suc.prems by (simp add: m t(3) gen_mem_off)
    qed
    ultimately show ?thesis using t(4-6) m by simp
  qed
qed simp

lemma gen_mem_bytes: "length bs \<le> 4096 \<Longrightarrow> n \<le> length bs \<Longrightarrow> load_bytes (gen_mem m p q bs) p n = take n bs"
  by (rule nth_equalityI) (simp_all add: gen_mem_def store_bytes_in)

lemma gen_mem_words:
  assumes "page_ok e p" "page_ok e q" "p \<noteq> q" "length bs \<le> 4096" "k < 1024"
  shows "page_word (gen_mem m p q bs) q k = (if k = 0 then p else page_word m q k)"
proof -
  have off: "\<not> in_range p 4096 x" if "in_range (q + 4 * of_nat k) 4 x" for x
    using page_ok_disjoint [OF assms(2,1) assms(3) [symmetric] word_in_page [OF assms(5) that]] .
  have "page_word (gen_mem m p q bs) q k = page_word (store32 (memset m p 0 4096) q p) q k"
    unfolding gen_mem_def
    by (rule load32_store_bytes_out) (use off in_range_mono [of p "length bs" _ 4096] assms(4) in blast)
  also have "\<dots> = page_word (store32 (memset m p 0 4096) (q + 4 * of_nat 0) p) q k" by simp
  also have "\<dots> = (if k = 0 then p else page_word (memset m p 0 4096) q k)"
    by (rule page_word_store) (use assms(5) in simp_all)
  also have "page_word (memset m p 0 4096) q k = page_word m q k"
    by (rule load32_cong) (simp add: memset_eq store_bytes_out off)
  finally show ?thesis .
qed

lemma page_word_zeroed: "k < 1024 \<Longrightarrow> page_word (memset m q 0 4096) q k = 0"
proof -
  assume k: "k < 1024"
  have "memset m q 0 4096 (q + of_nat (4 * k + j)) = 0" if "j < 4" for j
    unfolding memset_eq using that k by (subst store_bytes_in) simp_all
  from this [of 0] this [of 1] this [of 2] this [of 3] show ?thesis
    by (simp add: load32_def u32_of_bytes_def algebra_simps)
qed

text \<open>One page behind a pointer page, and a null pointer after it.\<close>

lemma free_pages_one:
  fixes s :: "'a prng_st_scheme"
  assumes inv: "kinv (Suc d) ps s" and p: "page_ok (kend s) p" "p \<notin> set ps"
    and q: "page_ok (kend s) q" "p \<noteq> q" "load32 (mem s) q = p" "page_word (mem s) q 1 = 0"
  shows "\<exists>t. free_pages_loop q 0 1024 s = Inr t \<and> kinv d (p # ps) t
     \<and> (\<forall>x. \<not> in_range p 4096 x \<longrightarrow> mem t x = mem s x) \<and> kframe s t"
proof -
  obtain t where t: "kfree p s = Inr t" "kinv d (p # ps) t"
    "\<And>x. \<not> in_range p 4096 x \<Longrightarrow> mem t x = mem s x" "kframe s t"
    using kfree_ok [OF inv p] by blast
  have "page_word (mem t) q 1 = page_word (mem s) q 1"
    by (rule load32_cong) (rule t(3), use page_ok_disjoint [OF q(1) p(1) q(2) [symmetric]] word_in_page [of 1 q] in auto)
  with q(4) have "load32 (mem t) (q + 4) = 0" by simp
  then have "free_pages_loop q 0 (Suc (Suc n)) s = Inr t" for n
    using t(1) q(3) page_ok_nonzero [OF p(1)] by (simp add: Let_def)
  from this [of 1022] have "free_pages_loop q 0 1024 s = Inr t" by (simp del: free_pages_loop.simps)
  with t show ?thesis by blast
qed

lemma renew_key_ok:
  fixes s :: "'a prng_st_scheme"
  assumes inv: "kinv (Suc (Suc (Suc (Suc d)))) (p1 # p2 # ps) s" and c: "counter s ! 0 \<noteq> 0"
  shows "\<exists>t. renew_key s = Inr t \<and> kinv d (p1 # p2 # ps) t
     \<and> (\<forall>x. \<not> in_range p1 4096 x \<longrightarrow> \<not> in_range p2 4096 x \<longrightarrow> mem t x = mem s x)
     \<and> pkey t = gen_stream (pkey s) (counter s) 2 \<and> counter t = (incr_counter ^^ 2) (counter s) \<and> gframe s t"
proof -
  have pg: "page_ok (kend s) p1" "page_ok (kend s) p2" "distinct (p1 # p2 # ps)"
    using inv by (auto simp: kinv_def alloc_rep_def)
  obtain s1 where s1: "kalloc_zeroed ''prngranddata: unable to allocate memory.'' s = Inr (p1, s1)"
    "kinv (Suc (Suc (Suc d))) (p2 # ps) s1" "mem s1 = memset (mem s) p1 0 4096" "kframe s s1"
    using kalloc_zeroed_ok [OF inv] by blast
  note g1 = kframe_gframe [OF s1(4)]
  have e1: "kend s1 = kend s" using s1(4) by (simp add: kframe_def)
  obtain s2 where s2: "prnggenblocks 2 p1 s1 = Inr s2" "kinv (Suc (Suc d)) ps s2"
    "mem s2 = gen_mem (mem s1) p2 p1 (gen_stream (pkey s) (counter s) 2)"
    "counter s2 = (incr_counter ^^ 2) (counter s)" "gframe s1 s2"
    using prnggenblocks_ok [OF s1(2), of p1 2] pg c g1 e1 by auto
  have e2: "kend s2 = kend s" using s2(5) e1 by (simp add: gframe_def)
  have p2: "load32 (mem s2) p1 = p2"
    using gen_mem_words [OF pg(2,1), of "gen_stream (pkey s) (counter s) 2" 0 "mem s1"] pg(3) by (auto simp: s2(3))
  define s3 where "s3 = s2\<lparr>pkey := gen_stream (pkey s) (counter s) 2\<rparr>"
  have key: "load_bytes (mem s2) p2 32 = gen_stream (pkey s) (counter s) 2"
    unfolding s2(3) by (subst gen_mem_bytes) simp_all
  have "kinv (Suc (Suc d)) ps s3" "page_ok (kend s3) p2" "p2 \<notin> set ps"
    using s2(2) pg e2 by (simp_all add: s3_def)
  then obtain s4 where s4: "kfree p2 s3 = Inr s4" "kinv (Suc d) (p2 # ps) s4"
    "\<And>x. \<not> in_range p2 4096 x \<Longrightarrow> mem s4 x = mem s3 x" "kframe s3 s4"
    using kfree_ok [of "Suc d" ps s3 p2] by blast
  have "page_ok (kend s4) p1" "p1 \<notin> set (p2 # ps)" using pg e2 s4(4) by (simp_all add: kframe_def s3_def)
  then obtain t where t: "kfree p1 s4 = Inr t" "kinv d (p1 # p2 # ps) t"
    "\<And>x. \<not> in_range p1 4096 x \<Longrightarrow> mem t x = mem s4 x" "kframe s4 t"
    using kfree_ok [OF s4(2)] by blast
  have "renew_key s = Inr t" using s1(1) s2(1) s4(1) t(1) by (simp add: renew_key_def p2 key s3_def)
  moreover have "mem t x = mem s x" if "\<not> in_range p1 4096 x" "\<not> in_range p2 4096 x" for x
    using that by (simp add: t(3) s4(3) s3_def s2(3) gen_mem_off s1(3) memset_eq store_bytes_out)
  moreover have "gframe s t"
    using g1 s2(5) kframe_gframe [OF s4(4)] kframe_gframe [OF t(4)] by (auto simp: s3_def intro: gframe_trans)
  ultimately show ?thesis
    using t(2) s2(4) kframe_gframe [OF s4(4)] kframe_gframe [OF t(4)] by (simp add: s3_def)
qed

text \<open>The number of blocks that cover \<open>n\<close> bytes.\<close>

definition blocks_for :: "nat \<Rightarrow> nat" where
  "blocks_for n = (n + 15) div 16"

lemma blocks_for_eq: "(if n mod 16 = 0 then n div 16 else n div 16 + 1) = blocks_for n"
proof -
  define q r where "q = n div 16" and "r = n mod 16"
  have n: "n = 16 * q + r" and r: "r < 16" by (simp_all add: q_def r_def)
  have "(r + 15) div 16 = (if r = 0 then 0 else 1)" using r by (auto intro!: div_nat_eqI)
  moreover have "(n + 15) div 16 = q + (r + 15) div 16" by (simp add: n add.assoc)
  ultimately show ?thesis by (simp add: blocks_for_def q_def r_def)
qed

lemma blocks_for_bounds: "0 < n \<Longrightarrow> 0 < blocks_for n" "n \<le> 16 * blocks_for n" "n \<le> 4096 \<Longrightarrow> blocks_for n \<le> 256"
  unfolding blocks_for_def by linarith+

lemma fill_output_ok:
  fixes s :: "'a prng_st_scheme"
  assumes inv: "kinv (Suc (Suc (Suc (Suc (Suc d))))) (p1 # p2 # p3 # ps) s"
    and oq: "page_ok (kend s) oq" "oq \<notin> set (p1 # p2 # p3 # ps)"
    and c: "counter s ! 0 \<noteq> 0" and n: "0 < n" "n \<le> 4096"
  shows "\<exists>t. fill_output n oq s = Inr t \<and> kinv d (p1 # p2 # ps) t
     \<and> (\<forall>x. \<not> in_range p1 4096 x \<longrightarrow> \<not> in_range p2 4096 x \<longrightarrow> \<not> in_range p3 4096 x
          \<longrightarrow> \<not> in_range oq 4096 x \<longrightarrow> mem t x = mem s x)
     \<and> load32 (mem t) oq = p3 \<and> load_bytes (mem t) p3 n = take n (gen_stream (pkey s) (counter s) (blocks_for n))
     \<and> pkey t = pkey s \<and> counter t = (incr_counter ^^ blocks_for n) (counter s) \<and> gframe s t"
proof -
  let ?ks = "gen_stream (pkey s) (counter s) (blocks_for n)"
  have pg: "page_ok (kend s) p1" "page_ok (kend s) p2" "page_ok (kend s) p3" "distinct (p1 # p2 # p3 # ps)"
    using inv by (auto simp: kinv_def alloc_rep_def)
  have ks: "length ?ks \<le> 4096" "n \<le> length ?ks" using blocks_for_bounds n by simp_all
  obtain s1 where s1: "kalloc_zeroed ''prngranddata: unable to allocate memory.'' s = Inr (p1, s1)"
    "kinv (Suc (Suc (Suc (Suc d)))) (p2 # p3 # ps) s1" "mem s1 = memset (mem s) p1 0 4096" "kframe s s1"
    using kalloc_zeroed_ok [OF inv] by blast
  note g1 = kframe_gframe [OF s1(4)]
  have e1: "kend s1 = kend s" using s1(4) by (simp add: kframe_def)
  obtain s2 where s2: "prnggenblocks (of_nat (blocks_for n)) p1 s1 = Inr s2" "kinv (Suc (Suc (Suc d))) (p3 # ps) s2"
    "mem s2 = gen_mem (mem s1) p2 p1 ?ks" "counter s2 = (incr_counter ^^ blocks_for n) (counter s)"
    "pkey s2 = pkey s" "gframe s1 s2"
    using prnggenblocks_ok [OF s1(2), of p1 "blocks_for n"] pg c g1 e1 blocks_for_bounds n by auto
  have e2: "kend s2 = kend s" using s2(6) e1 by (simp add: gframe_def)
  have w: "page_word (mem s2) p1 k = (if k = 0 then p2 else 0)" if "k < 1024" for k
    using gen_mem_words [OF pg(2,1) _ ks(1) that, of "mem s1"] pg(4) page_word_zeroed [OF that]
    by (auto simp: s2(3) s1(3))
  have p2: "load32 (mem s2) p1 = p2" using w [of 0] by simp
  have p2_bytes: "load_bytes (mem s2) p2 n = take n ?ks" unfolding s2(3) by (rule gen_mem_bytes [OF ks])
  obtain s3 where s3: "for_res [0..<n] (randdata_step oq p1) (0, 0, s2) = Inr (p3, p2, s3)"
    "kinv (Suc (Suc d)) ps s3" "mem s3 = gen_mem (mem s2) p3 oq (take n ?ks)"
    "counter s3 = counter s2" "pkey s3 = pkey s2" "gframe s2 s3"
    using randdata_loop [OF s2(2), of oq p1 p2 n] e2 oq pg p2 p2_bytes n by auto
  have e3: "kend s3 = kend s" using s3(6) e2 by (simp add: gframe_def)
  have lt: "length (take n ?ks) \<le> 4096" using n by simp
  have keep: "mem s3 x = mem s2 x" if "in_range r 4096 x" "page_ok (kend s) r" "r \<noteq> p3" "r \<noteq> oq" for r x
    unfolding s3(3) by (rule gen_mem_page [OF that(2) pg(3) oq(1) that(3,4) lt that(1)])
  have w3: "load32 (mem s3) p1 = p2" "page_word (mem s3) p1 1 = 0"
    using load32_page_off [OF pg(1), of "mem s3" "mem s2"] p2 keep [of p1] pg oq(2) w [of 1]
      load32_cong [of "p1 + 4 * of_nat 1" "mem s3" "mem s2"] word_in_page [of 1 p1] by auto
  obtain s4 where s4: "free_pages_loop p1 0 1024 s3 = Inr s4" "kinv (Suc d) (p2 # ps) s4"
    "\<And>x. \<not> in_range p2 4096 x \<Longrightarrow> mem s4 x = mem s3 x" "kframe s3 s4"
    using free_pages_one [OF s3(2), of p2 p1] e3 pg w3 by auto
  have "page_ok (kend s4) p1" "p1 \<notin> set (p2 # ps)" using pg e3 s4(4) by (simp_all add: kframe_def)
  then obtain t where t: "kfree p1 s4 = Inr t" "kinv d (p1 # p2 # ps) t"
    "\<And>x. \<not> in_range p1 4096 x \<Longrightarrow> mem t x = mem s4 x" "kframe s4 t"
    using kfree_ok [OF s4(2)] by blast
  have "fill_output n oq s = Inr t"
    using s1(1) s2(1) s3(1) s4(1) t(1) by (simp add: fill_output_def blocks_for_eq Let_def del: free_pages_loop.simps)
  moreover have "mem t x = mem s x" if "\<not> in_range p1 4096 x" "\<not> in_range p2 4096 x"
      "\<not> in_range p3 4096 x" "\<not> in_range oq 4096 x" for x
    using that ks(1) lt by (simp add: t(3) s4(3) s3(3) s2(3) gen_mem_off s1(3) memset_eq store_bytes_out)
  moreover have tl: "mem t x = mem s3 x" if "in_range r 4096 x" "page_ok (kend s) r" "r \<noteq> p1" "r \<noteq> p2" for r x
    using that t(3) s4(3) page_ok_disjoint [OF that(2) pg(1) that(3,1)] page_ok_disjoint [OF that(2) pg(2) that(4,1)] by simp
  have "load32 (mem t) oq = p3"
    using load32_page_off [OF oq(1), of "mem t" "mem s3"] tl [of oq] oq pg(4)
      gen_mem_words [OF pg(3) oq(1) _ lt, of 0 "mem s2"] by (auto simp: s3(3))
  moreover have "load_bytes (mem t) p3 n = take n ?ks"
  proof -
    have "load_bytes (mem t) p3 n = load_bytes (mem s3) p3 n"
      by (rule load_bytes_page_off [OF n(2)]) (use tl [of p3] pg in auto)
    also have "\<dots> = take n ?ks" unfolding s3(3) using ks lt by (subst gen_mem_bytes) simp_all
    finally show ?thesis .
  qed
  moreover have "gframe s t"
    using gframe_trans [OF gframe_trans [OF _ s2(6)] s3(6)] gframe_trans g1
      kframe_gframe [OF s4(4)] kframe_gframe [OF t(4)] by metis
  ultimately show ?thesis
    using t(2) s2(4,5) s3(4,5) kframe_gframe [OF s4(4)] kframe_gframe [OF t(4)] by simp
qed


section \<open>Locks around the generator\<close>

text \<open>Two states that differ only in the bookkeeping of locks, none of them held any longer.\<close>

definition same_unlocked :: "'a prng_st_scheme \<Rightarrow> 'a prng_st_scheme \<Rightarrow> bool" where
  "same_unlocked s u \<longleftrightarrow> balanced s u \<and> mem u = mem s \<and> freelist u = freelist s \<and> kmem_lock u = kmem_lock s
     \<and> use_lock u = use_lock s \<and> kinit2_called u = kinit2_called s \<and> memory_operations u = memory_operations s
     \<and> kend u = kend s \<and> hh u = hh s \<and> ww u = ww s \<and> counter u = counter s \<and> pkey u = pkey s
     \<and> reseed_ctr u = reseed_ctr s \<and> last_reseed_ticks u = last_reseed_ticks s \<and> ticks u = ticks s
     \<and> locked (tickslock u) = locked (tickslock s) \<and> prng_st.more u = prng_st.more s
     \<and> length (pools u) = length (pools s)
     \<and> (\<forall>i < length (pools s). psize (pools u ! i) = psize (pools s ! i)
          \<and> entropy (pools u ! i) = entropy (pools s ! i)
          \<and> locked (plock (pools u ! i)) = locked (plock (pools s ! i)))"

lemma same_unlocked_trans: "same_unlocked s t \<Longrightarrow> same_unlocked t u \<Longrightarrow> same_unlocked s u"
  unfolding same_unlocked_def by (auto intro: balanced_trans)

lemma pool_rep_same: "psize p = psize q \<Longrightarrow> entropy p = entropy q \<Longrightarrow> pool_rep st p = pool_rep st q"
  by (simp add: pool_rep_def)

lemma kinv_same_unlocked:
  assumes "same_unlocked s u" and "kinv b ps s"
  shows "kinv b ps u"
proof -
  have len: "length (pools u) = length (pools s)" using assms(1) by (simp add: same_unlocked_def)
  have pr: "pool_rep st (pools u ! i) = pool_rep st (pools s ! i)"
    "locked (plock (pools u ! i)) = locked (plock (pools s ! i))" if "i < length (pools s)" for st i
    using that assms(1) by (auto intro!: pool_rep_same simp: same_unlocked_def)
  have ar: "accum_rep sts u \<and> pools_free u" if "accum_rep sts s" "pools_free s" for sts
    using that len pr by (simp add: accum_rep_def pools_free_def)
  have "kinit2_called u = kinit2_called s" "memory_operations u = memory_operations s"
    using assms(1) by (simp_all add: same_unlocked_def)
  moreover have "events_ok b s" using assms(2) by (simp add: kinv_def)
  ultimately have "events_ok b u" unfolding events_ok_def using ar by metis
  with assms cpu_room_balanced [of s u 2] show ?thesis
    by (simp add: kinv_def alloc_rep_def same_unlocked_def)
qed

lemma prng_pushcli [simp]:
  "tickslock (pushcli s) = tickslock s" "ticks (pushcli s) = ticks s" "counter (pushcli s) = counter s"
  "pkey (pushcli s) = pkey s" "reseed_ctr (pushcli s) = reseed_ctr s"
  "last_reseed_ticks (pushcli s) = last_reseed_ticks s" "hh (pushcli s) = hh s" "ww (pushcli s) = ww s"
  "prng_st.more (pushcli s) = prng_st.more s"
  by (simp_all add: cli_defs)

lemma prng_leave [simp]:
  "tickslock (leave s t) = tickslock t" "ticks (leave s t) = ticks t" "counter (leave s t) = counter t"
  "pkey (leave s t) = pkey t" "reseed_ctr (leave s t) = reseed_ctr t"
  "last_reseed_ticks (leave s t) = last_reseed_ticks t" "hh (leave s t) = hh t" "ww (leave s t) = ww t"
  "prng_st.more (leave s t) = prng_st.more t"
  by (simp_all add: leave_def)

lemma ticks_section:
  assumes "cpu_ok s" "locked (tickslock s) = 0"
  shows "\<exists>t u. acquire_ticks s = Inr t \<and> ticks t = ticks s \<and> release_ticks t = Inr u \<and> same_unlocked s u"
proof -
  define t where "t = (pushcli s)\<lparr>tickslock := taken s (tickslock s)\<rparr>"
  have b: "balanced (pushcli s) t" by (simp add: t_def balanced_def)
  have "acquire_ticks s = Inr t" using assms(2) by (simp add: acquire_ticks_def acquire_free t_def)
  moreover have "release_ticks t = Inr (leave s t\<lparr>tickslock := freed (tickslock t)\<rparr>)"
    using release_taken [OF assms(1) b, of "tickslock t"] by (simp add: release_ticks_def t_def)
  moreover have "same_unlocked s (leave s t\<lparr>tickslock := freed (tickslock t)\<rparr>)"
    using balanced_leave [OF assms(1) b] assms(2) by (simp add: same_unlocked_def t_def balanced_def)
  ultimately show ?thesis by (auto simp: t_def)
qed

lemma pool_section:
  assumes "cpu_ok s" "locked (plock (pools s ! i)) = 0" "i < length (pools s)"
  shows "\<exists>t u. acquire_pool i s = Inr t \<and> release_pool i t = Inr u \<and> same_unlocked s u
     \<and> psize (pools t ! i) = psize (pools s ! i) \<and> last_reseed_ticks t = last_reseed_ticks s
     \<and> reseed_ctr t = reseed_ctr s"
proof -
  define lk where "lk = taken s (plock (pools s ! i))"
  define t where "t = (pushcli s)\<lparr>pools := (pools s)[i := (pools s ! i)\<lparr>plock := lk\<rparr>]\<rparr>"
  define u where "u = leave s t\<lparr>pools := (pools t)[i := (pools t ! i)\<lparr>plock := freed lk\<rparr>]\<rparr>"
  have b: "balanced (pushcli s) t" by (simp add: t_def balanced_def)
  have "acquire_pool i s = Inr t" using assms(2) by (simp add: acquire_pool_def acquire_free t_def lk_def)
  moreover have "release_pool i t = Inr u"
    using release_taken [OF assms(1) b, of lk] assms(3) by (simp add: release_pool_def t_def u_def lk_def)
  moreover have "same_unlocked s u"
    using balanced_leave [OF assms(1) b] assms(2,3)
    by (simp add: same_unlocked_def t_def u_def lk_def balanced_def nth_list_update)
  ultimately show ?thesis using assms(3) by (auto simp: t_def)
qed


section \<open>A call that does not reseed\<close>

definition reseed_due :: "'a prng_st_scheme \<Rightarrow> bool" where
  "reseed_due s \<longleftrightarrow> sint (psize (pools s ! 0)) > MIN_SIZE_POOL \<and> ticks s - last_reseed_ticks s > 10"

lemma prngrand_start:
  assumes "cpu_ok s" "locked (tickslock s) = 0" "locked (plock (pools s ! 0)) = 0" "0 < length (pools s)"
    and "\<not> reseed_due s"
  shows "\<exists>t u v. acquire_ticks s = Inr t \<and> ticks t = ticks s \<and> release_ticks t = Inr u
     \<and> prng_reseed_part ubshl (ticks s) u = Inr v \<and> same_unlocked s v"
proof -
  obtain t u where tu: "acquire_ticks s = Inr t" "ticks t = ticks s" "release_ticks t = Inr u" "same_unlocked s u"
    using ticks_section [OF assms(1,2)] by blast
  have u: "cpu_ok u" "locked (plock (pools u ! 0)) = 0" "0 < length (pools u)"
    "psize (pools u ! 0) = psize (pools s ! 0)" "last_reseed_ticks u = last_reseed_ticks s"
    using tu(4) assms cpu_ok_balanced [of s u] by (auto simp: same_unlocked_def)
  obtain w v where "acquire_pool 0 u = Inr w" "release_pool 0 w = Inr v" "same_unlocked u v"
    "psize (pools w ! 0) = psize (pools u ! 0)" "last_reseed_ticks w = last_reseed_ticks u"
    using pool_section [OF u(1-3)] by blast
  with u assms(5) have "prng_reseed_part ubshl (ticks s) u = Inr v" "same_unlocked s v"
    using same_unlocked_trans [OF tu(4)] by (auto simp: prng_reseed_part_def reseed_due_def)
  with tu show ?thesis by blast
qed

lemma prngranddata_ok:
  fixes s :: "'a prng_st_scheme"
  assumes inv: "kinv (d + 9) (p1 # p2 # p3 # ps) s"
    and oq: "page_ok (kend s) oq" "oq \<notin> set (p1 # p2 # p3 # ps)"
    and n: "0 < n" "n \<le> 4096"
    and c: "counter s ! 0 \<noteq> 0" "(incr_counter ^^ blocks_for n) (counter s) ! 0 \<noteq> 0"
  shows "\<exists>t. prngranddata (of_nat n) oq s = Inr t \<and> kinv d (p1 # p2 # ps) t
     \<and> (\<forall>x. \<not> in_range p1 4096 x \<longrightarrow> \<not> in_range p2 4096 x \<longrightarrow> \<not> in_range p3 4096 x
          \<longrightarrow> \<not> in_range oq 4096 x \<longrightarrow> mem t x = mem s x)
     \<and> load32 (mem t) oq = p3 \<and> load_bytes (mem t) p3 n = take n (gen_stream (pkey s) (counter s) (blocks_for n))
     \<and> pkey t = gen_stream (pkey s) ((incr_counter ^^ blocks_for n) (counter s)) 2
     \<and> counter t = (incr_counter ^^ (2 + blocks_for n)) (counter s) \<and> gframe s t"
proof -
  have pg: "page_ok (kend s) p1" "page_ok (kend s) p2" "page_ok (kend s) p3" "distinct (p1 # p2 # p3 # ps)"
    using inv by (auto simp: kinv_def alloc_rep_def)
  have inv': "kinv (Suc (Suc (Suc (Suc (Suc (Suc (Suc (Suc (Suc d))))))))) (p1 # p2 # p3 # ps) s"
    using inv by (simp add: numeral_eq_Suc)
  obtain s1 where s1: "fill_output n oq s = Inr s1" "kinv (Suc (Suc (Suc (Suc d)))) (p1 # p2 # ps) s1"
    "\<And>x. \<not> in_range p1 4096 x \<Longrightarrow> \<not> in_range p2 4096 x \<Longrightarrow> \<not> in_range p3 4096 x \<Longrightarrow>
       \<not> in_range oq 4096 x \<Longrightarrow> mem s1 x = mem s x"
    "load32 (mem s1) oq = p3" "load_bytes (mem s1) p3 n = take n (gen_stream (pkey s) (counter s) (blocks_for n))"
    "pkey s1 = pkey s" "counter s1 = (incr_counter ^^ blocks_for n) (counter s)" "gframe s s1"
    using fill_output_ok [OF inv' oq c(1) n] by blast
  obtain t where t: "renew_key s1 = Inr t" "kinv d (p1 # p2 # ps) t"
    "\<And>x. \<not> in_range p1 4096 x \<Longrightarrow> \<not> in_range p2 4096 x \<Longrightarrow> mem t x = mem s1 x"
    "pkey t = gen_stream (pkey s1) (counter s1) 2" "counter t = (incr_counter ^^ 2) (counter s1)" "gframe s1 t"
    using renew_key_ok [OF s1(2)] c(2) s1(7) by auto
  have off: "mem t x = mem s1 x" if "in_range r 4096 x" "page_ok (kend s) r" "r \<noteq> p1" "r \<noteq> p2" for r x
    using t(3) page_ok_disjoint [OF that(2) pg(1) that(3,1)] page_ok_disjoint [OF that(2) pg(2) that(4,1)] by simp
  have "sint (of_nat n :: i32) = int n" using n by (intro sint_of_nat) simp
  then have "prngranddata (of_nat n) oq s = Inr t"
    using n page_ok_nonzero [OF oq(1)] s1(1) t(1) by (simp add: prngranddata_def)
  moreover have "load32 (mem t) oq = p3"
    using load32_page_off [OF oq(1), of "mem t" "mem s1"] off [of oq] oq s1(4) by auto
  moreover have "load_bytes (mem t) p3 n = load_bytes (mem s1) p3 n"
    by (rule load_bytes_page_off [OF n(2)]) (use off [of p3] pg in auto)
  ultimately show ?thesis
    using t s1 gframe_trans [OF s1(8) t(6)] by (simp add: funpow_add numeral_2_eq_2)
qed

lemma copy_pages_one:
  fixes s :: "'a prng_st_scheme"
  assumes inv: "kinv (Suc d) ps s" and p: "page_ok (kend s) p" "p \<notin> set ps" "load32 (mem s) q = p"
    and n: "n < 4096" "unat out + n \<le> 2 ^ 32"
    and off: "\<And>r x. r \<in> set ps \<Longrightarrow> in_range r 4096 x \<Longrightarrow> \<not> in_range out n x"
  shows "\<exists>t. copy_pages_loop out q 0 1024 (of_nat n) s = Inr t \<and> kinv d (p # ps) t \<and> kframe s t
     \<and> (\<forall>x. \<not> in_range p 4096 x \<longrightarrow> mem t x = store_bytes (mem s) out (load_bytes (mem s) p n) x)"
proof -
  define m where "m = store_bytes (mem s) out (load_bytes (mem s) p n)"
  have un: "unat (of_nat n :: u32) = n" "sint (of_nat n :: i32) = int n"
    using n by (auto simp: unat_of_nat intro: sint_of_nat)
  have "unat p + n \<le> 2 ^ 32" using page_room [OF page_ok_aligned [OF p(1)]] n by simp
  then have "memmove (mem s) out p (of_nat n) = m"
    using memmove_eq [of p "of_nat n" out "mem s"] n un by (simp add: m_def)
  moreover have "(1024 :: nat) = Suc 1023" by simp
  ultimately have eq: "copy_pages_loop out q 0 1024 (of_nat n) s = kfree p (s\<lparr>mem := m\<rparr>)"
    using p(3) n(1) un(2) by (simp only: copy_pages_loop.simps) (simp add: Let_def)
  have "kinv (Suc d) ps (s\<lparr>mem := m\<rparr>)"
    by (rule kinv_put [OF inv]) (use off in \<open>auto simp: m_def store_bytes_def\<close>)
  then obtain t where "kfree p (s\<lparr>mem := m\<rparr>) = Inr t" "kinv d (p # ps) t"
    "\<And>x. \<not> in_range p 4096 x \<Longrightarrow> mem t x = m x" "kframe (s\<lparr>mem := m\<rparr>) t"
    using kfree_ok [of d ps "s\<lparr>mem := m\<rparr>" p] p by auto
  then show ?thesis using eq by (auto simp: m_def kframe_def balanced_def)
qed

lemma prngrand_ok:
  fixes s :: "'a prng_st_scheme"
  assumes inv: "kinv (d + 12) (p0 # p1 # p2 # p3 # ps) s"
    and locks: "locked (tickslock s) = 0" "locked (plock (pools s ! 0)) = 0" "0 < length (pools s)"
    and seeded: "\<not> reseed_due s" "reseed_ctr s \<noteq> 0"
    and c: "counter s ! 0 \<noteq> 0" "(incr_counter ^^ blocks_for n) (counter s) ! 0 \<noteq> 0"
    and n: "0 < n" "n < 4096" "unat out + n \<le> 2 ^ 32"
    and off: "\<And>r x. r \<in> set (p0 # p1 # p2 # p3 # ps) \<Longrightarrow> in_range r 4096 x \<Longrightarrow> \<not> in_range out n x"
  shows "\<exists>t. prngrand ubshl out (of_nat n) s = Inr t
     \<and> load_bytes (mem t) out n = take n (gen_stream (pkey s) (counter s) (blocks_for n))
     \<and> pkey t = gen_stream (pkey s) ((incr_counter ^^ blocks_for n) (counter s)) 2
     \<and> counter t = (incr_counter ^^ (2 + blocks_for n)) (counter s)
     \<and> kinv d (p0 # p3 # p1 # p2 # ps) t \<and> reseed_ctr t = reseed_ctr s
     \<and> (\<forall>x. (\<forall>r \<in> {p0, p1, p2, p3}. \<not> in_range r 4096 x) \<longrightarrow> \<not> in_range out n x \<longrightarrow> mem t x = mem s x)"
proof -
  let ?ks = "take n (gen_stream (pkey s) (counter s) (blocks_for n))"
  have ok: "cpu_ok s" using inv by (simp add: kinv_def cpu_room_def)
  obtain a b v where v: "acquire_ticks s = Inr a" "ticks a = ticks s" "release_ticks a = Inr b"
    "prng_reseed_part ubshl (ticks s) b = Inr v" "same_unlocked s v"
    using prngrand_start [OF ok locks seeded(1)] by blast
  have vs: "mem v = mem s" "counter v = counter s" "pkey v = pkey s" "reseed_ctr v = reseed_ctr s" "kend v = kend s"
    using v(5) by (simp_all add: same_unlocked_def)
  have "kinv (d + 12) (p0 # p1 # p2 # p3 # ps) v" by (rule kinv_same_unlocked [OF v(5) inv])
  then have inv1: "kinv (Suc (d + 2 + 9)) (p0 # p1 # p2 # p3 # ps) v" by (simp add: numeral_eq_Suc)
  have pg: "page_ok (kend s) p0" "page_ok (kend s) p3" "distinct (p0 # p1 # p2 # p3 # ps)"
    "page_ok (kend s) p1" "page_ok (kend s) p2"
    using inv by (auto simp: kinv_def alloc_rep_def)
  obtain s1 where s1: "kalloc_zeroed ''prngrand: unable to allocate memory.'' v = Inr (p0, s1)"
    "kinv (d + 2 + 9) (p1 # p2 # p3 # ps) s1" "mem s1 = memset (mem s) p0 0 4096" "kframe v s1"
    using kalloc_zeroed_ok [OF inv1] vs(1) by auto
  note g1 = kframe_gframe [OF s1(4)]
  have e1: "kend s1 = kend s" using s1(4) vs by (simp add: kframe_def)
  obtain s2 where s2: "prngranddata (of_nat n) p0 s1 = Inr s2" "kinv (d + 2) (p1 # p2 # ps) s2"
    "\<And>x. \<not> in_range p1 4096 x \<Longrightarrow> \<not> in_range p2 4096 x \<Longrightarrow> \<not> in_range p3 4096 x \<Longrightarrow>
       \<not> in_range p0 4096 x \<Longrightarrow> mem s2 x = mem s1 x"
    "load32 (mem s2) p0 = p3" "load_bytes (mem s2) p3 n = ?ks"
    "pkey s2 = gen_stream (pkey s) ((incr_counter ^^ blocks_for n) (counter s)) 2"
    "counter s2 = (incr_counter ^^ (2 + blocks_for n)) (counter s)" "gframe s1 s2"
    using prngranddata_ok [OF s1(2), of p0 n] pg e1 g1 vs c n by auto
  have e2: "kend s2 = kend s" using s2(8) e1 by (simp add: gframe_def)
  have inv2: "kinv (Suc (Suc d)) (p1 # p2 # ps) s2" using s2(2) by simp
  obtain s3 where s3: "copy_pages_loop out p0 0 1024 (of_nat n) s2 = Inr s3" "kinv (Suc d) (p3 # p1 # p2 # ps) s3"
    "kframe s2 s3" "\<And>x. \<not> in_range p3 4096 x \<Longrightarrow> mem s3 x = store_bytes (mem s2) out ?ks x"
    using copy_pages_one [OF inv2, of p3 p0 n out] pg e2 s2(4,5) n off by auto
  have "page_ok (kend s3) p0" "p0 \<notin> set (p3 # p1 # p2 # ps)" using pg e2 s3(3) by (auto simp: kframe_def)
  then obtain t where t: "kfree p0 s3 = Inr t" "kinv d (p0 # p3 # p1 # p2 # ps) t"
    "\<And>x. \<not> in_range p0 4096 x \<Longrightarrow> mem t x = mem s3 x" "kframe s3 t"
    using kfree_ok [OF s3(2)] by blast
  note g3 = kframe_gframe [OF s3(3)] and g4 = kframe_gframe [OF t(4)]
  have eq: "prngrand ubshl out (of_nat n) s = Inr t"
    using v(1-4) vs(4) seeded(2) s1(1) s2(1) s3(1) t(1) by (simp add: prngrand_def Let_def)
  have len: "length ?ks = n" using blocks_for_bounds(2) [of n] by simp
  have outside: "mem t x = store_bytes (mem s2) out ?ks x" if "\<not> in_range p0 4096 x" "\<not> in_range p3 4096 x" for x
    using that t(3) s3(4) by simp
  have "load_bytes (mem t) out n = load_bytes (store_bytes (mem s2) out ?ks) out n"
  proof (rule load_bytes_cong)
    fix x assume "in_range out n x"
    then have "\<not> in_range p0 4096 x" "\<not> in_range p3 4096 x" using off [of p0 x] off [of p3 x] by auto
    then show "mem t x = store_bytes (mem s2) out ?ks x" by (rule outside)
  qed (use n in simp)
  also have "\<dots> = ?ks" using len n(2) by (intro load_store_bytes) simp_all
  finally have data: "load_bytes (mem t) out n = ?ks" .
  have rest: "mem t x = mem s x" if "\<forall>r \<in> {p0, p1, p2, p3}. \<not> in_range r 4096 x" "\<not> in_range out n x" for x
    using that outside [of x] s2(3) [of x] len by (simp add: store_bytes_out s1(3) memset_eq)
  have "reseed_ctr t = reseed_ctr s" using g1 s2(8) g3 g4 vs(4) by (simp add: gframe_def)
  with eq data rest t(2) g3 g4 s2(6,7) show ?thesis by auto
qed


section \<open>The counter\<close>

definition counter_rank :: "u32 list \<Rightarrow> nat" where
  "counter_rank c = unat (c ! 0) + unat (c ! 1) + unat (c ! 2) + unat (c ! 3)"

lemma unat_succ: "(w :: u32) \<noteq> 0xFFFFFFFF \<Longrightarrow> unat (w + 1) = unat w + 1"
proof -
  assume "w \<noteq> 0xFFFFFFFF"
  then have "unat w \<noteq> 4294967295" by (auto simp: word_unat_eq_iff)
  with unat_less_exp32 [of w] show ?thesis by (simp add: unat_word_ariths)
qed

lemma counter_rank_incr:
  assumes "length c = 4" "counter_rank c < 4 * (2 ^ 32 - 1)"
  shows "counter_rank (incr_counter c) = counter_rank c + 1 \<and> length (incr_counter c) = 4"
proof -
  obtain a b d e where c: "c = [a, b, d, e]" using assms(1) by (auto simp: numeral_eq_Suc length_Suc_conv)
  have "\<not> (a = 0xFFFFFFFF \<and> b = 0xFFFFFFFF \<and> d = 0xFFFFFFFF \<and> e = 0xFFFFFFFF)"
    using assms(2) by (auto simp: counter_rank_def c)
  then show ?thesis
    by (auto simp: incr_counter_def c counter_rank_def unat_succ)
qed

lemma counter_rank_funpow:
  assumes "length c = 4" "counter_rank c + k \<le> 4 * (2 ^ 32 - 1)"
  shows "counter_rank ((incr_counter ^^ k) c) = counter_rank c + k \<and> length ((incr_counter ^^ k) c) = 4"
  using assms(2)
proof (induction k)
  case 0
  then show ?case using assms(1) by simp
next
  case (Suc k)
  then show ?case using counter_rank_incr [of "(incr_counter ^^ k) c"] by simp
qed

lemma incr_counter_last:
  assumes "counter_rank c = 4 * (2 ^ 32 - 1)" "length c = 4"
  shows "incr_counter c = replicate 4 0"
proof -
  obtain a b d e where c: "c = [a, b, d, e]" using assms(2) by (auto simp: numeral_eq_Suc length_Suc_conv)
  have "unat a = 4294967295" "unat b = 4294967295" "unat d = 4294967295" "unat e = 4294967295"
    using assms(1) unat_less_exp32 [of a] unat_less_exp32 [of b] unat_less_exp32 [of d] unat_less_exp32 [of e]
    by (simp_all add: counter_rank_def c)
  then have "a = 0xFFFFFFFF" "b = 0xFFFFFFFF" "d = 0xFFFFFFFF" "e = 0xFFFFFFFF"
    by (simp_all add: word_unat_eq_iff)
  then show ?thesis by (simp add: c incr_counter_def numeral_eq_Suc)
qed

text \<open>Draining a pool.\<close>

lemma or_bit_nonzero: "i < 32 \<Longrightarrow> (r :: i32) OR push_bit i 1 \<noteq> 0"
proof
  assume "i < 32" and "r OR push_bit i 1 = 0"
  then have "bit (r OR push_bit i 1) i = bit (0 :: i32) i" by simp
  with \<open>i < 32\<close> show False by (simp add: bit_or_iff bit_push_bit_iff bit_exp_iff)
qed

lemma release_pool_psize:
  "release_pool i s = Inr t \<Longrightarrow> psize (pools t ! i) = psize (pools s ! i)"
  by (cases "i < length (pools s)")
    (auto simp: release_pool_def release_def popcli_def bind_res_eq_Inr Let_def sti_def not_less
      list_update_beyond split: if_splits prod.splits)

text \<open>Asking for no bytes: no page is entered in the pointer page.\<close>

lemma fill_output_none:
  fixes s :: "'a prng_st_scheme"
  assumes inv: "kinv (Suc (Suc d)) (p1 # ps) s" and c: "counter s ! 0 \<noteq> 0"
  shows "\<exists>t. fill_output 0 oq s = Inr t \<and> kinv d (p1 # ps) t \<and> counter t = counter s \<and> kframe s t
     \<and> (\<forall>x. \<not> in_range p1 4096 x \<longrightarrow> mem t x = mem s x)"
proof -
  have pg: "page_ok (kend s) p1" "p1 \<notin> set ps" using inv by (auto simp: kinv_def alloc_rep_def)
  obtain s1 where s1: "kalloc_zeroed ''prngranddata: unable to allocate memory.'' s = Inr (p1, s1)"
    "kinv (Suc d) ps s1" "mem s1 = memset (mem s) p1 0 4096" "kframe s s1"
    using kalloc_zeroed_ok [OF inv] by blast
  have c1: "counter s1 = counter s" using kframe_gframe [OF s1(4)] by simp
  have "load32 (mem s1) p1 = 0" using page_word_zeroed [of 0 "mem s" p1] by (simp add: s1(3))
  then have "free_pages_loop p1 0 (Suc n) s1 = Inr s1" for n by (simp add: Let_def)
  from this [of 1023] have fp: "free_pages_loop p1 0 1024 s1 = Inr s1" by (simp del: free_pages_loop.simps)
  have "page_ok (kend s1) p1" using pg s1(4) by (simp add: kframe_def)
  then obtain t where t: "kfree p1 s1 = Inr t" "kinv d (p1 # ps) t"
    "\<And>x. \<not> in_range p1 4096 x \<Longrightarrow> mem t x = mem s1 x" "kframe s1 t"
    using kfree_ok [OF s1(2) _ pg(2)] by blast
  have "fill_output 0 oq s = Inr t"
    using s1(1) fp t(1) c c1 page_ok_nonzero [OF pg(1)]
    by (simp add: fill_output_def prnggenblocks_def Let_def del: free_pages_loop.simps)
  moreover have "\<forall>x. \<not> in_range p1 4096 x \<longrightarrow> mem t x = mem s x"
    using t(3) by (simp add: s1(3) memset_eq store_bytes_out)
  ultimately show ?thesis
    using t(2) c1 kframe_gframe [OF t(4)] kframe_trans [OF s1(4) t(4)] by auto
qed

lemma prngrand_none:
  fixes s :: "'a prng_st_scheme"
  assumes inv: "kinv (d + 8) (p0 # p1 # p2 # ps) s"
    and locks: "locked (tickslock s) = 0" "locked (plock (pools s ! 0)) = 0" "0 < length (pools s)"
    and seeded: "\<not> reseed_due s" "reseed_ctr s \<noteq> 0" and c: "counter s ! 0 \<noteq> 0"
  shows "prngrand ubshl out 0 s = Inl (Panic ''kfree'')"
proof -
  have ok: "cpu_ok s" using inv by (simp add: kinv_def cpu_room_def)
  obtain a b v where v: "acquire_ticks s = Inr a" "ticks a = ticks s" "release_ticks a = Inr b"
    "prng_reseed_part ubshl (ticks s) b = Inr v" "same_unlocked s v"
    using prngrand_start [OF ok locks seeded(1)] by blast
  have vs: "counter v = counter s" "reseed_ctr v = reseed_ctr s" using v(5) by (simp_all add: same_unlocked_def)
  have "kinv (d + 8) (p0 # p1 # p2 # ps) v" by (rule kinv_same_unlocked [OF v(5) inv])
  then have inv1: "kinv (Suc (Suc (Suc (d + 5)))) (p0 # p1 # p2 # ps) v" by (simp add: numeral_eq_Suc)
  have pg: "page_ok (kend v) p0" "page_ok (kend v) p1" "page_ok (kend v) p2" "distinct (p0 # p1 # p2 # ps)"
    using inv1 by (auto simp: kinv_def alloc_rep_def)
  obtain s1 where s1: "kalloc_zeroed ''prngrand: unable to allocate memory.'' v = Inr (p0, s1)"
    "kinv (Suc (Suc (d + 5))) (p1 # p2 # ps) s1" "mem s1 = memset (mem v) p0 0 4096" "kframe v s1"
    using kalloc_zeroed_ok [OF inv1] by auto
  have c1: "counter s1 ! 0 \<noteq> 0" using kframe_gframe [OF s1(4)] vs c by simp
  obtain s2 where s2: "fill_output 0 p0 s1 = Inr s2" "kinv (d + 5) (p1 # p2 # ps) s2" "counter s2 = counter s1"
    "\<And>x. \<not> in_range p1 4096 x \<Longrightarrow> mem s2 x = mem s1 x"
    using fill_output_none [OF s1(2) c1] by blast
  have inv2: "kinv (Suc (Suc (Suc (Suc (d + 1))))) (p1 # p2 # ps) s2" using s2(2) by (simp add: numeral_eq_Suc)
  obtain s3 where s3: "renew_key s2 = Inr s3"
    "\<And>x. \<not> in_range p1 4096 x \<Longrightarrow> \<not> in_range p2 4096 x \<Longrightarrow> mem s3 x = mem s2 x"
    using renew_key_ok [OF inv2] s2(3) c1 by auto
  have "load32 (mem s3) p0 = load32 (mem s1) p0"
    using load32_page_off [OF pg(1), of "mem s3" "mem s1"] s3(2) s2(4) page_ok_disjoint [OF pg(1,2)]
      page_ok_disjoint [OF pg(1,3)] pg(4) by auto
  also have "\<dots> = 0" using page_word_zeroed [of 0 "mem v" p0] by (simp add: s1(3))
  finally have "load32 (mem s3) p0 = 0" .
  moreover have "kfree 0 u = Inl (Panic ''kfree'')" for u :: "'a prng_st_scheme"
    by (rule kfree_bad) (auto dest: page_ok_nonzero)
  ultimately have "copy_pages_loop out p0 0 (Suc n) 0 s3 = Inl (Panic ''kfree'')" for n by (simp add: Let_def)
  from this [of 1023] have "copy_pages_loop out p0 0 1024 0 s3 = Inl (Panic ''kfree'')"
    by (simp del: copy_pages_loop.simps)
  then show ?thesis
    using v(1-4) vs(2) seeded(2) s1(1) s2(1) s3(1) page_ok_nonzero [OF pg(1)]
    by (simp add: prngrand_def prngranddata_def Let_def del: copy_pages_loop.simps)
qed


text \<open>A seeded generator on a machine with four free pages.\<close>

definition four_pages :: prng_st where
  "four_pages = sha_st.extend (one_page_sha\<lparr>mem := (\<lambda>_. 0)(0x80400001 := 0x10, 0x80400002 := 0x40,
       0x80400003 := 0x80, 0x80401001 := 0x20, 0x80401002 := 0x40, 0x80401003 := 0x80,
       0x80402001 := 0x30, 0x80402002 := 0x40, 0x80402003 := 0x80)\<rparr>)
     (prng_st.fields [1, 0, 0, 0] (replicate 32 0) 1 0 0 zero_lock)"

lemma four_pages_facts:
  "kinv 12 [0x80400000, 0x80401000, 0x80402000, 0x80403000] four_pages"
  "locked (tickslock four_pages) = 0" "locked (plock (pools four_pages ! 0)) = 0" "0 < length (pools four_pages)"
  "\<not> reseed_due four_pages" "reseed_ctr four_pages = 1" "counter four_pages = [1, 0, 0, 0]"
  "pkey four_pages = replicate 32 0"
  by (simp_all add: four_pages_def one_page_sha_def one_page_def ent_st.defs kmem_st.defs sha_st.defs prng_st.defs
      kinv_def alloc_rep_def zero_ent_def events_ok_def cpu_room_def cpu_ok_def page_ok_def PGSIZE_def V2P_def
      KERNBASE_def PHYSTOP_def zero_lock_def load32_def u32_of_bytes_def reseed_due_def MIN_SIZE_POOL_def MAX_POOLS_def)


section \<open>Properties\<close>

text \<open>
  C1: a call of \<open>prngrand\<close> for up to 4095 bytes on a seeded generator that is not due for a
  reseed. The caller's buffer receives the first bytes of the blocks that AES-256 in counter
  mode gives under the current key, the key is replaced by the two blocks that follow them, so
  the old key is gone, the counter has moved past all blocks used, all four work pages are
  free again, and no memory outside them and the buffer has changed.
\<close>

theorem prngrand_output:
  fixes s :: "'a prng_st_scheme"
  assumes "kinv (d + 12) (p0 # p1 # p2 # p3 # ps) s"
    and "locked (tickslock s) = 0" "locked (plock (pools s ! 0)) = 0" "0 < length (pools s)"
    and "\<not> reseed_due s" "reseed_ctr s \<noteq> 0"
    and "counter s ! 0 \<noteq> 0" "(incr_counter ^^ blocks_for n) (counter s) ! 0 \<noteq> 0"
    and "0 < n" "n < 4096" "unat out + n \<le> 2 ^ 32"
    and "\<forall>r \<in> set (p0 # p1 # p2 # p3 # ps). \<forall>x. in_range r 4096 x \<longrightarrow> \<not> in_range out n x"
  shows "\<exists>t. prngrand ubshl out (of_nat n) s = Inr t
     \<and> load_bytes (mem t) out n = take n (gen_stream (pkey s) (counter s) (blocks_for n))
     \<and> pkey t = gen_stream (pkey s) ((incr_counter ^^ blocks_for n) (counter s)) 2
     \<and> counter t = (incr_counter ^^ (2 + blocks_for n)) (counter s)
     \<and> kinv d (p0 # p3 # p1 # p2 # ps) t \<and> reseed_ctr t = reseed_ctr s
     \<and> (\<forall>x. (\<forall>r \<in> {p0, p1, p2, p3}. \<not> in_range r 4096 x) \<longrightarrow> \<not> in_range out n x \<longrightarrow> mem t x = mem s x)"
  by (rule prngrand_ok [OF assms(1-11)]) (use assms(12) in blast)

theorem prngrand_output_witness:
  "\<exists>t. prngrand x86_shl 0x1000 20 four_pages = Inr t \<and> counter t = [5, 0, 0, 0]
     \<and> load_bytes (mem t) 0x1000 20 = take 20 (gen_stream (replicate 32 0) [1, 0, 0, 0] 2)"
proof -
  have b: "blocks_for 20 = 2" by (simp add: blocks_for_def)
  have k: "kinv (0 + 12) [0x80400000, 0x80401000, 0x80402000, 0x80403000] four_pages"
    using four_pages_facts(1) by simp
  have off: "\<forall>r \<in> set [0x80400000, 0x80401000, 0x80402000, 0x80403000 :: u32].
      \<forall>x. in_range r 4096 x \<longrightarrow> \<not> in_range 0x1000 20 x"
    by (auto simp: in_range_def unat_arith_simps split: if_splits)
  have two: "(incr_counter ^^ 2) x = incr_counter (incr_counter x)" for x by (simp add: numeral_2_eq_2)
  have c: "reseed_ctr four_pages \<noteq> 0" "counter four_pages ! 0 \<noteq> 0" using four_pages_facts(6,7) by simp_all
  have c': "(incr_counter ^^ 2) [1, 0, 0, 0] = [3, 0, 0, 0]" "(incr_counter ^^ (2 + 2)) [1, 0, 0, 0] = [5, 0, 0, 0]"
    unfolding funpow_add comp_def two by (simp_all add: incr_counter_def)
  have n: "(incr_counter ^^ blocks_for 20) (counter four_pages) ! 0 \<noteq> 0" "0 < (20 :: nat)" "20 < (4096 :: nat)"
    "unat (0x1000 :: u32) + 20 \<le> 2 ^ 32"
    using c'(1) by (simp_all add: b four_pages_facts(7))
  show ?thesis
    using prngrand_output [OF k four_pages_facts(2-5) c(1,2) n off, where ubshl = x86_shl] c'(2)
    unfolding b four_pages_facts(7,8) by auto
qed

text \<open>
  C23: before its first reseed the generator gives nothing: \<open>prngrand\<close> panics.
\<close>

theorem prngrand_unseeded:
  fixes s :: "'a prng_st_scheme"
  assumes "cpu_ok s" "locked (tickslock s) = 0" "locked (plock (pools s ! 0)) = 0" "0 < length (pools s)"
    and "\<not> reseed_due s" "reseed_ctr s = 0"
  shows "prngrand ubshl out n s = Inl (Panic ''prngrand: attempted to get random data without seeding.'')"
proof -
  obtain a b v where "acquire_ticks s = Inr a" "ticks a = ticks s" "release_ticks a = Inr b"
    "prng_reseed_part ubshl (ticks s) b = Inr v" "same_unlocked s v"
    using prngrand_start [OF assms(1-5)] by blast
  with assms(6) show ?thesis by (simp add: prngrand_def Let_def same_unlocked_def)
qed

theorem prngrand_unseeded_witness:
  "prngrand x86_shl 0x1000 20 (four_pages\<lparr>reseed_ctr := 0\<rparr>)
     = Inl (Panic ''prngrand: attempted to get random data without seeding.'')"
  by (rule prngrand_unseeded)
    (use four_pages_facts in \<open>simp_all add: reseed_due_def kinv_def cpu_room_def cpu_ok_def\<close>)

text \<open>
  C37: a seeded generator asked for no bytes at all panics: no data page is allocated, and the
  null entry of the pointer page is handed to \<open>kfree\<close>.
\<close>

theorem prngrand_zero_panics:
  fixes s :: "'a prng_st_scheme"
  assumes "kinv (d + 8) (p0 # p1 # p2 # ps) s"
    and "locked (tickslock s) = 0" "locked (plock (pools s ! 0)) = 0" "0 < length (pools s)"
    and "\<not> reseed_due s" "reseed_ctr s \<noteq> 0" "counter s ! 0 \<noteq> 0"
  shows "prngrand ubshl out 0 s = Inl (Panic ''kfree'')"
  by (rule prngrand_none [OF assms])

theorem prngrand_zero_panics_witness: "prngrand x86_shl 0x1000 0 four_pages = Inl (Panic ''kfree'')"
proof -
  have "kinv (4 + 8) [0x80400000, 0x80401000, 0x80402000, 0x80403000] four_pages"
    using four_pages_facts(1) by simp
  from prngrand_zero_panics [OF this four_pages_facts(2-5)] four_pages_facts(6,7) show ?thesis by simp
qed

text \<open>
  C38: the counter of the generator does not repeat within \<open>4 * (2 ^ 32 - 1)\<close> steps, each of
  which raises the sum of its four words by one, and that is also all it has: from the last
  value it returns to 0, and a call of \<open>prnggenblocks\<close> then panics. (A 128-bit counter would
  have \<open>2 ^ 128\<close> values.)
\<close>

theorem incr_counter_period:
  assumes "length c = 4" "counter_rank c + k \<le> 4 * (2 ^ 32 - 1)"
  shows "(\<forall>i j. i < j \<and> j \<le> k \<longrightarrow> (incr_counter ^^ i) c \<noteq> (incr_counter ^^ j) c)
    \<and> (counter_rank c + k = 4 * (2 ^ 32 - 1) \<longrightarrow> (incr_counter ^^ (k + 1)) c = replicate 4 0)
    \<and> (counter s = replicate 4 0 \<longrightarrow>
        prnggenblocks n pg s = Inl (Panic ''prnggenblocks: called with non-seeded generator.''))"
proof (intro conjI allI impI)
  fix i j assume "i < j \<and> j \<le> k"
  then show "(incr_counter ^^ i) c \<noteq> (incr_counter ^^ j) c"
    using counter_rank_funpow [OF assms(1), of i] counter_rank_funpow [OF assms(1), of j] assms(2) by auto
next
  assume "counter_rank c + k = 4 * (2 ^ 32 - 1)"
  with counter_rank_funpow [OF assms] have "counter_rank ((incr_counter ^^ k) c) = 4 * (2 ^ 32 - 1)"
    "length ((incr_counter ^^ k) c) = 4" by auto
  then have "incr_counter ((incr_counter ^^ k) c) = replicate 4 0" by (rule incr_counter_last)
  then show "(incr_counter ^^ (k + 1)) c = replicate 4 0" by simp
qed (simp add: prnggenblocks_def)

theorem incr_counter_period_witness:
  "(incr_counter ^^ 0) [0xFFFFFFFF, 0xFFFFFFFF, 0xFFFFFFFF, 0xFFFFFFFE] \<noteq>
     (incr_counter ^^ 1) [0xFFFFFFFF, 0xFFFFFFFF, 0xFFFFFFFF, 0xFFFFFFFE]
   \<and> (incr_counter ^^ (1 + 1)) [0xFFFFFFFF, 0xFFFFFFFF, 0xFFFFFFFF, 0xFFFFFFFE] = replicate 4 0"
proof -
  let ?c = "[0xFFFFFFFF, 0xFFFFFFFF, 0xFFFFFFFF, 0xFFFFFFFE] :: u32 list"
  have r: "length ?c = 4" "counter_rank ?c + 1 \<le> 4 * (2 ^ 32 - 1)" "counter_rank ?c + 1 = 4 * (2 ^ 32 - 1)"
    by (simp_all add: counter_rank_def)
  show ?thesis using incr_counter_period [OF r(1,2)] r(3) by blast
qed

end
