(* ===== verification/Reseed.thy ===== *)
theory Reseed
  imports Prng
begin

text \<open>
  What a reseed of the generator of \<open>src/prng.c\<close> does: the branch of \<open>prngrand\<close> that hashes the
  entropy pools into a seed page, and \<open>prngreseed\<close>, which hashes the seed into the new key.
\<close>

section \<open>Draining the pools\<close>

text \<open>The hash of a pool, given what the hash's buffer page held before.\<close>

definition pool_hash :: "shift \<Rightarrow> entropy_pool \<Rightarrow> (nat \<Rightarrow> u32) \<Rightarrow> u8 list" where
  "pool_hash ubshl p stale =
     (let n = nat (sint (psize p))
      in hash_bytes (digest ubshl (message_word (\<lambda>j. entropy p ! j) n stale) (sha_chunks_of n)))"

definition seed_hash :: "shift \<Rightarrow> (nat \<Rightarrow> u8) \<Rightarrow> (nat \<Rightarrow> u32) \<Rightarrow> u8 list" where
  "seed_hash ubshl seed stale = hash_bytes (digest ubshl (message_word seed 1024 stale) (sha_chunks_of 1024))"

lemma length_pool_hash [simp]: "length (pool_hash ubshl p stale) = 32"
  by (simp add: pool_hash_def Let_def length_hash_bytes)

text \<open>A pool that can be drained: its lock is free and the hash accepts its size.\<close>

definition drainable :: "entropy_pool \<Rightarrow> bool" where
  "drainable p \<longleftrightarrow> locked (plock p) = 0 \<and> 0 \<le> sint (psize p) \<and> sint (psize p) < 3584"

lemma pool_hash_cong:
  assumes "drainable p" "\<And>j. j < 1024 \<Longrightarrow> f j = g j"
  shows "pool_hash ubshl p f = pool_hash ubshl p g"
proof -
  have "sha_chunks_of (nat (sint (psize p))) \<le> 56"
  proof -
    have "nat (sint (psize p)) < 3584" using assms(1) by (simp add: drainable_def nat_less_iff)
    then have "nat (sint (psize p)) div 512 < 7" by (rule less_mult_imp_div_less [of _ 7 512, simplified])
    then show ?thesis by (simp add: sha_chunks_of_def)
  qed
  then show ?thesis
    unfolding pool_hash_def Let_def by (intro arg_cong [where f = hash_bytes] digest_cong) (simp add: assms(2) message_word_def)
qed

lemma seed_hash_cong:
  assumes "\<And>i. i < 1024 \<Longrightarrow> f i = f' i" "\<And>j. j < 1024 \<Longrightarrow> g j = g' j"
  shows "seed_hash ubshl f g = seed_hash ubshl f' g'"
proof -
  have "message_word f 1024 g j = message_word f' 1024 g' j" if "j < 1024" for j
    using assms(2) [OF that] assms(1) by (auto simp: message_word_def data_word_def)
  then show ?thesis
    unfolding seed_hash_def by (intro arg_cong [where f = hash_bytes] digest_cong) (simp add: sha_chunks_of_def)
qed

lemma pool_hash_same:
  "psize p = psize p' \<Longrightarrow> entropy p = entropy p' \<Longrightarrow> pool_hash ubshl p f = pool_hash ubshl p' f"
  by (simp add: pool_hash_def)

lemma page_word_same:
  assumes "\<And>x. in_range a 4096 x \<Longrightarrow> m x = m' x" "j < 1024"
  shows "page_word m a j = page_word m' a j"
proof (rule load32_cong)
  fix x assume "in_range (a + 4 * of_nat j) 4 x"
  then have "in_range a 4096 x" using in_range_offset_iff [of "4 * j" 4 a x] assms(2) by (simp add: in_range_def)
  then show "m x = m' x" by (rule assms(1))
qed

lemma prng_pool_update [simp]:
  "quiet b (s\<lparr>pools := q\<rparr>) = quiet b s" "quiet b (s\<lparr>mem := m\<rparr>) = quiet b s" "quiet b (pushcli s) = quiet b s"
  "quiet b (leave r s) = quiet b s" "quiet b (s\<lparr>reseed_ctr := c\<rparr>) = quiet b s" "quiet b (incrctr s) = quiet b s"
  by (simp_all add: quiet_def incrctr_def)

lemma quiet_kinv: "kinv b ps s \<longleftrightarrow> alloc_rep ps s \<and> cpu_room 2 s \<and> locked (kmem_lock s) = 0" if "quiet b s"
  using that quiet_events_ok [OF that] by (simp add: kinv_def)

lemma alloc_rep_lock [simp]:
  "alloc_rep ps (s\<lparr>pools := q\<rparr>) = alloc_rep ps s" "alloc_rep ps (pushcli s) = alloc_rep ps s"
  "alloc_rep ps (leave r s) = alloc_rep ps s"
  by (simp_all add: alloc_rep_def)

lemma sha_more_lock [simp]: "sha_st.more (pushcli s) = sha_st.more s" "sha_st.more (leave r s) = sha_st.more s"
  by (simp_all add: cli_defs leave_def)

lemma drain_pool_ok:
  fixes s :: "'a prng_st_scheme"
  assumes inv: "kinv (Suc b) (p # ps) s" "quiet (Suc b) s" "cpu_room 3 s" "length (ww s) = 64"
    and i: "i < 32" "length (pools s) = 32" "drainable (pools s ! i)"
    and q: "page_ok (kend s) q" "q \<notin> set (p # ps)"
  shows "\<exists>t p'. drain_pool ubshl q i (of_nat (32 * i), s) = Inr (of_nat (32 * Suc i), t) \<and> kinv b ps t \<and> quiet b t
     \<and> balanced s t \<and> kend t = kend s \<and> length (ww t) = 64 \<and> sha_st.more t = sha_st.more s
     \<and> pools t = (pools s)[i := p'] \<and> psize p' = 0 \<and> locked (plock p') = 0
     \<and> (\<forall>x. \<not> in_range p 4096 x \<longrightarrow>
          mem t x = store_bytes (mem s) (q + of_nat (32 * i)) (pool_hash ubshl (pools s ! i) (page_word (mem s) p)) x)"
proof -
  define lk where "lk = taken s (plock (pools s ! i))"
  define a where "a = (pushcli s)\<lparr>pools := (pools s)[i := (pools s ! i)\<lparr>plock := lk\<rparr>]\<rparr>"
  have ok: "cpu_ok s" using inv(3) by (rule cpu_room_ok)
  have a1: "acquire_pool i s = Inr a"
    using i by (simp add: drainable_def acquire_pool_def acquire_free a_def lk_def)
  have ai: "pools a ! i = (pools s ! i)\<lparr>plock := lk\<rparr>" "mem a = mem s" "ww a = ww s" "kend a = kend s"
    using i by (simp_all add: a_def)
  have qa: "quiet (Suc b) a" using inv(2) by (simp add: a_def)
  have "cpu_room 2 (pushcli s)" using cpu_room_pushcli [of 2 s] inv(3) by (simp add: numeral_eq_Suc)
  then have ka: "kinv (Suc b) (p # ps) a"
    using inv(1,2) qa by (simp add: quiet_kinv) (simp add: a_def cpu_room_def cpu_ok_def)
  let ?n = "psize (pools s ! i)"
  have sz: "0 \<le> sint ?n" "sint ?n < 3584" using i(3) by (simp_all add: drainable_def)
  have len: "pool_len (pools a ! i) = ?n" using sz by (simp add: ai pool_len_def POOL_SIZE_def)
  have ro: "reads_outside p (nat (sint ?n)) (\<lambda>m j. entropy (pools a ! i) ! j) (mem a)" by (simp add: reads_outside_def)
  define h where "h = pool_hash ubshl (pools s ! i) (page_word (mem s) p)"
  obtain c where c: "sha256 ubshl (\<lambda>m j. entropy (pools a ! i) ! j) ?n a = Inr (h, c)" "kinv b ps c"
    "\<And>x. \<not> in_range p 4096 x \<Longrightarrow> mem c x = mem s x" "balanced a c" "kend c = kend s" "length (ww c) = 64"
    "sha_st.more c = sha_st.more a" "pools c = pools a" "quiet b c"
    using sha256_ok [OF ka sz _ ro, of ubshl] inv(4) qa by (auto simp: ai h_def pool_hash_def Let_def)
  define m where "m = store_bytes (mem c) (q + of_nat (32 * i)) h"
  define p' where "p' = (pools s ! i)\<lparr>plock := lk, entropy := replicate (unat ?n) 0 @ drop (unat ?n) (entropy (pools s ! i)),
     psize := 0\<rparr>"
  define d where "d = c\<lparr>mem := m, pools := (pools a)[i := p']\<rparr>"
  define t where "t = leave s d\<lparr>pools := (pools s)[i := p'\<lparr>plock := freed lk\<rparr>]\<rparr>"
  have bd: "balanced (pushcli s) d" using c(4) by (simp add: balanced_def a_def d_def)
  have rel: "release_pool i d = Inr t"
    using release_taken [OF ok bd, of lk] i by (simp add: release_pool_def d_def t_def a_def p'_def lk_def)
  have "drain_pool ubshl q i (of_nat (32 * i), s) = Inr (of_nat (32 * Suc i), t)"
    using i a1 c(1,8) len rel or_bit_nonzero [of i "reseed_ctr s"]
    by (simp add: drain_pool_def Let_def ai d_def m_def p'_def)
  moreover have "alloc_rep ps (c\<lparr>mem := m\<rparr>)"
  proof -
    have "in_range q 4096 x" if "in_range (q + of_nat (32 * i)) 32 x" for x
      using in_range_offset_iff [of "32 * i" 32 q x] that i(1) by (simp add: in_range_def)
    then have "m x = mem c x" if "\<not> in_range q 4096 x" for x
      using that by (auto simp: m_def h_def store_bytes_def)
    then have "kinv b ps (c\<lparr>mem := m\<rparr>)" using kmem.put_owned [OF c(2)] q c(5) by auto
    then show ?thesis by (simp add: kinv_def)
  qed
  moreover have "balanced s t"
    using balanced_leave [OF ok bd] by (simp add: t_def balanced_def)
  moreover have "quiet b t" using c(9) by (simp add: t_def d_def)
  moreover have "kinv b ps t"
    using \<open>alloc_rep ps (c\<lparr>mem := m\<rparr>)\<close> \<open>quiet b t\<close> cpu_room_balanced [OF \<open>balanced s t\<close>, of 2]
      cpu_room_mono [OF inv(3), of 2] c(2)
    by (simp add: quiet_kinv) (simp add: kinv_def t_def d_def)
  moreover have "sha_st.more t = sha_st.more s" using c(7) by (simp add: t_def d_def a_def)
  ultimately show ?thesis
    using c(3,5,6) by (intro exI [of _ t] exI [of _ "p'\<lparr>plock := freed lk\<rparr>"])
      (simp add: t_def d_def m_def p'_def h_def store_bytes_def)
qed


text \<open>The first \<open>k\<close> pools, each hashed with a page of its own from the free list.\<close>

lemma drain_loop:
  fixes s :: "'a prng_st_scheme"
  assumes "kinv (k + b) (as @ ps) s" "quiet (k + b) s" "cpu_room 3 s" "length (ww s) = 64"
    and "k \<le> 32" "length as = k" "length (pools s) = 32" "\<forall>i < 32. drainable (pools s ! i)"
    and q: "page_ok (kend s) q" "q \<notin> set (as @ ps)"
  shows "\<exists>t. for_res [0..<k] (drain_pool ubshl q) (0, s) = Inr (of_nat (32 * k), t) \<and> kinv b ps t \<and> quiet b t
     \<and> balanced s t \<and> kend t = kend s \<and> length (ww t) = 64 \<and> sha_st.more t = sha_st.more s
     \<and> length (pools t) = 32 \<and> (\<forall>i < 32. locked (plock (pools t ! i)) = 0)
     \<and> (\<forall>i < k. psize (pools t ! i) = 0) \<and> (\<forall>i. k \<le> i \<and> i < 32 \<longrightarrow> pools t ! i = pools s ! i)
     \<and> (\<forall>x. (\<forall>p \<in> set as. \<not> in_range p 4096 x) \<longrightarrow> mem t x =
          store_bytes (mem s) q (concat (map (\<lambda>i. pool_hash ubshl (pools s ! i) (page_word (mem s) (as ! i))) [0..<k])) x)"
  using assms(1,2,5,6) q(2)
proof (induction k arbitrary: b as ps)
  case 0
  then show ?case using assms(4,7,8) by (simp add: drainable_def store_bytes_Nil)
next
  case (Suc k)
  obtain as' a where as: "as = as' @ [a]" "length as' = k" using Suc.prems(4) by (auto simp: length_Suc_conv_rev)
  let ?h = "\<lambda>i. pool_hash ubshl (pools s ! i) (page_word (mem s) (as' ! i))"
  let ?hs = "concat (map ?h [0..<k])"
  have pg: "page_ok (kend s) a" "\<forall>p \<in> set as'. page_ok (kend s) p" "distinct (as' @ a # ps)"
    using Suc.prems(1) as by (auto simp: kinv_def alloc_rep_def)
  obtain t where t: "for_res [0..<k] (drain_pool ubshl q) (0, s) = Inr (of_nat (32 * k), t)"
    "kinv (Suc b) (a # ps) t" "quiet (Suc b) t" "balanced s t" "kend t = kend s" "length (ww t) = 64"
    "sha_st.more t = sha_st.more s" "length (pools t) = 32" "\<forall>i < 32. locked (plock (pools t ! i)) = 0"
    "\<forall>i < k. psize (pools t ! i) = 0" "\<forall>i. k \<le> i \<and> i < 32 \<longrightarrow> pools t ! i = pools s ! i"
    "\<And>x. (\<forall>p \<in> set as'. \<not> in_range p 4096 x) \<Longrightarrow> mem t x = store_bytes (mem s) q ?hs x"
    using Suc.IH [of "Suc b" as' "a # ps"] Suc.prems as by auto
  have len: "length ?hs = 32 * k" by (induction k) auto
  have k: "k < 32" "pools t ! k = pools s ! k" using Suc.prems(3) t(11) by simp_all
  have room: "cpu_room 3 t" using assms(3) cpu_room_balanced [OF t(4)] by simp
  have "drainable (pools t ! k)" "page_ok (kend t) q" "q \<notin> set (a # ps)"
    using k assms(8) q(1) t(5) Suc.prems(5) as by auto
  then obtain u p' where u: "drain_pool ubshl q k (of_nat (32 * k), t) = Inr (of_nat (32 * Suc k), u)" "kinv b ps u"
    "quiet b u" "balanced t u" "kend u = kend t" "length (ww u) = 64" "sha_st.more u = sha_st.more t"
    "pools u = (pools t)[k := p']" "psize p' = 0" "locked (plock p') = 0"
    "\<And>x. \<not> in_range a 4096 x \<Longrightarrow>
       mem u x = store_bytes (mem t) (q + of_nat (32 * k)) (pool_hash ubshl (pools s ! k) (page_word (mem t) a)) x"
    using drain_pool_ok [OF t(2,3) room t(6) k(1) t(8), of q ubshl] k(2) by auto
  have "mem t x = mem s x" if "in_range a 4096 x" for x
  proof -
    have "\<forall>p \<in> set as'. \<not> in_range p 4096 x"
      using page_ok_disjoint [OF pg(1) _ _ that] pg(2,3) by auto
    moreover have "\<not> in_range q 4096 x" using page_ok_disjoint [OF pg(1) q(1) _ that] Suc.prems(5) as by auto
    then have "\<not> in_range q (length ?hs) x" using in_range_mono [of q "length ?hs" x 4096] len k by auto
    ultimately show ?thesis using t(12) by (simp add: store_bytes_out)
  qed
  then have hk: "pool_hash ubshl (pools s ! k) (page_word (mem t) a) = pool_hash ubshl (pools s ! k) (page_word (mem s) a)"
    using assms(8) k(1) page_word_same [of a "mem t" "mem s"] by (intro pool_hash_cong) auto
  have hs: "concat (map (\<lambda>i. pool_hash ubshl (pools s ! i) (page_word (mem s) (as ! i))) [0..<Suc k])
      = ?hs @ pool_hash ubshl (pools s ! k) (page_word (mem s) a)"
  proof -
    have "map (\<lambda>i. pool_hash ubshl (pools s ! i) (page_word (mem s) (as ! i))) [0..<k] = map ?h [0..<k]"
      using as by (simp add: nth_append)
    moreover have "as ! k = a" using as by (simp add: nth_append)
    ultimately show ?thesis by (simp del: map_eq_conv)
  qed
  have "mem u x = store_bytes (mem s) q (?hs @ pool_hash ubshl (pools s ! k) (page_word (mem s) a)) x"
    if "\<forall>p \<in> set as. \<not> in_range p 4096 x" for x
  proof -
    have "mem t x = store_bytes (mem s) q ?hs x" "\<not> in_range a 4096 x" using t(12) that as by auto
    with u(11) hk have "mem u x = store_bytes (store_bytes (mem s) q ?hs) (q + of_nat (length ?hs))
        (pool_hash ubshl (pools s ! k) (page_word (mem s) a)) x"
      by (simp add: len store_bytes_def)
    then show ?thesis using store_bytes_append [of ?hs "pool_hash ubshl (pools s ! k) (page_word (mem s) a)"] len k(1) by simp
  qed
  moreover have "for_res [0..<Suc k] (drain_pool ubshl q) (0, s) = Inr (of_nat (32 * Suc k), u)"
    using t(1) u(1) by (simp add: for_res_append)
  moreover have "balanced s u" using balanced_trans [OF t(4) u(4)] .
  moreover have "\<forall>i < Suc k. psize (pools u ! i) = 0" "\<forall>i < 32. locked (plock (pools u ! i)) = 0"
    using u(8-10) t(8-10) k(1) by (auto simp: nth_list_update less_Suc_eq)
  moreover have "\<forall>i. Suc k \<le> i \<and> i < 32 \<longrightarrow> pools u ! i = pools s ! i" using u(8) t(11) by simp
  ultimately show ?case unfolding hs using u(2,3,5-8) t(5,7,8) by (intro exI [of _ u]) simp
qed


section \<open>The new key\<close>

text \<open>A field that the lock does not look at can be set inside the section or after it.\<close>

lemma release_ticks_commute:
  "release_ticks (s\<lparr>last_reseed_ticks := x\<rparr>) = bind_res (release_ticks s) (\<lambda>u. Inr (u\<lparr>last_reseed_ticks := x\<rparr>))"
  by (simp add: release_ticks_def release_def holding_def popcli_def sti_def readeflags_def Let_def)

lemma release_pool_commute:
  "release_pool i (s\<lparr>reseed_ctr := x\<rparr>) = bind_res (release_pool i s) (\<lambda>u. Inr (u\<lparr>reseed_ctr := x\<rparr>))"
  by (simp add: release_pool_def release_def holding_def popcli_def sti_def readeflags_def Let_def)

lemma prngreseed_ok:
  fixes s :: "'a prng_st_scheme"
  assumes inv: "kinv (Suc (Suc b)) (p # ps) s" "length (ww s) = 64" "quiet (Suc (Suc b)) s"
    and q: "page_ok (kend s) q" "q \<notin> set (p # ps)" and lk: "locked (tickslock s) = 0"
  shows "\<exists>t. prngreseed ubshl q 1024 s = Inr t \<and> kinv b (q # ps) t
     \<and> pkey t = seed_hash ubshl (\<lambda>i. mem s (q + of_nat i)) (page_word (mem s) p)
     \<and> counter t = incr_counter (counter s) \<and> reseed_ctr t = reseed_ctr s \<and> last_reseed_ticks t = ticks s
     \<and> balanced s t \<and> (\<forall>x. \<not> in_range p 4096 x \<longrightarrow> \<not> in_range q 4096 x \<longrightarrow> mem t x = mem s x)
     \<and> (\<forall>i < length (pools s). psize (pools t ! i) = psize (pools s ! i))"
proof -
  have pg: "page_ok (kend s) p" using inv by (simp add: kinv_def alloc_rep_def)
  have qp: "\<not> in_range p 4096 (q + of_nat i)" if "i < 1024 + 3" for i
    using page_ok_disjoint [OF q(1) pg] q(2) in_range_offset_nat [of i 4096 q] that by auto
  have ro: "reads_outside p (nat (sint (1024 :: i32))) (\<lambda>m i. m (q + of_nat i)) (mem s)"
    using qp by (simp add: reads_outside_def)
  define h where "h = seed_hash ubshl (\<lambda>i. mem s (q + of_nat i)) (page_word (mem s) p)"
  obtain c where c: "sha256 ubshl (\<lambda>m i. m (q + of_nat i)) 1024 s = Inr (h, c)" "kinv (Suc b) ps c"
    "\<And>x. \<not> in_range p 4096 x \<Longrightarrow> mem c x = mem s x" "balanced s c" "kend c = kend s"
    "sha_st.more c = sha_st.more s" "pools c = pools s" "quiet (Suc b) c"
    using sha256_ok [OF inv(1) _ _ inv(2) ro, of ubshl] inv(3) by (auto simp: h_def seed_hash_def)
  define d where "d = incrctr (c\<lparr>pkey := h\<rparr>)"
  have d: "kinv (Suc b) ps d" "mem d = mem c" "kend d = kend s" "balanced c d"
    using c by (simp_all add: d_def incrctr_def balanced_def)
  have more: "counter c = counter s" "reseed_ctr c = reseed_ctr s" "ticks c = ticks s" "tickslock c = tickslock s"
    using c(6) by (cases c; cases s; simp)+
  obtain e where e: "kfree q d = Inr e" "kinv b (q # ps) e" "\<And>x. \<not> in_range q 4096 x \<Longrightarrow> mem e x = mem d x" "kframe d e"
    "pools e = pools s"
    using kfree_call [OF d(1), of q] q d(3) c(7,8) by (auto simp: d_def incrctr_def quiet_def)
  note g = kframe_gframe [OF e(4)]
  have "locked (tickslock e) = 0" "cpu_ok e"
    using g lk more e(2) by (auto simp: gframe_def d_def incrctr_def kinv_def cpu_room_def)
  then obtain f u where f: "acquire_ticks e = Inr f" "ticks f = ticks e" "release_ticks f = Inr u" "same_unlocked e u"
    using ticks_section [of e] by blast
  have ku: "kinv b (q # ps) u" by (rule kinv_same_unlocked [OF f(4) e(2)])
  define t where "t = u\<lparr>last_reseed_ticks := ticks s\<rparr>"
  have "ticks e = ticks s" using g more by (simp add: gframe_def d_def incrctr_def)
  then have "prngreseed ubshl q 1024 s = Inr t"
    using c(1) e(1) f by (simp add: prngreseed_def Let_def d_def [symmetric] release_ticks_commute t_def)
  moreover have "kinv b (q # ps) t"
    using ku by (simp add: t_def kinv_def alloc_rep_def events_ok_def cpu_room_def cpu_ok_def accum_rep_def pools_free_def)
  moreover have "balanced s t"
    using c(4) d(4) g f(4) by (auto simp: gframe_def same_unlocked_def t_def balanced_def)
  ultimately show ?thesis
    using f(4) g more e(3,5) c(3) d(2)
    by (intro exI [of _ t]) (simp add: t_def same_unlocked_def gframe_def d_def incrctr_def h_def [symmetric])
qed


section \<open>The reseeding branch of prngrand\<close>

lemma kalloc_zeroed_quiet:
  fixes s :: "'a kmem_st_scheme"
  assumes "kinv (Suc b) (p # ps) s" "quiet (Suc b) s"
  shows "\<exists>t. kalloc_zeroed msg s = Inr (p, t) \<and> kinv b ps t \<and> mem t = memset (mem s) p 0 4096 \<and> kframe s t
     \<and> pools t = pools s \<and> quiet b t"
proof -
  obtain u where u: "kalloc s = Inr (p, u)" "pools u = pools s" "quiet b u"
    using kalloc_call [OF assms(1)] assms(2) by auto
  obtain t where t: "kalloc_zeroed msg s = Inr (p, t)" "kinv b ps t" "mem t = memset (mem s) p 0 4096" "kframe s t"
    using kalloc_zeroed_ok [OF assms(1)] by blast
  have "t = u\<lparr>mem := memset (mem u) p 0 4096\<rparr>" using t(1) u(1) by (auto simp: kalloc_zeroed_def split: if_splits)
  with t u show ?thesis by (auto simp: quiet_def)
qed

text \<open>The new seed: the hashes of the 32 pools, made with the pages \<open>as\<close> as buffers.\<close>

definition pools_seed :: "shift \<Rightarrow> 'a prng_st_scheme \<Rightarrow> u32 list \<Rightarrow> u8 list" where
  "pools_seed ubshl s as = concat (map (\<lambda>i. pool_hash ubshl (pools s ! i) (page_word (mem s) (as ! i))) [0..<MAX_POOLS])"

lemma length_pools_seed [simp]: "length (pools_seed ubshl s as) = 1024"
proof -
  have "length (concat (map (\<lambda>i. pool_hash ubshl (pools s ! i) (f i)) [0..<n])) = 32 * n" for n f
    by (induction n) simp_all
  from this [where n = 32] show ?thesis by (simp add: pools_seed_def MAX_POOLS_def)
qed

lemma pools_seed_cong:
  assumes "\<And>i. i < 32 \<Longrightarrow> psize (pools c ! i) = psize (pools s ! i)"
    "\<And>i. i < 32 \<Longrightarrow> entropy (pools c ! i) = entropy (pools s ! i)" "\<forall>i < 32. drainable (pools s ! i)"
    "\<And>p x. p \<in> set as \<Longrightarrow> in_range p 4096 x \<Longrightarrow> mem c x = mem s x" "length as = 32"
  shows "pools_seed ubshl c as = pools_seed ubshl s as"
proof -
  have "pool_hash ubshl (pools c ! i) (page_word (mem c) (as ! i)) = pool_hash ubshl (pools s ! i) (page_word (mem s) (as ! i))"
    if "i < 32" for i
  proof -
    have "pool_hash ubshl (pools c ! i) (page_word (mem c) (as ! i)) = pool_hash ubshl (pools s ! i) (page_word (mem c) (as ! i))"
      using that by (intro pool_hash_same assms)
    also have "\<dots> = pool_hash ubshl (pools s ! i) (page_word (mem s) (as ! i))"
    proof (rule pool_hash_cong)
      show "drainable (pools s ! i)" using assms(3) that by blast
      show "page_word (mem c) (as ! i) j = page_word (mem s) (as ! i) j" if "j < 1024" for j
        by (rule page_word_same [OF assms(4) that]) (use assms(5) \<open>i < 32\<close> in simp_all)
    qed
    finally show ?thesis .
  qed
  then show ?thesis unfolding pools_seed_def by (intro arg_cong [where f = concat] map_cong) (auto simp: MAX_POOLS_def)
qed

lemma prng_reseed_part_ok:
  fixes s :: "'a prng_st_scheme"
  assumes inv: "kinv (b + 35) (q # as @ k # ps) s" "quiet (b + 35) s" "cpu_room 3 s" "length (ww s) = 64"
    and as: "length as = 32" "length (pools s) = 32" "\<forall>i < 32. drainable (pools s ! i)"
    and lk: "locked (tickslock s) = 0" and due: "reseed_due s"
  shows "\<exists>t. prng_reseed_part ubshl (ticks s) s = Inr t \<and> kinv b (q # ps) t
     \<and> pkey t = seed_hash ubshl (\<lambda>i. pools_seed ubshl s as ! i) (page_word (mem s) k)
     \<and> counter t = incr_counter (counter s) \<and> reseed_ctr t = reseed_ctr s + 1 \<and> last_reseed_ticks t = ticks s
     \<and> balanced s t \<and> (\<forall>i < 32. psize (pools t ! i) = 0)"
proof -
  have ok: "cpu_ok s" using inv(3) by (rule cpu_room_ok)
  have pg: "page_ok (kend s) q" "\<forall>p \<in> set (as @ k # ps). page_ok (kend s) p" "q \<notin> set (as @ k # ps)" "distinct (as @ k # ps)"
    using inv(1) by (auto simp: kinv_def alloc_rep_def)
  have l0: "locked (plock (pools s ! 0)) = 0" "0 < length (pools s)" using as by (auto simp: drainable_def)
  obtain w u where wu: "acquire_pool 0 s = Inr w" "release_pool 0 w = Inr u" "same_unlocked s u"
    "psize (pools w ! 0) = psize (pools s ! 0)" "last_reseed_ticks w = last_reseed_ticks s" "reseed_ctr w = reseed_ctr s"
    using pool_section [OF ok l0] by blast
  define v where "v = u\<lparr>reseed_ctr := reseed_ctr s + 1\<rparr>"
  have "kinv (b + 35) (q # as @ k # ps) u" by (rule kinv_same_unlocked [OF wu(3) inv(1)])
  then have v: "kinv (Suc (32 + Suc (Suc b))) (q # as @ k # ps) v"
    by (simp add: v_def kinv_def alloc_rep_def events_ok_def cpu_room_def cpu_ok_def accum_rep_def pools_free_def)
  have qv: "quiet (Suc (32 + Suc (Suc b))) v" using inv(2) wu(3) by (simp add: v_def quiet_def same_unlocked_def)
  have vs: "mem v = mem s" "kend v = kend s" "ww v = ww s" "counter v = counter s" "ticks v = ticks s"
    "locked (tickslock v) = 0" "balanced s v" "length (pools v) = 32" "reseed_ctr v = reseed_ctr s + 1"
    using wu(3) as(2) lk by (simp_all add: v_def same_unlocked_def balanced_def)
  have vp: "psize (pools v ! i) = psize (pools s ! i)" "entropy (pools v ! i) = entropy (pools s ! i)"
    "locked (plock (pools v ! i)) = locked (plock (pools s ! i))" if "i < 32" for i
    using wu(3) as(2) that by (simp_all add: v_def same_unlocked_def)
  obtain c where c: "kalloc_zeroed ''prngrand: unable to allocate memory.'' v = Inr (q, c)"
    "kinv (32 + Suc (Suc b)) (as @ k # ps) c" "mem c = memset (mem s) q 0 4096" "kframe v c" "pools c = pools v"
    "quiet (32 + Suc (Suc b)) c"
    using kalloc_zeroed_quiet [OF v qv] vs(1) by auto
  note g = kframe_gframe [OF c(4)]
  have cs: "cpu_room 3 c" "length (ww c) = 64" "kend c = kend s" "balanced s c" "length (pools c) = 32"
    "\<forall>i < 32. drainable (pools c ! i)" "page_ok (kend c) q"
    using g vs inv(3,4) as vp pg(1) c(5) balanced_trans [OF vs(7), of c] cpu_room_balanced [of s c]
    by (auto simp: gframe_def drainable_def)
  obtain e where e: "for_res [0..<32] (drain_pool ubshl q) (0, c) = Inr (of_nat (32 * 32), e)"
    "kinv (Suc (Suc b)) (k # ps) e" "quiet (Suc (Suc b)) e" "balanced c e" "kend e = kend c" "length (ww e) = 64"
    "sha_st.more e = sha_st.more c" "length (pools e) = 32" "\<forall>i < 32. psize (pools e ! i) = 0"
    "\<And>x. (\<forall>p \<in> set as. \<not> in_range p 4096 x) \<Longrightarrow> mem e x = store_bytes (mem c) q (pools_seed ubshl c as) x"
    using drain_loop [OF c(2,6) cs(1,2) _ as(1) cs(5-7) pg(3), of ubshl] by (auto simp: pools_seed_def MAX_POOLS_def)
  have es: "locked (tickslock e) = 0" "counter e = counter s" "ticks e = ticks s" "reseed_ctr e = reseed_ctr s + 1"
  proof -
    have "tickslock e = tickslock c" "counter e = counter c" "ticks e = ticks c" "reseed_ctr e = reseed_ctr c"
      using e(7) by (cases e; cases c; simp)+
    then show "locked (tickslock e) = 0" "counter e = counter s" "ticks e = ticks s" "reseed_ctr e = reseed_ctr s + 1"
      using g vs by (simp_all add: gframe_def)
  qed
  have qe: "page_ok (kend e) q" "q \<notin> set (k # ps)" using pg e(5) cs(3) by auto
  obtain t where t: "prngreseed ubshl q 1024 e = Inr t" "kinv b (q # ps) t"
    "pkey t = seed_hash ubshl (\<lambda>i. mem e (q + of_nat i)) (page_word (mem e) k)"
    "counter t = incr_counter (counter e)" "reseed_ctr t = reseed_ctr e" "last_reseed_ticks t = ticks e" "balanced e t"
    "\<forall>i < length (pools e). psize (pools t ! i) = psize (pools e ! i)"
    using prngreseed_ok [OF e(2,6,3) qe es(1), of ubshl] by blast
  have off: "mem c x = mem s x" if "in_range p 4096 x" "p \<in> set (as @ k # ps)" for p x
  proof -
    have "p \<noteq> q" "page_ok (kend s) p" using that(2) pg(2,3) by auto
    then have "\<not> in_range q 4096 x" using page_ok_disjoint [OF _ pg(1) _ that(1)] by blast
    then show ?thesis by (simp add: c(3) memset_eq store_bytes_out)
  qed
  have seed: "pools_seed ubshl c as = pools_seed ubshl s as"
    using vp c(5) as off by (intro pools_seed_cong) auto
  have "mem e (q + of_nat i) = pools_seed ubshl s as ! i" if "i < 1024" for i
    using e(10) [of "q + of_nat i"] page_ok_disjoint [OF pg(1) _ _ in_range_offset_nat [of i 4096 q]] pg(2,3) that seed
    by (auto simp: store_bytes_def in_range_def unat_of_nat)
  moreover have "page_word (mem e) k j = page_word (mem s) k j" if "j < 1024" for j
  proof (rule page_word_same [OF _ that])
    fix x assume x: "in_range k 4096 x"
    then have "\<not> in_range p 4096 x" if "p \<in> set as \<or> p = q" for p
      using that pg page_ok_disjoint [of "kend s" k p x] by auto
    with in_range_mono [of q 1024 x 4096] have "mem e x = mem c x" using e(10) by (auto simp: store_bytes_def)
    then show "mem e x = mem s x" using off [OF x] by simp
  qed
  ultimately have "pkey t = seed_hash ubshl (\<lambda>i. pools_seed ubshl s as ! i) (page_word (mem s) k)"
    unfolding t(3) by (rule seed_hash_cong)
  moreover have "prng_reseed_part ubshl (ticks s) s = Inr t"
    using wu due c(1) e(1) t(1)
    by (simp add: prng_reseed_part_def Let_def reseed_due_def release_pool_commute v_def [symmetric] MAX_POOLS_def
        del: upt_rec_numeral)
  moreover have "balanced s t" using balanced_trans [OF balanced_trans [OF cs(4) e(4)] t(7)] .
  ultimately show ?thesis using t es e(8,9) by auto
qed


section \<open>Properties\<close>

text \<open>The free list over the pages \<open>ps\<close>, written to memory.\<close>

fun link_pages :: "u32 list \<Rightarrow> memory" where
  "link_pages (p # q # ps) = store32 (link_pages (q # ps)) p q"
| "link_pages _ = (\<lambda>_. 0)"

lemma flist_link_pages:
  assumes "distinct ps" "\<forall>p \<in> set ps. page_ok e p" "ps \<noteq> []"
  shows "flist (link_pages ps) (hd ps) ps"
  using assms
proof (induction ps rule: link_pages.induct)
  case (1 p q ps)
  have "flist (store32 (link_pages (q # ps)) p q) q (q # ps) = flist (link_pages (q # ps)) q (q # ps)"
  proof (rule flist_cong)
    fix r x assume "r \<in> set (q # ps)" "in_range r 4 x"
    then have "\<not> in_range p 4 x"
      using "1.prems" page_ok_disjoint [of e r p x] in_range_mono [of r 4 x 4096] in_range_mono [of p 4 x 4096] by auto
    then show "store32 (link_pages (q # ps)) p q x = link_pages (q # ps) x" by (simp add: store32_def store_bytes_out)
  qed
  with 1 show ?case by (auto simp: load32_store32 dest: page_ok_nonzero)
qed (auto simp: load32_def u32_of_bytes_def dest: page_ok_nonzero)

definition many_pages :: "u32 list" where
  "many_pages = map (\<lambda>i. 0x80400000 + 4096 * of_nat i) [0..<34]"

definition due_state :: prng_st where
  "due_state = four_pages\<lparr>mem := link_pages many_pages, ticks := 100, kinit2_called := 0,
     pools := (pools four_pages)[0 := (pools four_pages ! 0)\<lparr>psize := 100\<rparr>]\<rparr>"

lemma many_pages_ok: "distinct many_pages" "\<forall>p \<in> set many_pages. page_ok 0x80110000 p" "hd many_pages = 0x80400000"
proof -
  have inj: "inj_on (\<lambda>i. 0x80400000 + 4096 * of_nat i :: u32) (set [0..<34])"
    by (auto simp: inj_on_def word_unat_eq_iff unat_word_ariths unat_of_nat)
  then show "distinct many_pages" by (simp add: many_pages_def distinct_map del: upt_rec_numeral)
  show "\<forall>p \<in> set many_pages. page_ok 0x80110000 p" "hd many_pages = 0x80400000"
    by code_simp+
qed

lemma due_state_facts:
  "kinv (0 + 35) (0x80400000 # tl (butlast many_pages) @ last many_pages # []) due_state" "quiet (0 + 35) due_state"
  "cpu_room 3 due_state" "length (ww due_state) = 64" "length (pools due_state) = 32"
  "\<forall>i < 32. drainable (pools due_state ! i)" "locked (tickslock due_state) = 0" "reseed_due due_state"
  "length (tl (butlast many_pages)) = 32" "counter due_state = [1, 0, 0, 0]"
proof -
  have eq: "0x80400000 # tl (butlast many_pages) @ last many_pages # [] = many_pages" by code_simp
  have "flist (link_pages many_pages) 0x80400000 many_pages"
    using flist_link_pages [OF many_pages_ok(1,2)] many_pages_ok(3) by (simp add: many_pages_def)
  then show "kinv (0 + 35) (0x80400000 # tl (butlast many_pages) @ last many_pages # []) due_state"
    unfolding eq using many_pages_ok
    by (simp add: due_state_def four_pages_def one_page_sha_def one_page_def ent_st.defs kmem_st.defs sha_st.defs prng_st.defs
        kinv_def alloc_rep_def zero_ent_def events_ok_def cpu_room_def cpu_ok_def zero_lock_def)
  show "\<forall>i < 32. drainable (pools due_state ! i)"
    by (simp add: due_state_def four_pages_def one_page_sha_def one_page_def ent_st.defs kmem_st.defs sha_st.defs prng_st.defs
        zero_ent_def zero_lock_def drainable_def nth_list_update MAX_POOLS_def)
qed (simp_all add: due_state_def four_pages_def one_page_sha_def one_page_def ent_st.defs kmem_st.defs sha_st.defs prng_st.defs
        zero_ent_def cpu_room_def cpu_ok_def zero_lock_def reseed_due_def quiet_def MIN_SIZE_POOL_def MAX_POOLS_def many_pages_def)

text \<open>
  C2: what a reseed does, when the first pool has collected enough and the last reseed was long
  enough ago. Every one of the 32 pools is hashed into the seed and emptied, whatever the
  reseed counter is: no pool is held back for a later reseed. The key becomes the hash of the
  seed, the counter moves on by one, the time is recorded. Of the 34 pages taken only the seed
  page comes back: the 33 buffers of the hash are lost to the free list.
\<close>

theorem reseed_drains_all:
  fixes s :: "'a prng_st_scheme"
  assumes "kinv (b + 35) (q # as @ k # ps) s" "quiet (b + 35) s" "cpu_room 3 s" "length (ww s) = 64"
    and "length as = 32" "length (pools s) = 32" "\<forall>i < 32. drainable (pools s ! i)"
    and "locked (tickslock s) = 0" and "reseed_due s"
  shows "\<exists>t. prng_reseed_part ubshl (ticks s) s = Inr t \<and> kinv b (q # ps) t
     \<and> pkey t = seed_hash ubshl (\<lambda>i. pools_seed ubshl s as ! i) (page_word (mem s) k)
     \<and> counter t = incr_counter (counter s) \<and> reseed_ctr t = reseed_ctr s + 1 \<and> last_reseed_ticks t = ticks s
     \<and> balanced s t \<and> (\<forall>i < 32. psize (pools t ! i) = 0)"
  by (rule prng_reseed_part_ok [OF assms])

theorem reseed_drains_all_witness:
  "\<exists>t. prng_reseed_part x86_shl (ticks due_state) due_state = Inr t \<and> kinv 0 [0x80400000] t
     \<and> counter t = [2, 0, 0, 0] \<and> psize (pools t ! 31) = 0"
proof -
  have "incr_counter [1, 0, 0, 0] = [2, 0, 0, 0]" by (simp add: incr_counter_def)
  then show ?thesis
    using reseed_drains_all [OF due_state_facts(1-4,9,5-8), of x86_shl] unfolding due_state_facts(10) by auto
qed

end
