(* ===== verification/Klock.thy ===== *)
theory Klock
  imports Spinlock
begin

text \<open>
  Spin locks as the file system, pipes and console use them: one thread of kernel code, for
  which a lock is either free or held by itself. \<open>lock_acquire\<close> and \<open>lock_release\<close> are what
  \<open>acquire\<close> and \<open>release\<close> of \<open>src/spinlock.c\<close> are to such a thread, as the two refinement
  lemmas show; the interrupt bookkeeping is in \<open>Spinlock\<close>.
\<close>

definition lock_acquire :: "bool \<Rightarrow> bool res" where
  "lock_acquire l = (if l then Inl (Panic ''acquire'') else Inr True)"

definition lock_release :: "bool \<Rightarrow> bool res" where
  "lock_release l = (if l then Inr False else Inl (Panic ''release''))"

lemma lock_simps [simp]:
  "lock_acquire False = Inr True" "lock_acquire True = Inl (Panic ''acquire'')"
  "lock_release True = Inr False" "lock_release False = Inl (Panic ''release'')"
  by (simp_all add: lock_acquire_def lock_release_def)

text \<open>The lock as this CPU sees it: free, or held by this CPU.\<close>

definition lock_view :: "spinlock \<Rightarrow> 'a cpu_st_scheme \<Rightarrow> bool \<Rightarrow> bool" where
  "lock_view lk s l \<longleftrightarrow> (if l then locked lk \<noteq> 0 \<and> lcpu lk = Some (cpuid s) else locked lk = 0)"

lemma acquire_refines:
  assumes "lock_view lk s l"
  shows "case acquire lk s of
      Inl e \<Rightarrow> lock_acquire l = Inl e
    | Inr (lk', s') \<Rightarrow> lock_acquire l = Inr True \<and> lock_view lk' s' True"
  using assms acquire_free [of lk s] acquire_held [of lk s]
  by (cases l) (simp_all add: lock_view_def)

lemma release_refines:
  assumes "cpu_ok s" "balanced (pushcli s) t" "lock_view lk t l"
  shows "case release lk t of
      Inl e \<Rightarrow> lock_release l = Inl e
    | Inr (lk', s') \<Rightarrow> lock_release l = Inr False \<and> lock_view lk' s' False"
proof (cases l)
  case True
  with assms have "locked lk \<noteq> 0" "lcpu lk = Some (cpuid s)" by (simp_all add: lock_view_def balanced_def)
  with release_taken [OF assms(1,2)] True show ?thesis by (simp add: lock_view_def)
next
  case False
  with assms(3) show ?thesis by (simp add: lock_view_def release_def holding_def)
qed

end
