(* ===== verification/Bio.thy ===== *)
theory Bio
  imports Klock
begin

text \<open>
  The buffer cache of \<open>src/bio.c\<close> over the memory disk of \<open>src/memide.c\<close>. A pointer to a buffer
  is its index in the array \<open>bcache.buf\<close>; index \<open>NBUF\<close> is \<open>bcache.head\<close>. The disk maps block
  numbers to blocks. The field \<open>history\<close> records the blocks written to the disk, in order, for
  the statements about crashes, and \<open>wakes\<close> the channels passed to \<open>wakeup\<close>; no code reads
  either. The call \<open>sleep\<close> ends a run with \<open>Sleeps\<close>.
\<close>

section \<open>Definitions\<close>

definition BSIZE :: nat where "BSIZE = 512"
definition NBUF :: nat where "NBUF = 30"
definition B_BUSY :: i32 where "B_BUSY = 0x1"
definition B_VALID :: i32 where "B_VALID = 0x2"
definition B_DIRTY :: i32 where "B_DIRTY = 0x4"

record buf =
  bflags :: i32
  bdev :: u32
  blockno :: u32
  bprev :: nat
  bnext :: nat
  bdata :: "u8 list"

record bio_st =
  bcache_lock :: bool
  bufs :: "buf list"
  disk :: "u32 \<Rightarrow> u8 list"
  disksize :: u32
  history :: "(u32 \<times> u8 list) list"
  wakes :: "(string \<times> nat) list"

definition upd_buf :: "nat \<Rightarrow> (buf \<Rightarrow> buf) \<Rightarrow> 'a bio_st_scheme \<Rightarrow> 'a bio_st_scheme" where
  "upd_buf i f s = s\<lparr>bufs := (bufs s)[i := f (bufs s ! i)]\<rparr>"

definition wakeup_chan :: "string \<Rightarrow> nat \<Rightarrow> 'a bio_st_scheme \<Rightarrow> 'a bio_st_scheme" where
  "wakeup_chan c i s = s\<lparr>wakes := wakes s @ [(c, i)]\<rparr>"

definition bcache_acquire :: "'a bio_st_scheme \<Rightarrow> 'a bio_st_scheme res" where
  "bcache_acquire s = bind_res (lock_acquire (bcache_lock s)) (\<lambda>l. Inr (s\<lparr>bcache_lock := l\<rparr>))"

definition bcache_release :: "'a bio_st_scheme \<Rightarrow> 'a bio_st_scheme res" where
  "bcache_release s = bind_res (lock_release (bcache_lock s)) (\<lambda>l. Inr (s\<lparr>bcache_lock := l\<rparr>))"


subsection \<open>The memory disk\<close>

text \<open>\<open>img\<close> and \<open>img_size\<close> stand for the file system image that is linked into the kernel.\<close>

definition ideinit :: "(u32 \<Rightarrow> u8 list) \<Rightarrow> u32 \<Rightarrow> 'a bio_st_scheme \<Rightarrow> 'a bio_st_scheme" where
  "ideinit img img_size s = s\<lparr>disk := img, disksize := img_size div of_nat BSIZE\<rparr>"

definition iderw :: "nat \<Rightarrow> 'a bio_st_scheme \<Rightarrow> 'a bio_st_scheme res" where
  "iderw i s =
     (let b = bufs s ! i in
      if bflags b AND B_BUSY = 0 then Inl (Panic ''iderw: buf not busy'')
      else if bflags b AND (B_VALID OR B_DIRTY) = B_VALID then Inl (Panic ''iderw: nothing to do'')
      else if bdev b \<noteq> 1 then Inl (Panic ''iderw: request not for disk 1'')
      else if disksize s \<le> blockno b then Inl (Panic ''iderw: block out of range'')
      else
        (let s = (if bflags b AND B_DIRTY \<noteq> 0
                  then (upd_buf i (\<lambda>b. b\<lparr>bflags := bflags b AND NOT B_DIRTY\<rparr>) s)
                    \<lparr>disk := (disk s)(blockno b := bdata b), history := history s @ [(blockno b, bdata b)]\<rparr>
                  else upd_buf i (\<lambda>b. b\<lparr>bdata := disk s (blockno b)\<rparr>) s)
         in Inr (upd_buf i (\<lambda>b. b\<lparr>bflags := bflags b OR B_VALID\<rparr>) s)))"


subsection \<open>The cache\<close>

definition binit_step :: "nat \<Rightarrow> buf list \<Rightarrow> buf list" where
  "binit_step b bs =
     (let bs = bs[b := (bs ! b)\<lparr>bnext := bnext (bs ! NBUF)\<rparr>];
        bs = bs[b := (bs ! b)\<lparr>bprev := NBUF\<rparr>];
        bs = bs[b := (bs ! b)\<lparr>bdev := - 1\<rparr>];
        h = bnext (bs ! NBUF);
        bs = bs[h := (bs ! h)\<lparr>bprev := b\<rparr>]
      in bs[NBUF := (bs ! NBUF)\<lparr>bnext := b\<rparr>])"

definition binit :: "'a bio_st_scheme \<Rightarrow> 'a bio_st_scheme" where
  "binit s =
     (let s = s\<lparr>bcache_lock := False\<rparr>;
        bs = (bufs s)[NBUF := (bufs s ! NBUF)\<lparr>bprev := NBUF, bnext := NBUF\<rparr>]
      in s\<lparr>bufs := fold binit_step [0..<NBUF] bs\<rparr>)"

text \<open>
  The two searches of \<open>bget\<close> along the list; the fuel bounds the number of buffers visited, and
  \<open>None\<close> is the end of the list.
\<close>

primrec find_cached :: "nat \<Rightarrow> buf list \<Rightarrow> u32 \<Rightarrow> u32 \<Rightarrow> nat \<Rightarrow> nat option res" where
  "find_cached 0 bs dev bno b = Inl Diverge"
| "find_cached (Suc n) bs dev bno b =
     (if b = NBUF then Inr None
      else if bdev (bs ! b) = dev \<and> blockno (bs ! b) = bno then Inr (Some b)
      else find_cached n bs dev bno (bnext (bs ! b)))"

primrec find_unused :: "nat \<Rightarrow> buf list \<Rightarrow> nat \<Rightarrow> nat option res" where
  "find_unused 0 bs b = Inl Diverge"
| "find_unused (Suc n) bs b =
     (if b = NBUF then Inr None
      else if bflags (bs ! b) AND B_BUSY = 0 \<and> bflags (bs ! b) AND B_DIRTY = 0 then Inr (Some b)
      else find_unused n bs (bprev (bs ! b)))"

definition bget :: "u32 \<Rightarrow> u32 \<Rightarrow> 'a bio_st_scheme \<Rightarrow> (nat \<times> 'a bio_st_scheme) res" where
  "bget dev bno s =
     bind_res (bcache_acquire s) (\<lambda>s.
     bind_res (find_cached (NBUF + 1) (bufs s) dev bno (bnext (bufs s ! NBUF))) (\<lambda>found.
     case found of
       Some b \<Rightarrow>
         if bflags (bufs s ! b) AND B_BUSY = 0 then
           bind_res (bcache_release (upd_buf b (\<lambda>b. b\<lparr>bflags := bflags b OR B_BUSY\<rparr>) s)) (\<lambda>s. Inr (b, s))
         else Inl Sleeps
     | None \<Rightarrow>
         bind_res (find_unused (NBUF + 1) (bufs s) (bprev (bufs s ! NBUF))) (\<lambda>found.
         case found of
           Some b \<Rightarrow>
             bind_res (bcache_release (upd_buf b (\<lambda>b. b\<lparr>bdev := dev, blockno := bno, bflags := B_BUSY\<rparr>) s))
               (\<lambda>s. Inr (b, s))
         | None \<Rightarrow> Inl (Panic ''bget: no buffers''))))"

definition bread :: "u32 \<Rightarrow> u32 \<Rightarrow> 'a bio_st_scheme \<Rightarrow> (nat \<times> 'a bio_st_scheme) res" where
  "bread dev bno s =
     bind_res (bget dev bno s) (\<lambda>(b, s).
     if bflags (bufs s ! b) AND B_VALID = 0 then bind_res (iderw b s) (\<lambda>s. Inr (b, s)) else Inr (b, s))"

definition bwrite :: "nat \<Rightarrow> 'a bio_st_scheme \<Rightarrow> 'a bio_st_scheme res" where
  "bwrite b s =
     (if bflags (bufs s ! b) AND B_BUSY = 0 then Inl (Panic ''bwrite'')
      else iderw b (upd_buf b (\<lambda>b. b\<lparr>bflags := bflags b OR B_DIRTY\<rparr>) s))"

definition move_front :: "nat \<Rightarrow> buf list \<Rightarrow> buf list" where
  "move_front b bs =
     (let n = bnext (bs ! b);
        bs = bs[n := (bs ! n)\<lparr>bprev := bprev (bs ! b)\<rparr>];
        p = bprev (bs ! b);
        bs = bs[p := (bs ! p)\<lparr>bnext := bnext (bs ! b)\<rparr>];
        bs = bs[b := (bs ! b)\<lparr>bnext := bnext (bs ! NBUF)\<rparr>];
        bs = bs[b := (bs ! b)\<lparr>bprev := NBUF\<rparr>];
        h = bnext (bs ! NBUF);
        bs = bs[h := (bs ! h)\<lparr>bprev := b\<rparr>]
      in bs[NBUF := (bs ! NBUF)\<lparr>bnext := b\<rparr>])"

definition brelse :: "nat \<Rightarrow> 'a bio_st_scheme \<Rightarrow> 'a bio_st_scheme res" where
  "brelse b s =
     (if bflags (bufs s ! b) AND B_BUSY = 0 then Inl (Panic ''brelse'')
      else
        bind_res (bcache_acquire s) (\<lambda>s.
        let s = s\<lparr>bufs := move_front b (bufs s)\<rparr>;
          s = upd_buf b (\<lambda>b. b\<lparr>bflags := bflags b AND NOT B_BUSY\<rparr>) s;
          s = wakeup_chan ''buf'' b s
        in bcache_release s))"



section \<open>Flags\<close>

lemma flag_powers: "B_BUSY = 2 ^ 0" "B_VALID = 2 ^ 1" "B_DIRTY = 2 ^ 2"
  by (simp_all add: B_BUSY_def B_VALID_def B_DIRTY_def)

lemma flag_nonzero [simp]: "B_BUSY \<noteq> 0" "B_VALID \<noteq> 0" "B_DIRTY \<noteq> 0"
  by (simp_all add: B_BUSY_def B_VALID_def B_DIRTY_def)

lemma flag_masks [simp]: "bit B_BUSY n = (n = 0)" "bit B_VALID n = (n = 1)" "bit B_DIRTY n = (n = 2)"
  unfolding flag_powers bit_exp_iff by auto

lemma flag_tests [simp]:
  "(f AND B_BUSY = 0) = (\<not> bit f 0)" "(f AND B_VALID = 0) = (\<not> bit f 1)" "(f AND B_DIRTY = 0) = (\<not> bit f 2)"
  unfolding flag_powers by (rule and_exp_eq_0_iff_not_bit)+

lemma flag_only_valid [simp]: "(f AND (B_VALID OR B_DIRTY) = B_VALID) = (bit f 1 \<and> \<not> bit f 2)"
proof
  assume "f AND (B_VALID OR B_DIRTY) = B_VALID"
  then have "bit (f AND (B_VALID OR B_DIRTY)) n = bit B_VALID n" for n by simp
  from this [of 1] this [of 2] show "bit f 1 \<and> \<not> bit f 2" by (auto simp: bit_simps)
qed (auto intro!: bit_eqI simp: bit_simps)

lemma flag_bits [simp]:
  "bit (f OR B_BUSY) n = (bit f n \<or> n = 0)" "bit (f OR B_VALID) n = (bit f n \<or> n = 1)"
  "bit (f OR B_DIRTY) n = (bit f n \<or> n = 2)" "bit (f AND NOT B_BUSY) n = (bit f n \<and> n \<noteq> 0)"
  "bit (f AND NOT B_DIRTY) n = (bit f n \<and> n \<noteq> 2)"
  using bit_imp_le_length [of f n] by (auto simp: bit_simps)

abbreviation busy :: "buf \<Rightarrow> bool" where "busy b \<equiv> bit (bflags b) 0"
abbreviation valid :: "buf \<Rightarrow> bool" where "valid b \<equiv> bit (bflags b) 1"
abbreviation dirty :: "buf \<Rightarrow> bool" where "dirty b \<equiv> bit (bflags b) 2"


section \<open>The list of buffers\<close>

text \<open>The successive nodes of a path under a link function.\<close>

fun chain :: "(nat \<Rightarrow> nat) \<Rightarrow> nat list \<Rightarrow> bool" where
  "chain f (a # b # r) \<longleftrightarrow> f a = b \<and> chain f (b # r)"
| "chain f _ \<longleftrightarrow> True"

lemma chain_append: "chain f (xs @ a # ys) \<longleftrightarrow> chain f (xs @ [a]) \<and> chain f (a # ys)"
proof (induction xs)
  case (Cons x xs)
  then show ?case by (cases xs) auto
qed (cases ys; simp)

lemma chain_hd: "chain f (b # r) \<Longrightarrow> r \<noteq> [] \<Longrightarrow> f b = hd r"
  by (cases r) auto

lemma chain_cong: "(\<And>x. x \<in> set (butlast xs) \<Longrightarrow> f x = g x) \<Longrightarrow> chain f xs = chain g xs"
  by (induction xs rule: chain.induct [of _ g]) auto

lemma chain_upd [simp]: "a \<notin> set (butlast xs) \<Longrightarrow> chain (f(a := b)) xs = chain f xs"
  by (rule chain_cong) auto

lemma chain_upd_off [simp]: "a \<notin> set xs \<Longrightarrow> chain (f(a := b)) xs = chain f xs"
  by (rule chain_upd) (meson in_set_butlastD)

text \<open>Unlinking \<open>b\<close> from a path, and linking it after the first or before the last node.\<close>

lemma chain_unlink:
  assumes "chain f (a # ys @ b # zs @ [c])" and "distinct (a # ys @ b # zs)"
  shows "chain (f(last (a # ys) := hd (zs @ [c]))) (a # ys @ zs @ [c])"
proof -
  define us p where "us = butlast (a # ys)" and "p = last (a # ys)"
  have us: "a # ys = us @ [p]" by (simp add: us_def p_def)
  define n vs where "n = hd (zs @ [c])" and "vs = tl (zs @ [c])"
  have vs: "zs @ [c] = n # vs" by (simp add: n_def vs_def)
  have "distinct ((us @ [p]) @ b # zs)" using assms(2) unfolding us [symmetric] by simp
  then have p: "p \<notin> set us" "p \<notin> set zs" by auto
  have "butlast (n # vs) = zs" unfolding vs [symmetric] by simp
  with p(2) have p2: "p \<notin> set (butlast (n # vs))" by simp
  have "a # ys @ b # zs @ [c] = (us @ [p]) @ b # n # vs" unfolding us [symmetric] vs [symmetric] by simp
  with assms(1) have "chain f (us @ p # b # n # vs)" by simp
  then have "chain f (us @ [p])" "chain f (n # vs)" 
    by (simp_all add: chain_append [of f us p "b # n # vs"])
  with p(1) p2 have "chain (f(p := n)) (us @ p # n # vs)" by (simp add: chain_append [of _ us p "n # vs"])
  moreover have "a # ys @ zs @ [c] = us @ p # n # vs" using us unfolding vs [symmetric] by simp
  ultimately show ?thesis unfolding n_def p_def by simp
qed

lemma chain_insert_front:
  "chain f (a # r) \<Longrightarrow> r \<noteq> [] \<Longrightarrow> a \<notin> set (butlast r) \<Longrightarrow> b \<notin> set r \<Longrightarrow> a \<noteq> b \<Longrightarrow> chain (f(b := hd r, a := b)) (a # b # r)"
  by (cases r) (auto simp del: butlast.simps)

lemma chain_insert_back:
  assumes "chain f (a # r @ [c])" "distinct (a # r)" "b \<notin> set (a # r)"
  shows "chain (f(b := c, last (a # r) := b)) (a # r @ [b, c])"
proof -
  define us p where "us = butlast (a # r)" and "p = last (a # r)"
  have us: "a # r = us @ [p]" by (simp add: us_def p_def)
  have "distinct (us @ [p])" "b \<notin> set (us @ [p])" using assms(2,3) unfolding us [symmetric] by simp_all
  moreover have "chain f (us @ p # [c])" using assms(1) us by (metis append_Cons append_assoc append_Nil)
  then have "chain f (us @ [p])" by (simp add: chain_append [of f us p "[c]"])
  ultimately have "chain (f(b := c, p := b)) (us @ p # [b, c])"
    by (simp add: chain_append [of _ us p "[b, c]"])
  moreover have "a # r @ [b, c] = us @ p # [b, c]" using us by (metis append_Cons append_assoc append_Nil)
  ultimately show ?thesis unfolding p_def [symmetric] by metis
qed

abbreviation nexts :: "buf list \<Rightarrow> nat \<Rightarrow> nat" where "nexts bs \<equiv> \<lambda>k. bnext (bs ! k)"
abbreviation prevs :: "buf list \<Rightarrow> nat \<Rightarrow> nat" where "prevs bs \<equiv> \<lambda>k. bprev (bs ! k)"

lemma links_upd:
  assumes "i < length bs"
  shows "nexts (bs[i := x]) = (nexts bs)(i := bnext x)" "prevs (bs[i := x]) = (prevs bs)(i := bprev x)"
  using assms by (auto simp: fun_eq_iff nth_list_update)

definition dll :: "buf list \<Rightarrow> nat list \<Rightarrow> bool" where
  "dll bs xs \<longleftrightarrow> chain (nexts bs) (NBUF # xs @ [NBUF]) \<and> chain (prevs bs) (NBUF # rev xs @ [NBUF])
     \<and> distinct xs \<and> set xs = {..<NBUF} \<and> length bs = NBUF + 1"

text \<open>The part of a buffer that is not a link.\<close>

definition content :: "buf \<Rightarrow> i32 \<times> u32 \<times> u32 \<times> u8 list" where
  "content b = (bflags b, bdev b, blockno b, bdata b)"

lemma contentD: "content b = content b' \<Longrightarrow> bflags b = bflags b' \<and> bdev b = bdev b' \<and> blockno b = blockno b' \<and> bdata b = bdata b'"
  by (simp add: content_def)

lemma content_links [simp]:
  "content (b\<lparr>bnext := x\<rparr>) = content b" "content (b\<lparr>bprev := x\<rparr>) = content b"
  by (simp_all add: content_def)

lemma content_upd: "content y = content (bs ! i) \<Longrightarrow> content (bs[i := y] ! k) = content (bs ! k)"
  by (cases "i < length bs") (auto simp: nth_list_update list_update_beyond)

text \<open>The searches see the buffers in list order, or in reverse order.\<close>

lemma find_cached_eq:
  assumes "chain (nexts bs) (xs @ [NBUF])" "NBUF \<notin> set xs" "length xs < n"
  shows "find_cached n bs dev bno (hd (xs @ [NBUF]))
     = Inr (List.find (\<lambda>i. bdev (bs ! i) = dev \<and> blockno (bs ! i) = bno) xs)"
  using assms
proof (induction xs arbitrary: n)
  case Nil
  then show ?case by (cases n) simp_all
next
  case (Cons x xs)
  then obtain m where n: "n = Suc m" "length xs < m" by (cases n) auto
  have "chain (nexts bs) (xs @ [NBUF])" "bnext (bs ! x) = hd (xs @ [NBUF])" using Cons.prems(1) by (cases xs; simp)+
  with Cons n show ?case by auto
qed

lemma find_unused_eq:
  assumes "chain (prevs bs) (xs @ [NBUF])" "NBUF \<notin> set xs" "length xs < n"
  shows "find_unused n bs (hd (xs @ [NBUF]))
     = Inr (List.find (\<lambda>i. \<not> busy (bs ! i) \<and> \<not> dirty (bs ! i)) xs)"
  using assms
proof (induction xs arbitrary: n)
  case Nil
  then show ?case by (cases n) simp_all
next
  case (Cons x xs)
  then obtain m where n: "n = Suc m" "length xs < m" by (cases n) auto
  have "chain (prevs bs) (xs @ [NBUF])" "bprev (bs ! x) = hd (xs @ [NBUF])" using Cons.prems(1) by (cases xs; simp)+
  with Cons n show ?case by auto
qed

lemma dll_tl: "chain f (NBUF # xs @ [NBUF]) \<Longrightarrow> chain f (xs @ [NBUF]) \<and> f NBUF = hd (xs @ [NBUF])"
  by (cases xs) auto

lemma dll_length: "dll bs xs \<Longrightarrow> length xs = NBUF"
  using distinct_card [of xs] by (simp add: dll_def)

lemma find_cached_dll:
  assumes "dll bs xs"
  shows "find_cached (NBUF + 1) bs dev bno (bnext (bs ! NBUF))
     = Inr (List.find (\<lambda>i. bdev (bs ! i) = dev \<and> blockno (bs ! i) = bno) xs)"
  using find_cached_eq [of bs xs "NBUF + 1" dev bno] assms dll_length [OF assms] dll_tl [of "nexts bs" xs]
  by (auto simp: dll_def)

lemma find_unused_dll:
  assumes "dll bs xs"
  shows "find_unused (NBUF + 1) bs (bprev (bs ! NBUF))
     = Inr (List.find (\<lambda>i. \<not> busy (bs ! i) \<and> \<not> dirty (bs ! i)) (rev xs))"
  using find_unused_eq [of bs "rev xs" "NBUF + 1"] assms dll_length [OF assms] dll_tl [of "prevs bs" "rev xs"]
  by (auto simp: dll_def)

text \<open>Changing a buffer's content keeps the list.\<close>

lemma dll_content:
  assumes "dll bs xs" "bnext x = bnext (bs ! i)" "bprev x = bprev (bs ! i)"
  shows "dll (bs[i := x]) xs"
proof -
  have "nexts (bs[i := x]) = nexts bs" "prevs (bs[i := x]) = prevs bs"
    using assms(2,3) by (cases "i < length bs"; auto simp: fun_eq_iff nth_list_update list_update_beyond)+
  with assms(1) show ?thesis by (simp add: dll_def)
qed

text \<open>Releasing a buffer moves it to the front.\<close>

lemma move_front_links:
  assumes "b < NBUF" "length bs = NBUF + 1" "bnext (bs ! b) = n" "bprev (bs ! b) = p" "n \<le> NBUF" "p \<le> NBUF" "n \<noteq> b" "p \<noteq> b"
    and "h = ((nexts bs)(p := n)) NBUF" "h \<le> NBUF"
  shows "nexts (move_front b bs) = (nexts bs)(p := n, b := h, NBUF := b)"
    "prevs (move_front b bs) = (prevs bs)(n := p, b := NBUF, h := b)" "length (move_front b bs) = NBUF + 1"
proof -
  define bs2 where "bs2 = bs[n := (bs ! n)\<lparr>bprev := p\<rparr>, p := (bs[n := (bs ! n)\<lparr>bprev := p\<rparr>] ! p)\<lparr>bnext := n\<rparr>]"
  have n2: "nexts bs2 = (nexts bs)(p := n)" "prevs bs2 = (prevs bs)(n := p)" "length bs2 = NBUF + 1"
    using assms by (auto simp: bs2_def fun_eq_iff nth_list_update)
  define bs4 where "bs4 = bs2[b := (bs2 ! b)\<lparr>bnext := h, bprev := NBUF\<rparr>]"
  have n4: "nexts bs4 = (nexts bs)(p := n, b := h)" "prevs bs4 = (prevs bs)(n := p, b := NBUF)" "length bs4 = NBUF + 1"
    using n2 assms(1) by (simp_all add: bs4_def links_upd)
  have h: "bnext (bs2 ! NBUF) = h" "bnext (bs4 ! NBUF) = h" "bnext (bs[n := (bs ! n)\<lparr>bprev := p\<rparr>] ! b) = n"
    "bprev (bs[n := (bs ! n)\<lparr>bprev := p\<rparr>] ! b) = p"
    using fun_cong [OF n2(1), of NBUF] fun_cong [OF n4(1), of NBUF] assms by (auto simp: nth_list_update)
  have "move_front b bs = bs4[h := (bs4 ! h)\<lparr>bprev := b\<rparr>, NBUF := (bs4[h := (bs4 ! h)\<lparr>bprev := b\<rparr>] ! NBUF)\<lparr>bnext := b\<rparr>]"
    using assms(1-4) h n2(3)
    unfolding move_front_def Let_def assms(3,4) h(3,4) bs2_def [symmetric] h(1)
    by (simp add: bs4_def)
  then show "nexts (move_front b bs) = (nexts bs)(p := n, b := h, NBUF := b)"
    "prevs (move_front b bs) = (prevs bs)(n := p, b := NBUF, h := b)" "length (move_front b bs) = NBUF + 1"
    using n4 assms(10) by (auto simp: fun_eq_iff nth_list_update)
qed

lemma move_front_dll:
  assumes dll: "dll bs (ys @ b # zs)"
  shows "dll (move_front b bs) (b # ys @ zs)"
proof -
  define p n h where "p = last (NBUF # ys)" and "n = hd (zs @ [NBUF])" and "h = hd (ys @ zs @ [NBUF])"
  have b: "b < NBUF" "NBUF \<notin> set (ys @ b # zs)" "distinct (ys @ b # zs)" "length bs = NBUF + 1"
    and s: "set ys \<subseteq> {..<NBUF}" "set zs \<subseteq> {..<NBUF}"
    and nx: "chain (nexts bs) (NBUF # ys @ b # zs @ [NBUF])"
    and pv: "chain (prevs bs) (NBUF # rev zs @ b # rev ys @ [NBUF])"
    using dll by (auto simp: dll_def)
  have d: "distinct (NBUF # ys @ b # zs)" "distinct (NBUF # rev zs @ b # rev ys)" using b by auto
  have l: "last (NBUF # rev zs) = n" "hd (rev ys @ [NBUF]) = p" "last (NBUF # rev zs @ rev ys) = h"
    by (auto simp: n_def p_def h_def last_rev hd_rev hd_append last_append)
  have n1: "chain ((nexts bs)(p := n)) (NBUF # ys @ zs @ [NBUF])"
    using chain_unlink [OF nx d(1)] by (simp add: p_def n_def)
  have p1: "chain ((prevs bs)(n := p)) (NBUF # rev zs @ rev ys @ [NBUF])"
    using chain_unlink [OF pv d(2)] unfolding l by simp
  have hn: "((nexts bs)(p := n)) NBUF = h" using dll_tl [of "(nexts bs)(p := n)" "ys @ zs"] n1 by (simp add: h_def)
  have bn: "bnext (bs ! b) = n" "bprev (bs ! b) = p"
    using nx pv chain_append [of "nexts bs" "NBUF # ys" b "zs @ [NBUF]"] chain_append [of "prevs bs" "NBUF # rev zs" b "rev ys @ [NBUF]"]
      chain_hd [of "nexts bs" b "zs @ [NBUF]"] chain_hd [of "prevs bs" b "rev ys @ [NBUF]"]
    by (simp_all add: n_def l(2))
  have "n \<le> NBUF" "n \<noteq> b" using s b by (cases zs; auto simp: n_def)+
  moreover have "p \<le> NBUF" "p \<noteq> b" using s b by (cases ys rule: rev_cases; auto simp: p_def)+
  moreover have "h \<le> NBUF" using s by (cases ys; cases zs) (auto simp: h_def)
  ultimately have le: "n \<le> NBUF" "p \<le> NBUF" "h \<le> NBUF" "n \<noteq> b" "p \<noteq> b" by auto
  note mf = move_front_links [OF b(1,4) bn le(1,2,4,5) hn [symmetric] le(3)]
  have "chain (nexts (move_front b bs)) (NBUF # b # ys @ zs @ [NBUF])"
    using chain_insert_front [OF n1, of b] b unfolding mf(1) by (auto simp: h_def butlast_append)
  moreover have "chain (prevs (move_front b bs)) (NBUF # (rev zs @ rev ys) @ [b, NBUF])"
    using chain_insert_back [of "(prevs bs)(n := p)" NBUF "rev zs @ rev ys" NBUF b] p1 b unfolding mf(2) l(3) by auto
  ultimately show ?thesis using mf(3) dll by (auto simp: dll_def)
qed

lemma move_front_content: "content (move_front b bs ! k) = content (bs ! k)"
  unfolding move_front_def Let_def by (simp add: content_upd)

text \<open>\<open>binit\<close> links the buffers, the last one first.\<close>

lemma binit_step_links:
  assumes "b < NBUF" "length bs = NBUF + 1" "bnext (bs ! NBUF) = h" "h \<le> NBUF" "h \<noteq> b"
  shows "nexts (binit_step b bs) = (nexts bs)(b := h, NBUF := b)"
    "prevs (binit_step b bs) = (prevs bs)(b := NBUF, h := b)" "length (binit_step b bs) = NBUF + 1"
    "k \<noteq> b \<Longrightarrow> content (binit_step b bs ! k) = content (bs ! k)"
    "bdev (binit_step b bs ! b) = - 1" "bflags (binit_step b bs ! b) = bflags (bs ! b)"
    "bdata (binit_step b bs ! b) = bdata (bs ! b)"
proof -
  define bs3 where "bs3 = bs[b := (bs ! b)\<lparr>bnext := h, bprev := NBUF, bdev := - 1\<rparr>]"
  have "bnext (bs3 ! NBUF) = h" using assms by (simp add: bs3_def)
  then have eq: "binit_step b bs = bs3[h := (bs3 ! h)\<lparr>bprev := b\<rparr>, NBUF := (bs3[h := (bs3 ! h)\<lparr>bprev := b\<rparr>] ! NBUF)\<lparr>bnext := b\<rparr>]"
    using assms(1-3) unfolding binit_step_def Let_def assms(3) by (simp add: bs3_def)
  have n3: "nexts bs3 = (nexts bs)(b := h)" "prevs bs3 = (prevs bs)(b := NBUF)" "length bs3 = NBUF + 1"
    using assms(1,2) by (simp_all add: bs3_def links_upd)
  show "nexts (binit_step b bs) = (nexts bs)(b := h, NBUF := b)"
    "prevs (binit_step b bs) = (prevs bs)(b := NBUF, h := b)" "length (binit_step b bs) = NBUF + 1"
    using n3 assms(4) unfolding eq by (auto simp: fun_eq_iff nth_list_update)
  show "content (binit_step b bs ! k) = content (bs ! k)" if "k \<noteq> b"
    using that unfolding eq by (simp add: content_upd) (simp add: bs3_def)
  show "bdev (binit_step b bs ! b) = - 1" "bflags (binit_step b bs ! b) = bflags (bs ! b)"
    "bdata (binit_step b bs ! b) = bdata (bs ! b)"
    using assms unfolding eq by (auto simp: bs3_def nth_list_update)
qed

lemma binit_chain:
  assumes "length bs = NBUF + 1" "bnext (bs ! NBUF) = NBUF" "bprev (bs ! NBUF) = NBUF" "k \<le> NBUF"
  defines "cs \<equiv> fold binit_step [0..<k] bs"
  shows "chain (nexts cs) (NBUF # rev [0..<k] @ [NBUF]) \<and> chain (prevs cs) (NBUF # [0..<k] @ [NBUF])
     \<and> length cs = NBUF + 1 \<and> (\<forall>i < k. bdev (cs ! i) = - 1 \<and> bflags (cs ! i) = bflags (bs ! i) \<and> bdata (cs ! i) = bdata (bs ! i))
     \<and> (\<forall>i \<ge> k. content (cs ! i) = content (bs ! i))"
  unfolding cs_def using assms(4)
proof (induction k)
  case 0
  then show ?case using assms(1-3) by simp
next
  case (Suc k)
  define cs where "cs = fold binit_step [0..<k] bs"
  have IH: "chain (nexts cs) (NBUF # rev [0..<k] @ [NBUF])" "chain (prevs cs) (NBUF # [0..<k] @ [NBUF])" "length cs = NBUF + 1"
    "\<forall>i < k. bdev (cs ! i) = - 1 \<and> bflags (cs ! i) = bflags (bs ! i) \<and> bdata (cs ! i) = bdata (bs ! i)"
    "\<forall>i \<ge> k. content (cs ! i) = content (bs ! i)"
    using Suc by (simp_all add: cs_def)
  define h where "h = hd (rev [0..<k] @ [NBUF])"
  have h: "bnext (cs ! NBUF) = h" using dll_tl [OF IH(1)] by (simp add: h_def)
  have hk: "h = (if k = 0 then NBUF else k - 1)" by (cases k) (simp_all add: h_def)
  have k: "k < NBUF" using Suc.prems by simp
  have le: "h \<le> NBUF" "h \<noteq> k" using k by (auto simp: hk)
  note st = binit_step_links [OF k IH(3) h le]
  have l: "last (NBUF # [0..<k]) = h" by (cases k) (simp_all add: hk)
  have "chain (nexts (binit_step k cs)) (NBUF # k # rev [0..<k] @ [NBUF])"
    using chain_insert_front [OF IH(1), of k] k unfolding st(1) by (auto simp: h_def butlast_append)
  moreover have "chain (prevs (binit_step k cs)) (NBUF # [0..<k] @ [k, NBUF])"
    using chain_insert_back [OF IH(2), of k] k unfolding st(2) l by auto
  moreover have "\<forall>i < Suc k. bdev (binit_step k cs ! i) = - 1 \<and> bflags (binit_step k cs ! i) = bflags (bs ! i)
      \<and> bdata (binit_step k cs ! i) = bdata (bs ! i)"
    using IH(4,5) st(4) [THEN contentD] st(5-7) contentD [of "cs ! k" "bs ! k"] by (auto simp: less_Suc_eq)
  moreover have "\<forall>i \<ge> Suc k. content (binit_step k cs ! i) = content (bs ! i)" using IH(5) st(4) by auto
  ultimately show ?case using st(3) by (simp add: cs_def [symmetric])
qed


section \<open>The cache as its clients see it\<close>

text \<open>
  The invariant: the list is intact, the lock free, no block has two buffers, a buffer that is
  neither held nor dirty and is valid holds what the disk holds.
\<close>

definition buf_ok :: "'a bio_st_scheme \<Rightarrow> buf \<Rightarrow> bool" where
  "buf_ok s b \<longleftrightarrow> length (bdata b) = BSIZE \<and> (bdev b = 1 \<or> bdev b = - 1)
     \<and> (busy b \<or> valid b \<or> dirty b \<longrightarrow> bdev b = 1 \<and> blockno b < disksize s) \<and> (dirty b \<or> busy b \<longrightarrow> valid b)
     \<and> (valid b \<and> \<not> dirty b \<and> \<not> busy b \<longrightarrow> bdata b = disk s (blockno b))"

definition bio_inv :: "'a bio_st_scheme \<Rightarrow> bool" where
  "bio_inv s \<longleftrightarrow> (\<exists>xs. dll (bufs s) xs) \<and> \<not> bcache_lock s \<and> (\<forall>i < NBUF. buf_ok s (bufs s ! i))
     \<and> (\<forall>i < NBUF. \<forall>j < NBUF. bdev (bufs s ! i) = 1 \<and> bdev (bufs s ! j) = 1
          \<and> blockno (bufs s ! i) = blockno (bufs s ! j) \<longrightarrow> i = j)
     \<and> (\<forall>b < disksize s. length (disk s b) = BSIZE)"

text \<open>The blocks held by somebody, the blocks with unwritten changes, and the current contents.\<close>

definition held :: "'a bio_st_scheme \<Rightarrow> u32 set" where
  "held s = {blockno (bufs s ! i) | i. i < NBUF \<and> busy (bufs s ! i)}"

definition pinned :: "'a bio_st_scheme \<Rightarrow> u32 set" where
  "pinned s = {blockno (bufs s ! i) | i. i < NBUF \<and> dirty (bufs s ! i)}"

definition cached :: "'a bio_st_scheme \<Rightarrow> u32 \<Rightarrow> nat option" where
  "cached s b = List.find (\<lambda>i. bdev (bufs s ! i) = 1 \<and> blockno (bufs s ! i) = b \<and> valid (bufs s ! i)) [0..<NBUF]"

definition bview :: "'a bio_st_scheme \<Rightarrow> u32 \<Rightarrow> u8 list" where
  "bview s b = (case cached s b of Some i \<Rightarrow> bdata (bufs s ! i) | None \<Rightarrow> disk s b)"

definition holds :: "'a bio_st_scheme \<Rightarrow> nat \<Rightarrow> u32 \<Rightarrow> bool" where
  "holds s i b \<longleftrightarrow> i < NBUF \<and> busy (bufs s ! i) \<and> bdev (bufs s ! i) = 1 \<and> blockno (bufs s ! i) = b"

definition bio_frame :: "'a bio_st_scheme \<Rightarrow> 'a bio_st_scheme \<Rightarrow> bool" where
  "bio_frame s t \<longleftrightarrow> disksize t = disksize s \<and> bio_st.more t = bio_st.more s"

lemma bio_invD:
  assumes "bio_inv s"
  shows "\<exists>xs. dll (bufs s) xs" "\<not> bcache_lock s" "i < NBUF \<Longrightarrow> buf_ok s (bufs s ! i)" "length (bufs s) = NBUF + 1"
    "i < NBUF \<Longrightarrow> j < NBUF \<Longrightarrow> bdev (bufs s ! i) = 1 \<Longrightarrow> bdev (bufs s ! j) = 1 \<Longrightarrow>
       blockno (bufs s ! i) = blockno (bufs s ! j) \<Longrightarrow> i = j"
    "b < disksize s \<Longrightarrow> length (disk s b) = BSIZE"
  using assms unfolding bio_inv_def dll_def by blast+

lemma cached_Some:
  assumes "bio_inv s" "i < NBUF" "bdev (bufs s ! i) = 1" "blockno (bufs s ! i) = b" "valid (bufs s ! i)"
  shows "cached s b = Some i"
proof (cases "cached s b")
  case None
  then show ?thesis using assms by (auto simp: cached_def find_None_iff)
next
  case (Some j)
  then have "j < NBUF" "bdev (bufs s ! j) = 1" "blockno (bufs s ! j) = b"
    by (auto simp: cached_def find_Some_iff simp del: upt_rec_numeral)
  with bio_invD(5) [OF assms(1)] assms Some show ?thesis by auto
qed

lemma cached_None:
  "cached s b = None \<longleftrightarrow> (\<forall>i < NBUF. \<not> (bdev (bufs s ! i) = 1 \<and> blockno (bufs s ! i) = b \<and> valid (bufs s ! i)))"
  by (auto simp: cached_def find_None_iff)

lemma bview_cached:
  "bio_inv s \<Longrightarrow> i < NBUF \<Longrightarrow> bdev (bufs s ! i) = 1 \<Longrightarrow> valid (bufs s ! i) \<Longrightarrow> bview s (blockno (bufs s ! i)) = bdata (bufs s ! i)"
  using cached_Some [of s i] by (simp add: bview_def)

text \<open>A block that nobody holds and nobody has changed is on the disk.\<close>

lemma bview_disk:
  assumes "bio_inv s" "b \<notin> held s" "b \<notin> pinned s"
  shows "bview s b = disk s b"
proof (cases "cached s b")
  case (Some i)
  then have "i < NBUF" "blockno (bufs s ! i) = b" "valid (bufs s ! i)"
    by (auto simp: cached_def find_Some_iff simp del: upt_rec_numeral)
  moreover from this assms(2,3) have "\<not> busy (bufs s ! i)" "\<not> dirty (bufs s ! i)" by (auto simp: held_def pinned_def)
  ultimately show ?thesis using Some bio_invD(3) [OF assms(1)] by (auto simp: bview_def buf_ok_def)
qed (simp add: bview_def)

text \<open>A buffer for a new block can be found while not every buffer is held or dirty.\<close>

lemma unused_exists:
  assumes "bio_inv s" "card (held s \<union> pinned s) < NBUF"
  shows "\<exists>i < NBUF. \<not> busy (bufs s ! i) \<and> \<not> dirty (bufs s ! i)"
proof (rule ccontr)
  assume no: "\<not> ?thesis"
  have ok: "bdev (bufs s ! i) = 1" if "i < NBUF" for i
    using no that bio_invD(3) [OF assms(1) that] by (auto simp: buf_ok_def)
  have "inj_on (\<lambda>i. blockno (bufs s ! i)) {..<NBUF}"
    by (rule inj_onI) (use ok bio_invD(5) [OF assms(1)] in auto)
  moreover have "(\<lambda>i. blockno (bufs s ! i)) ` {..<NBUF} \<subseteq> held s \<union> pinned s"
    using no by (auto simp: held_def pinned_def)
  moreover have "finite (held s \<union> pinned s)" by (simp add: held_def pinned_def)
  ultimately have "NBUF \<le> card (held s \<union> pinned s)" using card_inj_on_le [of _ "{..<NBUF}" "held s \<union> pinned s"] by auto
  with assms(2) show False by simp
qed

text \<open>What \<open>bread\<close> makes of the buffers: one of them, \<open>x\<close> now, is held and has the block.\<close>

definition got :: "'a bio_st_scheme \<Rightarrow> u32 \<Rightarrow> nat \<Rightarrow> buf \<Rightarrow> bool" where
  "got s b i x \<longleftrightarrow> i < NBUF \<and> busy x \<and> valid x \<and> bdev x = 1 \<and> blockno x = b \<and> bdata x = bview s b
     \<and> bnext x = bnext (bufs s ! i) \<and> bprev x = bprev (bufs s ! i) \<and> dirty x = dirty (bufs s ! i)
     \<and> \<not> busy (bufs s ! i) \<and> (dirty (bufs s ! i) \<longrightarrow> blockno (bufs s ! i) = b)
     \<and> (\<forall>j < NBUF. j \<noteq> i \<longrightarrow> \<not> (bdev (bufs s ! j) = 1 \<and> blockno (bufs s ! j) = b))"

lemma iderw_read:
  assumes "bufs s ! i = x" "busy x" "\<not> valid x" "\<not> dirty x" "bdev x = 1" "blockno x < disksize s" "i < length (bufs s)"
  shows "iderw i s = Inr (s\<lparr>bufs := (bufs s)[i := x\<lparr>bdata := disk s (blockno x), bflags := bflags x OR B_VALID\<rparr>]\<rparr>)"
  using assms by (simp add: iderw_def Let_def upd_buf_def not_le)

lemma bread_got:
  fixes s :: "'a bio_st_scheme"
  assumes inv: "bio_inv s" and b: "b < disksize s" "b \<notin> held s" "b \<in> pinned s \<or> card (held s \<union> pinned s) < NBUF"
  shows "\<exists>i x. bread 1 b s = Inr (i, s\<lparr>bufs := (bufs s)[i := x]\<rparr>) \<and> got s b i x"
proof -
  obtain xs where xs: "dll (bufs s) xs" using bio_invD(1) [OF inv] by blast
  have set: "set xs = {..<NBUF}" using xs by (simp add: dll_def)
  have len: "length (bufs s) = NBUF + 1" by (rule bio_invD(4) [OF inv])
  let ?s = "s\<lparr>bcache_lock := True\<rparr>"
  let ?P = "\<lambda>i. bdev (bufs s ! i) = 1 \<and> blockno (bufs s ! i) = b"
  have lock: "s\<lparr>bufs := bs, bcache_lock := False\<rparr> = s\<lparr>bufs := bs\<rparr>" for bs
    using bio_invD(2) [OF inv] by (cases s) simp
  have fc: "find_cached (NBUF + 1) (bufs s) 1 b (bnext (bufs s ! NBUF)) = Inr (List.find ?P xs)"
    by (rule find_cached_dll [OF xs])
  show ?thesis
  proof (cases "List.find ?P xs")
    case (Some i)
    then have i: "i < NBUF" "?P i" using set by (auto simp: find_Some_iff)
    then have nb: "\<not> busy (bufs s ! i)" using b(2) by (auto simp: held_def)
    define y where "y = (bufs s ! i)\<lparr>bflags := bflags (bufs s ! i) OR B_BUSY\<rparr>"
    have get: "bget 1 b s = Inr (i, s\<lparr>bufs := (bufs s)[i := y]\<rparr>)"
      using fc Some nb bio_invD(2) [OF inv] lock
      by (simp add: bget_def bcache_acquire_def bcache_release_def upd_buf_def y_def
          del: find_cached.simps find_unused.simps)
    have uniq: "\<forall>j < NBUF. j \<noteq> i \<longrightarrow> \<not> ?P j" using bio_invD(5) [OF inv i(1)] i(2) by metis
    show ?thesis
    proof (cases "valid (bufs s ! i)")
      case True
      then have "bread 1 b s = Inr (i, s\<lparr>bufs := (bufs s)[i := y]\<rparr>)" using get i len by (simp add: bread_def y_def)
      moreover have "got s b i y" using True i nb uniq bview_cached [OF inv i(1)] by (auto simp: got_def y_def)
      ultimately show ?thesis by blast
    next
      case False
      define x where "x = y\<lparr>bdata := disk s b, bflags := bflags y OR B_VALID\<rparr>"
      have nd: "\<not> dirty (bufs s ! i)" using bio_invD(3) [OF inv i(1)] False by (auto simp: buf_ok_def)
      have "iderw i (s\<lparr>bufs := (bufs s)[i := y]\<rparr>) = Inr (s\<lparr>bufs := (bufs s)[i := x]\<rparr>)"
        using iderw_read [of "s\<lparr>bufs := (bufs s)[i := y]\<rparr>" i y] i len False nd b(1) by (simp add: y_def x_def)
      then have "bread 1 b s = Inr (i, s\<lparr>bufs := (bufs s)[i := x]\<rparr>)"
        using get False i len by (simp add: bread_def y_def)
      moreover have "cached s b = None" using uniq False by (auto simp: cached_None)
      then have "got s b i x" using i nb nd uniq by (auto simp: got_def x_def y_def bview_def)
      ultimately show ?thesis by blast
    qed
  next
    case None
    then have no: "\<forall>j < NBUF. \<not> ?P j" using set by (auto simp: find_None_iff)
    have "b \<notin> pinned s" using no bio_invD(3) [OF inv] by (auto simp: pinned_def buf_ok_def)
    then obtain j where j: "j < NBUF" "\<not> busy (bufs s ! j)" "\<not> dirty (bufs s ! j)"
      using unused_exists [OF inv] b(3) by auto
    have "List.find (\<lambda>i. \<not> busy (bufs s ! i) \<and> \<not> dirty (bufs s ! i)) (rev xs) \<noteq> None"
      using j set by (auto simp: find_None_iff)
    then obtain i where fu: "List.find (\<lambda>i. \<not> busy (bufs s ! i) \<and> \<not> dirty (bufs s ! i)) (rev xs) = Some i" by blast
    then have i: "i < NBUF" "\<not> busy (bufs s ! i)" "\<not> dirty (bufs s ! i)" using set by (auto simp: find_Some_iff)
        (metis lessThan_iff nth_mem rev_nth set_rev length_rev)
    define y where "y = (bufs s ! i)\<lparr>bdev := 1, blockno := b, bflags := B_BUSY\<rparr>"
    define x where "x = y\<lparr>bdata := disk s b, bflags := bflags y OR B_VALID\<rparr>"
    have get: "bget 1 b s = Inr (i, s\<lparr>bufs := (bufs s)[i := y]\<rparr>)"
      using fc None fu find_unused_dll [OF xs] bio_invD(2) [OF inv] lock
      by (simp add: bget_def bcache_acquire_def bcache_release_def upd_buf_def y_def
          del: find_cached.simps find_unused.simps)
    have "iderw i (s\<lparr>bufs := (bufs s)[i := y]\<rparr>) = Inr (s\<lparr>bufs := (bufs s)[i := x]\<rparr>)"
      using iderw_read [of "s\<lparr>bufs := (bufs s)[i := y]\<rparr>" i y] i len b(1) by (simp add: y_def x_def)
    then have "bread 1 b s = Inr (i, s\<lparr>bufs := (bufs s)[i := x]\<rparr>)"
      using get i len by (simp add: bread_def y_def)
    moreover have "cached s b = None" using no by (auto simp: cached_None)
    then have "got s b i x" using i no by (auto simp: got_def x_def y_def bview_def)
    ultimately show ?thesis by blast
  qed
qed

lemma bview_none:
  "(\<And>j. j < NBUF \<Longrightarrow> \<not> (bdev (bufs s ! j) = 1 \<and> blockno (bufs s ! j) = c \<and> valid (bufs s ! j))) \<Longrightarrow> bview s c = disk s c"
  using cached_None [of s c] by (simp add: bview_def)

lemma bview_length: "bio_inv s \<Longrightarrow> b < disksize s \<Longrightarrow> length (bview s b) = BSIZE"
  using bio_invD(3,6) [of s] by (auto simp: bview_def cached_def find_Some_iff buf_ok_def split: option.split simp del: upt_rec_numeral)

text \<open>Changing the content of one buffer.\<close>

lemma bio_inv_upd:
  assumes "bio_inv s" "bufs t = (bufs s)[i := x]" "i < NBUF" "bnext x = bnext (bufs s ! i)" "bprev x = bprev (bufs s ! i)"
    and "bcache_lock t = bcache_lock s" "buf_ok t x" "\<And>j. j < NBUF \<Longrightarrow> j \<noteq> i \<Longrightarrow> buf_ok t (bufs s ! j)"
    and "bdev x = 1 \<Longrightarrow> \<forall>j < NBUF. j \<noteq> i \<longrightarrow> \<not> (bdev (bufs s ! j) = 1 \<and> blockno (bufs s ! j) = blockno x)"
    and "\<And>b. b < disksize t \<Longrightarrow> length (disk t b) = BSIZE"
  shows "bio_inv t"
proof -
  have len: "i < length (bufs s)" using bio_invD(4) [OF assms(1)] assms(3) by simp
  obtain xs where "dll (bufs s) xs" using bio_invD(1) [OF assms(1)] by blast
  then have "dll (bufs t) xs" unfolding assms(2) by (rule dll_content [OF _ assms(4,5)])
  moreover have "\<forall>j < NBUF. buf_ok t (bufs t ! j)" using assms(7,8) len by (simp add: assms(2) nth_list_update)
  moreover have "\<forall>j < NBUF. \<forall>k < NBUF. bdev (bufs t ! j) = 1 \<and> bdev (bufs t ! k) = 1
      \<and> blockno (bufs t ! j) = blockno (bufs t ! k) \<longrightarrow> j = k"
    using assms(9) bio_invD(5) [OF assms(1)] len by (auto simp: assms(2) nth_list_update)
  ultimately show ?thesis using assms(6,10) bio_invD(2) [OF assms(1)] unfolding bio_inv_def by auto
qed

lemma got_ok:
  fixes s :: "'a bio_st_scheme"
  assumes inv: "bio_inv s" and b: "b < disksize s" and g: "got s b i x"
  defines "t \<equiv> s\<lparr>bufs := (bufs s)[i := x]\<rparr>"
  shows "bio_inv t" "holds t i b" "held t = insert b (held s)" "pinned t = pinned s" "bview t = bview s"
    "holds s j c \<Longrightarrow> holds t j c"
proof -
  have i: "i < length (bufs s)" using bio_invD(4) [OF inv] g by (simp add: got_def)
  have other: "bufs t ! j = bufs s ! j" if "j \<noteq> i" for j using that by (simp add: t_def)
  have self: "bufs t ! i = x" using i by (simp add: t_def)
  have "buf_ok t x" using g bview_length [OF inv b] b by (auto simp: got_def buf_ok_def t_def)
  moreover have "buf_ok t y = buf_ok s y" for y by (simp add: buf_ok_def t_def)
  ultimately show inv': "bio_inv t"
    using bio_invD(3,6) [OF inv] g by (intro bio_inv_upd [OF inv, of t i x]) (auto simp: t_def got_def)
  show "holds t i b" using g self by (simp add: holds_def got_def)
  show "holds s j c \<Longrightarrow> holds t j c" using g other [of j] by (cases "j = i") (auto simp: holds_def got_def)
  have upd: "bufs t ! j = (if j = i then x else bufs s ! j)" for j using self other by simp
  show "held t = insert b (held s)"
    unfolding held_def using g by (auto simp: upd got_def)
  show "pinned t = pinned s"
    unfolding pinned_def using g by (auto simp: upd got_def)
  show "bview t = bview s"
  proof
    fix c
    show "bview t c = bview s c"
    proof (cases "c = b")
      case True
      then show ?thesis using bview_cached [OF inv', of i] g self by (simp add: got_def)
    next
      case cb: False
      show ?thesis
      proof (cases "\<exists>j < NBUF. j \<noteq> i \<and> bdev (bufs s ! j) = 1 \<and> blockno (bufs s ! j) = c \<and> valid (bufs s ! j)")
        case True
        then obtain j where "j < NBUF" "j \<noteq> i" "bdev (bufs s ! j) = 1" "blockno (bufs s ! j) = c" "valid (bufs s ! j)" by blast
        then show ?thesis using bview_cached [OF inv', of j] bview_cached [OF inv, of j] other [of j] by simp
      next
        case False
        then have "bview t c = disk t c" using cb g by (intro bview_none) (auto simp: upd got_def)
        moreover have "bview s c = disk s c"
        proof (cases "bdev (bufs s ! i) = 1 \<and> blockno (bufs s ! i) = c \<and> valid (bufs s ! i)")
          case True
          then show ?thesis using bview_cached [OF inv, of i] g cb bio_invD(3) [OF inv, of i] by (auto simp: got_def buf_ok_def)
        next
          case not_i: False
          show ?thesis by (rule bview_none) (use False not_i in auto)
        qed
        ultimately show ?thesis by (simp add: t_def)
      qed
    qed
  qed
qed

lemma bread_ok:
  fixes s :: "'a bio_st_scheme"
  assumes "bio_inv s" "b < disksize s" "b \<notin> held s" "b \<in> pinned s \<or> card (held s \<union> pinned s) < NBUF"
  shows "\<exists>i t. bread 1 b s = Inr (i, t) \<and> bio_inv t \<and> holds t i b \<and> (\<forall>j c. holds s j c \<longrightarrow> holds t j c)
     \<and> held t = insert b (held s) \<and> pinned t = pinned s \<and> bview t = bview s \<and> disk t = disk s \<and> history t = history s
     \<and> bio_frame s t"
proof -
  obtain i x where ix: "bread 1 b s = Inr (i, s\<lparr>bufs := (bufs s)[i := x]\<rparr>)" "got s b i x"
    using bread_got [OF assms] by blast
  show ?thesis
    by (intro exI conjI) (rule ix(1), use got_ok [OF assms(1,2) ix(2)] in \<open>auto simp: bio_frame_def\<close>)
qed

text \<open>Changing a held buffer: its data, its flags, the disk block behind it.\<close>

lemma collect_new:
  assumes "i < n" "\<And>j. j \<noteq> i \<Longrightarrow> g j = f j" "\<And>j. j < n \<Longrightarrow> j \<noteq> i \<Longrightarrow> P (f j) \<Longrightarrow> B (f j) \<noteq> B (f i)" "B (g i) = B (f i)"
  shows "{B (g j) | j. j < n \<and> P (g j)} = (if P (g i) then insert (B (f i)) {B (f j) | j. j < n \<and> P (f j)} else {B (f j) | j. j < n \<and> P (f j)} - {B (f i)})"
  (is "?G = (if _ then insert _ ?F else _)")
proof -
  define R where "R = {B (f j) | j. j < n \<and> j \<noteq> i \<and> P (f j)}"
  have "?F = (if P (f i) then insert (B (f i)) R else R)" using assms(1) by (auto simp: R_def)
  moreover have "?G = (if P (g i) then insert (B (f i)) R else R)"
  proof -
    have "?G = (if P (g i) then {B (g i)} else {}) \<union> {B (g j) | j. j < n \<and> j \<noteq> i \<and> P (g j)}" using assms(1) by auto
    also have "{B (g j) | j. j < n \<and> j \<noteq> i \<and> P (g j)} = R" unfolding R_def using assms(2) by metis
    finally show ?thesis using assms(4) by auto
  qed
  moreover have "B (f i) \<notin> R" using assms(3) by (force simp: R_def)
  ultimately show ?thesis by auto
qed

lemma held_upd:
  fixes s t :: "'a bio_st_scheme"
  assumes inv: "bio_inv s" and h: "holds s i b" and t: "bufs t = (bufs s)[i := x]"
    and x: "bdev x = 1" "blockno x = b" "valid x" "bnext x = bnext (bufs s ! i)" "bprev x = bprev (bufs s ! i)" "buf_ok t x"
    and same: "disksize t = disksize s" "bcache_lock t = bcache_lock s" "\<forall>c. c \<noteq> b \<longrightarrow> disk t c = disk s c"
      "length (disk t b) = BSIZE"
  shows "bio_inv t" "bview t = (bview s)(b := bdata x)" "held t = (if busy x then held s else held s - {b})"
    "pinned t = (if dirty x then insert b (pinned s) else pinned s - {b})"
    "holds s j c \<Longrightarrow> j \<noteq> i \<Longrightarrow> holds t j c" "busy x \<Longrightarrow> holds t i b"
proof -
  have i: "i < NBUF" "bdev (bufs s ! i) = 1" "blockno (bufs s ! i) = b" "busy (bufs s ! i)" using h by (auto simp: holds_def)
  have upd: "bufs t ! j = (if j = i then x else bufs s ! j)" for j
    using i bio_invD(4) [OF inv] by (simp add: t nth_list_update)
  have uniq: "\<not> (bdev (bufs s ! j) = 1 \<and> blockno (bufs s ! j) = b)" if "j < NBUF" "j \<noteq> i" for j
    using bio_invD(5) [OF inv i(1) that(1)] i that by auto
  have vi: "valid (bufs s ! i)" using bio_invD(3) [OF inv i(1)] i by (simp add: buf_ok_def)
  have other: "buf_ok t (bufs s ! j)" if "j < NBUF" "j \<noteq> i" for j
    using bio_invD(3) [OF inv that(1)] uniq [OF that] same by (auto simp: buf_ok_def)
  show inv': "bio_inv t"
  proof (rule bio_inv_upd [OF inv t i(1) x(4,5) same(2) x(6) other])
    show "\<forall>j < NBUF. j \<noteq> i \<longrightarrow> \<not> (bdev (bufs s ! j) = 1 \<and> blockno (bufs s ! j) = blockno x)" using uniq x by auto
    show "length (disk t c) = BSIZE" if "c < disksize t" for c
      using that same bio_invD(6) [OF inv] by (cases "c = b") auto
  qed
  show "holds s j c \<Longrightarrow> j \<noteq> i \<Longrightarrow> holds t j c" "busy x \<Longrightarrow> holds t i b" using x i by (simp_all add: holds_def upd)
  show "held t = (if busy x then held s else held s - {b})"
  proof -
    have "blockno (bufs s ! j) \<noteq> b" if "j < NBUF" "j \<noteq> i" "busy (bufs s ! j)" for j
      using uniq [OF that(1,2)] bio_invD(3) [OF inv that(1)] that(3) by (auto simp: buf_ok_def)
    then have "held t = (if busy x then insert b (held s) else held s - {b})"
      using collect_new [of i NBUF "(!) (bufs t)" "(!) (bufs s)" busy blockno] x(2) i upd
      unfolding held_def by simp
    moreover have "b \<in> held s" using i by (auto simp: held_def)
    ultimately show ?thesis by auto
  qed
  show "pinned t = (if dirty x then insert b (pinned s) else pinned s - {b})"
  proof -
    have "blockno (bufs s ! j) \<noteq> b" if "j < NBUF" "j \<noteq> i" "dirty (bufs s ! j)" for j
      using uniq [OF that(1,2)] bio_invD(3) [OF inv that(1)] that(3) by (auto simp: buf_ok_def)
    then have "pinned t = (if dirty x then insert b (pinned s) else pinned s - {b})"
      using collect_new [of i NBUF "(!) (bufs t)" "(!) (bufs s)" dirty blockno] x(2) i upd
      unfolding pinned_def by simp
    then show ?thesis .
  qed
  show "bview t = (bview s)(b := bdata x)"
  proof
    fix c
    show "bview t c = ((bview s)(b := bdata x)) c"
    proof (cases "c = b")
      case True
      then show ?thesis using bview_cached [OF inv' i(1)] x by (simp add: upd)
    next
      case cb: False
      show ?thesis
      proof (cases "\<exists>j < NBUF. bdev (bufs s ! j) = 1 \<and> blockno (bufs s ! j) = c \<and> valid (bufs s ! j)")
        case True
        then obtain j where j: "j < NBUF" "bdev (bufs s ! j) = 1" "blockno (bufs s ! j) = c" "valid (bufs s ! j)" by blast
        then have "j \<noteq> i" using cb i by auto
        then show ?thesis using j cb bview_cached [OF inv', of j] bview_cached [OF inv, of j] by (simp add: upd)
      next
        case False
        then have "bview s c = disk s c" by (intro bview_none) auto
        moreover have "bview t c = disk t c" using False cb x by (intro bview_none) (auto simp: upd)
        ultimately show ?thesis using cb same(3) by simp
      qed
    qed
  qed
qed

text \<open>Only the content of the buffers matters to all these notions.\<close>

lemma same_content:
  fixes s t :: "'a bio_st_scheme"
  assumes c: "\<And>k. k < NBUF \<Longrightarrow> content (bufs t ! k) = content (bufs s ! k)" and xs: "dll (bufs t) xs"
    and same: "disksize t = disksize s" "bcache_lock t = bcache_lock s" "disk t = disk s"
  shows "bio_inv s \<Longrightarrow> bio_inv t" "bview t = bview s" "held t = held s" "pinned t = pinned s" "holds s j b \<Longrightarrow> holds t j b"
proof -
  have eq: "bflags (bufs t ! k) = bflags (bufs s ! k)" "bdev (bufs t ! k) = bdev (bufs s ! k)"
    "blockno (bufs t ! k) = blockno (bufs s ! k)" "bdata (bufs t ! k) = bdata (bufs s ! k)" if "k < NBUF" for k
    using c [OF that] by (auto dest: contentD)
  show "bio_inv s \<Longrightarrow> bio_inv t"
    using xs same eq unfolding bio_inv_def buf_ok_def by auto
  have "cached t b = cached s b" for b
    unfolding cached_def by (rule find_cong) (use eq in \<open>auto simp del: upt_rec_numeral\<close>)
  moreover have "i < NBUF" if "cached s b = Some i" for i b
    using that by (auto simp: cached_def find_Some_iff simp del: upt_rec_numeral)
  ultimately show "bview t = bview s" using eq same by (auto simp: fun_eq_iff bview_def split: option.split)
  show "held t = held s" "pinned t = pinned s" using eq by (auto simp: held_def pinned_def) metis+
  show "holds s j b \<Longrightarrow> holds t j b" using eq by (auto simp: holds_def)
qed

abbreviation set_data :: "nat \<Rightarrow> u8 list \<Rightarrow> 'a bio_st_scheme \<Rightarrow> 'a bio_st_scheme" where
  "set_data i d \<equiv> upd_buf i (\<lambda>b. b\<lparr>bdata := d\<rparr>)"

abbreviation set_dirty :: "nat \<Rightarrow> 'a bio_st_scheme \<Rightarrow> 'a bio_st_scheme" where
  "set_dirty i \<equiv> upd_buf i (\<lambda>b. b\<lparr>bflags := bflags b OR B_DIRTY\<rparr>)"

lemma holds_ok:
  assumes "bio_inv s" "holds s i b"
  shows "buf_ok s (bufs s ! i)" "valid (bufs s ! i)" "b < disksize s" "b \<in> held s" "bdata (bufs s ! i) = bview s b"
    "i < length (bufs s)"
proof -
  have i: "i < NBUF" "busy (bufs s ! i)" "bdev (bufs s ! i) = 1" "blockno (bufs s ! i) = b"
    using assms(2) by (auto simp: holds_def)
  show ok: "buf_ok s (bufs s ! i)" by (rule bio_invD(3) [OF assms(1) i(1)])
  with i show "valid (bufs s ! i)" "b < disksize s" by (auto simp: buf_ok_def)
  with bview_cached [OF assms(1) i(1,3)] i(4) show "bdata (bufs s ! i) = bview s b" by simp
  show "b \<in> held s" using i by (auto simp: held_def)
  show "i < length (bufs s)" using bio_invD(4) [OF assms(1)] i(1) by simp
qed

lemma dirty_pinned:
  assumes "bio_inv s" "holds s i b"
  shows "dirty (bufs s ! i) \<longleftrightarrow> b \<in> pinned s"
proof
  assume "b \<in> pinned s"
  then obtain j where j: "j < NBUF" "dirty (bufs s ! j)" "blockno (bufs s ! j) = b" by (auto simp: pinned_def)
  then have "bdev (bufs s ! j) = 1" using bio_invD(3) [OF assms(1) j(1)] by (auto simp: buf_ok_def)
  then have "j = i" using bio_invD(5) [OF assms(1) j(1), of i] j assms(2) by (auto simp: holds_def)
  with j show "dirty (bufs s ! i)" by simp
qed (use assms(2) in \<open>auto simp: pinned_def holds_def\<close>)

lemma set_data_ok:
  fixes s :: "'a bio_st_scheme"
  assumes inv: "bio_inv s" and h: "holds s i b" and d: "length d = BSIZE"
  defines "t \<equiv> set_data i d s"
  shows "bio_inv t \<and> bview t = (bview s)(b := d) \<and> held t = held s \<and> pinned t = pinned s \<and> disk t = disk s
     \<and> history t = history s \<and> bio_frame s t \<and> (\<forall>j c. holds s j c \<longrightarrow> holds t j c)"
proof -
  note ok = holds_ok [OF inv h]
  define x where "x = (bufs s ! i)\<lparr>bdata := d\<rparr>"
  have x: "bdev x = 1" "blockno x = b" "valid x" "busy x" "dirty x = dirty (bufs s ! i)" "bnext x = bnext (bufs s ! i)"
    "bprev x = bprev (bufs s ! i)" "buf_ok t x"
    using h ok(1,2) d by (auto simp: x_def holds_def buf_ok_def t_def upd_buf_def)
  have t: "bufs t = (bufs s)[i := x]" by (simp add: t_def upd_buf_def x_def)
  have same: "disksize t = disksize s" "bcache_lock t = bcache_lock s" "disk t = disk s" "history t = history s"
    "bio_st.more t = bio_st.more s"
    by (simp_all add: t_def upd_buf_def)
  have dt: "\<forall>c. c \<noteq> b \<longrightarrow> disk t c = disk s c" "length (disk t b) = BSIZE"
    using same(3) bio_invD(6) [OF inv ok(3)] by simp_all
  note u = held_upd [OF inv h t x(1-3,6-8) same(1,2) dt]
  have pb: "dirty (bufs s ! i) \<longleftrightarrow> b \<in> pinned s" by (rule dirty_pinned [OF inv h])
  have "pinned t = pinned s" using u(4) x(5) pb by (auto split: if_splits)
  moreover have "holds t j c" if "holds s j c" for j c using u(5,6) x(4) that h by (cases "j = i") (auto simp: holds_def)
  ultimately show ?thesis using u(1-3) x(4) same by (simp add: bio_frame_def x_def)
qed

lemma set_dirty_ok:
  fixes s :: "'a bio_st_scheme"
  assumes inv: "bio_inv s" and h: "holds s i b"
  defines "t \<equiv> set_dirty i s"
  shows "bio_inv t \<and> bview t = bview s \<and> held t = held s \<and> pinned t = insert b (pinned s) \<and> disk t = disk s
     \<and> history t = history s \<and> bio_frame s t \<and> (\<forall>j c. holds s j c \<longrightarrow> holds t j c)"
proof -
  note ok = holds_ok [OF inv h]
  define x where "x = (bufs s ! i)\<lparr>bflags := bflags (bufs s ! i) OR B_DIRTY\<rparr>"
  have x: "bdev x = 1" "blockno x = b" "valid x" "busy x" "dirty x" "bnext x = bnext (bufs s ! i)"
    "bprev x = bprev (bufs s ! i)" "buf_ok t x"
    using h ok(1,2) by (auto simp: x_def holds_def buf_ok_def t_def upd_buf_def)
  have t: "bufs t = (bufs s)[i := x]" by (simp add: t_def upd_buf_def x_def)
  have same: "disksize t = disksize s" "bcache_lock t = bcache_lock s" "disk t = disk s" "history t = history s"
    "bio_st.more t = bio_st.more s"
    by (simp_all add: t_def upd_buf_def)
  have dt: "\<forall>c. c \<noteq> b \<longrightarrow> disk t c = disk s c" "length (disk t b) = BSIZE"
    using same(3) bio_invD(6) [OF inv ok(3)] by simp_all
  note u = held_upd [OF inv h t x(1-3,6-8) same(1,2) dt]
  have "holds t j c" if "holds s j c" for j c using u(5,6) x(4) that h by (cases "j = i") (auto simp: holds_def)
  moreover have "bdata x = bview s b" using ok(5) by (simp add: x_def)
  ultimately show ?thesis using u(1-4) x(4,5) same by (simp add: bio_frame_def)
qed

lemma bwrite_ok:
  fixes s :: "'a bio_st_scheme"
  assumes inv: "bio_inv s" and h: "holds s i b"
  shows "\<exists>t. bwrite i s = Inr t \<and> bio_inv t \<and> bview t = bview s \<and> held t = held s \<and> pinned t = pinned s - {b}
     \<and> disk t = (disk s)(b := bview s b) \<and> history t = history s @ [(b, bview s b)] \<and> bio_frame s t
     \<and> (\<forall>j c. holds s j c \<longrightarrow> holds t j c)"
proof -
  note ok = holds_ok [OF inv h]
  define x where "x = (bufs s ! i)\<lparr>bflags := (((bflags (bufs s ! i) OR B_DIRTY) AND NOT B_DIRTY) OR B_VALID)\<rparr>"
  define t where "t = s\<lparr>bufs := (bufs s)[i := x], disk := (disk s)(b := bview s b), history := history s @ [(b, bview s b)]\<rparr>"
  have x: "bdev x = 1" "blockno x = b" "valid x" "busy x" "\<not> dirty x" "bnext x = bnext (bufs s ! i)"
    "bprev x = bprev (bufs s ! i)" "buf_ok t x"
    using h ok(1,2,5) by (auto simp: x_def holds_def buf_ok_def t_def)
  have t: "bufs t = (bufs s)[i := x]" by (simp add: t_def)
  have same: "disksize t = disksize s" "bcache_lock t = bcache_lock s" "bio_st.more t = bio_st.more s"
    by (simp_all add: t_def)
  have dt: "\<forall>c. c \<noteq> b \<longrightarrow> disk t c = disk s c" "length (disk t b) = BSIZE"
    using bview_length [OF inv ok(3)] by (simp_all add: t_def)
  note u = held_upd [OF inv h t x(1-3,6-8) same(1,2) dt]
  have "bwrite i s = Inr t"
    using h ok(2,3,5,6) by (simp add: bwrite_def iderw_def Let_def upd_buf_def holds_def t_def x_def not_le)
  moreover have "holds t j c" if "holds s j c" for j c using u(5,6) x(4) that h by (cases "j = i") (auto simp: holds_def)
  moreover have "bdata x = bview s b" using ok(5) by (simp add: x_def)
  moreover have "disk t = (disk s)(b := bview s b)" "history t = history s @ [(b, bview s b)]" by (simp_all add: t_def)
  ultimately show ?thesis using u(1-4) x(4,5) same by (intro exI [of _ t]) (simp add: bio_frame_def)
qed

lemma brelse_ok:
  fixes s :: "'a bio_st_scheme"
  assumes inv: "bio_inv s" and h: "holds s i b" and clean: "b \<in> pinned s \<or> bview s b = disk s b"
  shows "\<exists>t. brelse i s = Inr t \<and> bio_inv t \<and> bview t = bview s \<and> held t = held s - {b} \<and> pinned t = pinned s
     \<and> disk t = disk s \<and> history t = history s \<and> bio_frame s t \<and> (\<forall>j c. holds s j c \<and> c \<noteq> b \<longrightarrow> holds t j c)"
proof -
  note ok = holds_ok [OF inv h]
  have i: "i < NBUF" "busy (bufs s ! i)" using h by (simp_all add: holds_def)
  obtain xs where xs: "dll (bufs s) xs" using bio_invD(1) [OF inv] by blast
  then have "i \<in> set xs" using i by (simp add: dll_def)
  then obtain ys zs where "xs = ys @ i # zs" by (meson split_list)
  with xs have mf: "dll (move_front i (bufs s)) (i # ys @ zs)" by (simp add: move_front_dll)
  define r where "r = s\<lparr>bufs := move_front i (bufs s)\<rparr>"
  have rc: "bio_inv r" "bview r = bview s" "held r = held s" "pinned r = pinned s" "\<And>j c. holds s j c \<Longrightarrow> holds r j c"
    using same_content [of r s "i # ys @ zs"] mf inv move_front_content by (auto simp: r_def)
  define x where "x = (bufs r ! i)\<lparr>bflags := bflags (bufs r ! i) AND NOT B_BUSY\<rparr>"
  define t where "t = s\<lparr>bufs := (bufs r)[i := x], wakes := wakes s @ [(''buf'', i)]\<rparr>"
  note okr = holds_ok [OF rc(1) rc(5) [OF h]]
  have pb: "dirty (bufs r ! i) \<longleftrightarrow> b \<in> pinned s" using dirty_pinned [OF rc(1) rc(5) [OF h]] rc(4) by simp
  have x: "bdev x = 1" "blockno x = b" "valid x" "\<not> busy x" "dirty x \<longleftrightarrow> b \<in> pinned s" "bnext x = bnext (bufs r ! i)"
    "bprev x = bprev (bufs r ! i)" "buf_ok t x"
    using rc(5) [OF h] okr(1,2,5) pb clean rc(2) by (auto simp: x_def holds_def buf_ok_def t_def r_def)
  have t: "bufs t = (bufs r)[i := x]" by (simp add: t_def)
  have same: "disksize t = disksize r" "bcache_lock t = bcache_lock r" "bio_st.more t = bio_st.more s"
    by (simp_all add: t_def r_def)
  have dt: "\<forall>c. c \<noteq> b \<longrightarrow> disk t c = disk r c" "length (disk t b) = BSIZE"
    using bio_invD(6) [OF inv ok(3)] by (simp_all add: t_def r_def)
  note u = held_upd [OF rc(1) rc(5) [OF h] t x(1-3,6-8) same(1,2) dt]
  have "s\<lparr>bufs := bs, wakes := w, bcache_lock := False\<rparr> = s\<lparr>bufs := bs, wakes := w\<rparr>" for bs w
    using bio_invD(2) [OF inv] by (cases s) simp
  then have "brelse i s = Inr t"
    using i(2) bio_invD(2) [OF inv]
    by (simp add: brelse_def bcache_acquire_def bcache_release_def Let_def upd_buf_def wakeup_chan_def t_def x_def r_def)
  moreover have "holds t j c" if "holds s j c" "c \<noteq> b" for j c
    using u(5) [OF rc(5) [OF that(1)]] that h by (auto simp: holds_def)
  moreover have "bdata x = bview s b" using okr(5) rc(2) by (simp add: x_def)
  moreover have "pinned t = pinned s" using u(4) x(5) rc(4) by (auto split: if_splits)
  moreover have "disk t = disk s" "history t = history s" "bio_frame s t" using same by (simp_all add: t_def r_def bio_frame_def)
  ultimately show ?thesis using u(1-3) x(4) rc(2,3) by (intro exI [of _ t]) simp
qed


section \<open>The interface\<close>

text \<open>
  A cache of blocks, as the log and the file system use it. \<open>rd\<close> gives a held block, \<open>put\<close>
  changes the held copy, \<open>wr\<close> writes it through, \<open>rl\<close> gives it back. \<open>view\<close> is the current
  contents of the blocks, \<open>dsk\<close> what a crash would leave, \<open>hist\<close> the writes so far. Blocks that
  are \<open>pinned\<close> have changes that are not on disk; at most \<open>cap\<close> blocks are held or pinned.
\<close>

locale block_cache =
  fixes rd :: "u32 \<Rightarrow> 's \<Rightarrow> (nat \<times> 's) res"
    and wr rl :: "nat \<Rightarrow> 's \<Rightarrow> 's res"
    and put :: "nat \<Rightarrow> u8 list \<Rightarrow> 's \<Rightarrow> 's"
    and dat :: "'s \<Rightarrow> nat \<Rightarrow> u8 list"
    and inv :: "'s \<Rightarrow> bool"
    and view dsk :: "'s \<Rightarrow> u32 \<Rightarrow> u8 list"
    and hist :: "'s \<Rightarrow> (u32 \<times> u8 list) list"
    and hld pin :: "'s \<Rightarrow> u32 set"
    and sz :: "'s \<Rightarrow> u32"
    and own :: "'s \<Rightarrow> nat \<Rightarrow> u32 \<Rightarrow> bool"
    and frame :: "'s \<Rightarrow> 's \<Rightarrow> bool"
    and cap :: nat and bsize :: nat
  assumes rd_law: "inv s \<Longrightarrow> b < sz s \<Longrightarrow> b \<notin> hld s \<Longrightarrow> b \<in> pin s \<or> card (hld s \<union> pin s) < cap \<Longrightarrow>
      \<exists>i t. rd b s = Inr (i, t) \<and> inv t \<and> own t i b \<and> (\<forall>j c. own s j c \<longrightarrow> own t j c)
        \<and> hld t = insert b (hld s) \<and> pin t = pin s \<and> view t = view s \<and> dsk t = dsk s \<and> hist t = hist s \<and> frame s t"
    and wr_law: "inv s \<Longrightarrow> own s i b \<Longrightarrow>
      \<exists>t. wr i s = Inr t \<and> inv t \<and> view t = view s \<and> hld t = hld s \<and> pin t = pin s - {b}
        \<and> dsk t = (dsk s)(b := view s b) \<and> hist t = hist s @ [(b, view s b)] \<and> frame s t
        \<and> (\<forall>j c. own s j c \<longrightarrow> own t j c)"
    and rl_law: "inv s \<Longrightarrow> own s i b \<Longrightarrow> b \<in> pin s \<or> view s b = dsk s b \<Longrightarrow>
      \<exists>t. rl i s = Inr t \<and> inv t \<and> view t = view s \<and> hld t = hld s - {b} \<and> pin t = pin s
        \<and> dsk t = dsk s \<and> hist t = hist s \<and> frame s t \<and> (\<forall>j c. own s j c \<and> c \<noteq> b \<longrightarrow> own t j c)"
    and put_law: "inv s \<Longrightarrow> own s i b \<Longrightarrow> length d = bsize \<Longrightarrow>
      inv (put i d s) \<and> view (put i d s) = (view s)(b := d) \<and> hld (put i d s) = hld s \<and> pin (put i d s) = pin s
        \<and> dsk (put i d s) = dsk s \<and> hist (put i d s) = hist s \<and> frame s (put i d s)
        \<and> (\<forall>j c. own s j c \<longrightarrow> own (put i d s) j c)"
    and dat_law: "inv s \<Longrightarrow> own s i b \<Longrightarrow> dat s i = view s b"
    and view_clean: "inv s \<Longrightarrow> b \<notin> hld s \<Longrightarrow> b \<notin> pin s \<Longrightarrow> view s b = dsk s b"
    and view_size: "inv s \<Longrightarrow> b < sz s \<Longrightarrow> length (view s b) = bsize"
    and frame_sz: "frame s t \<Longrightarrow> sz t = sz s"
    and frame_trans: "frame s t \<Longrightarrow> frame t u \<Longrightarrow> frame s u"
    and pin_finite: "finite (pin s)"
begin

text \<open>What a completed operation leaves: nothing held, the given views, disk and writes.\<close>

definition after :: "'s \<Rightarrow> 's \<Rightarrow> (u32 \<Rightarrow> u8 list) \<Rightarrow> u32 set \<Rightarrow> (u32 \<Rightarrow> u8 list) \<Rightarrow> (u32 \<times> u8 list) list \<Rightarrow> bool" where
  "after s t v p d h \<longleftrightarrow> inv t \<and> hld t = {} \<and> view t = v \<and> pin t = p \<and> dsk t = d \<and> hist t = hist s @ h \<and> frame s t"

text \<open>Reading a block and giving it back.\<close>

lemma read_block:
  assumes "inv s" "hld s = {}" "b < sz s" "b \<in> pin s \<or> card (pin s) < cap"
  shows "\<exists>i t u. rd b s = Inr (i, t) \<and> dat t i = view s b \<and> rl i t = Inr u \<and> after s u (view s) (pin s) (dsk s) []
     \<and> frame s t"
proof -
  obtain i t where t: "rd b s = Inr (i, t)" "inv t" "own t i b" "hld t = insert b (hld s)" "pin t = pin s" "view t = view s"
    "dsk t = dsk s" "hist t = hist s" "frame s t"
    using rd_law [OF assms(1,3)] assms(2,4) by auto
  have "b \<in> pin t \<or> view t b = dsk t b" using view_clean [OF assms(1), of b] assms(2) t(5-7) by auto
  then obtain u where u: "rl i t = Inr u" "inv u" "view u = view t" "hld u = hld t - {b}" "pin u = pin t" "dsk u = dsk t"
    "hist u = hist t" "frame t u"
    using rl_law [OF t(2,3)] by blast
  have "after s u (view s) (pin s) (dsk s) []"
    using t(4-8) u(2-7) assms(2) frame_trans [OF t(9) u(8)] by (simp add: after_def)
  moreover have "dat t i = view s b" using dat_law [OF t(2,3)] t(6) by simp
  ultimately show ?thesis using t(1,9) u(1) by blast
qed

text \<open>Replacing a block, computed from its old contents, and writing it through.\<close>

lemma rewrite_block:
  assumes "inv s" "hld s = {}" "b < sz s" "b \<in> pin s \<or> card (pin s) < cap" "\<And>d. length d = bsize \<Longrightarrow> length (f d) = bsize"
  shows "\<exists>i t u w. rd b s = Inr (i, t) \<and> dat t i = view s b \<and> frame s t \<and> wr i (put i (f (view s b)) t) = Inr u \<and> rl i u = Inr w
     \<and> after s w ((view s)(b := f (view s b))) (pin s - {b}) ((dsk s)(b := f (view s b))) [(b, f (view s b))]"
proof -
  obtain i t where t: "rd b s = Inr (i, t)" "inv t" "own t i b" "hld t = {b}" "pin t = pin s" "view t = view s"
    "dsk t = dsk s" "hist t = hist s" "frame s t"
    using rd_law [OF assms(1,3)] assms(2,4) by auto
  define p where "p = put i (f (view s b)) t"
  have p: "inv p" "view p = (view s)(b := f (view s b))" "hld p = {b}" "pin p = pin s" "dsk p = dsk s" "hist p = hist s"
    "frame t p" "own p i b"
    using put_law [OF t(2,3) assms(5) [OF view_size [OF assms(1,3)]]] t by (auto simp: p_def)
  obtain u where u: "wr i p = Inr u" "inv u" "view u = view p" "hld u = hld p" "pin u = pin p - {b}"
    "dsk u = (dsk p)(b := view p b)" "hist u = hist p @ [(b, view p b)]" "frame p u" "own u i b"
    using wr_law [OF p(1,8)] p(8) by blast
  have "b \<in> pin u \<or> view u b = dsk u b" using u p by simp
  then obtain w where w: "rl i u = Inr w" "inv w" "view w = view u" "hld w = hld u - {b}" "pin w = pin u" "dsk w = dsk u"
    "hist w = hist u" "frame u w"
    using rl_law [OF u(2,9)] by blast
  have "frame s w" using frame_trans [OF frame_trans [OF t(9) p(7)] frame_trans [OF u(8) w(8)]] .
  then have "after s w ((view s)(b := f (view s b))) (pin s - {b}) ((dsk s)(b := f (view s b))) [(b, f (view s b))]"
    using p(2-6) u(3-7) w(2-7) by (simp add: after_def)
  moreover have "dat t i = view s b" using dat_law [OF t(2,3)] t(6) by simp
  ultimately show ?thesis using t(1,9) u(1) w(1) unfolding p_def by blast
qed

text \<open>
  Copying block \<open>a\<close> to block \<open>c\<close> on disk, in the two orders the log uses: the destination read
  first and released last, or the source first.
\<close>

lemma copy_dst_first:
  assumes "inv s" "hld s = {}" "a < sz s" "c < sz s" "a \<noteq> c"
    and "c \<in> pin s \<or> card (pin s) < cap" "a \<in> pin s \<or> card (insert c (pin s)) < cap"
  shows "\<exists>i t j u w x y. rd c s = Inr (i, t) \<and> frame s t \<and> rd a t = Inr (j, u) \<and> wr i (put i (dat u j) u) = Inr w
     \<and> rl j w = Inr x \<and> rl i x = Inr y
     \<and> after s y ((view s)(c := view s a)) (pin s - {c}) ((dsk s)(c := view s a)) [(c, view s a)]"
proof -
  obtain i t where t: "rd c s = Inr (i, t)" "inv t" "own t i c" "hld t = {c}" "pin t = pin s" "view t = view s"
    "dsk t = dsk s" "hist t = hist s" "frame s t"
    using rd_law [OF assms(1,4)] assms(2,6) by auto
  obtain j u where u: "rd a t = Inr (j, u)" "inv u" "own u j a" "own u i c" "hld u = {a, c}" "pin u = pin s" "view u = view s"
    "dsk u = dsk s" "hist u = hist s" "frame t u"
    using rd_law [OF t(2), of a] t assms(3,5,7) frame_sz [OF t(9)] by auto
  have d: "dat u j = view s a" "length (view s a) = bsize"
    using dat_law [OF u(2,3)] u(7) view_size [OF assms(1,3)] by simp_all
  define p where "p = put i (dat u j) u"
  have p: "inv p" "view p = (view s)(c := view s a)" "hld p = {a, c}" "pin p = pin s" "dsk p = dsk s" "hist p = hist s"
    "frame u p" "own p i c" "own p j a"
    using put_law [OF u(2,4) d(2)] u d by (auto simp: p_def)
  obtain w where w: "wr i p = Inr w" "inv w" "view w = view p" "hld w = hld p" "pin w = pin s - {c}"
    "dsk w = (dsk s)(c := view s a)" "hist w = hist s @ [(c, view s a)]" "frame p w" "own w i c" "own w j a"
    using wr_law [OF p(1,8)] p by auto
  have "a \<in> pin w \<or> view w a = dsk w a"
    using w(3,5,6) p(2) assms(5) view_clean [OF assms(1), of a] assms(2) by auto
  then obtain x where x: "rl j w = Inr x" "inv x" "view x = view w" "hld x = {c}" "pin x = pin w" "dsk x = dsk w"
    "hist x = hist w" "frame w x" "own x i c"
    using rl_law [OF w(2,10)] w(4,9) p(3) assms(5) by auto
  have "c \<in> pin x \<or> view x c = dsk x c" using x w p by simp
  then obtain y where y: "rl i x = Inr y" "inv y" "view y = view x" "hld y = hld x - {c}" "pin y = pin x" "dsk y = dsk x"
    "hist y = hist x" "frame x y"
    using rl_law [OF x(2,9)] by blast
  have "frame s y"
    using frame_trans [OF frame_trans [OF t(9) u(10)] frame_trans [OF frame_trans [OF p(7) w(8)] frame_trans [OF x(8) y(8)]]] .
  then have "after s y ((view s)(c := view s a)) (pin s - {c}) ((dsk s)(c := view s a)) [(c, view s a)]"
    using p(2) w(3,5-7) x(3-7) y(2-7) by (simp add: after_def)
  then show ?thesis using t(1,9) u(1) w(1) x(1) y(1) unfolding p_def by blast
qed

lemma copy_src_first:
  assumes "inv s" "hld s = {}" "a < sz s" "c < sz s" "a \<noteq> c"
    and "a \<in> pin s \<or> card (pin s) < cap" "c \<in> pin s \<or> card (insert a (pin s)) < cap"
  shows "\<exists>i t j u w x y. rd a s = Inr (i, t) \<and> frame s t \<and> rd c t = Inr (j, u) \<and> wr j (put j (dat u i) u) = Inr w
     \<and> rl i w = Inr x \<and> rl j x = Inr y
     \<and> after s y ((view s)(c := view s a)) (pin s - {c}) ((dsk s)(c := view s a)) [(c, view s a)]"
proof -
  obtain i t where t: "rd a s = Inr (i, t)" "inv t" "own t i a" "hld t = {a}" "pin t = pin s" "view t = view s"
    "dsk t = dsk s" "hist t = hist s" "frame s t"
    using rd_law [OF assms(1,3)] assms(2,6) by auto
  obtain j u where u: "rd c t = Inr (j, u)" "inv u" "own u j c" "own u i a" "hld u = {c, a}" "pin u = pin s" "view u = view s"
    "dsk u = dsk s" "hist u = hist s" "frame t u"
    using rd_law [OF t(2), of c] t assms(4,5,7) frame_sz [OF t(9)] by auto
  have d: "dat u i = view s a" "length (view s a) = bsize"
    using dat_law [OF u(2,4)] u(7) view_size [OF assms(1,3)] by simp_all
  define p where "p = put j (dat u i) u"
  have p: "inv p" "view p = (view s)(c := view s a)" "hld p = {c, a}" "pin p = pin s" "dsk p = dsk s" "hist p = hist s"
    "frame u p" "own p j c" "own p i a"
    using put_law [OF u(2,3) d(2)] u d by (auto simp: p_def)
  obtain w where w: "wr j p = Inr w" "inv w" "view w = view p" "hld w = hld p" "pin w = pin s - {c}"
    "dsk w = (dsk s)(c := view s a)" "hist w = hist s @ [(c, view s a)]" "frame p w" "own w j c" "own w i a"
    using wr_law [OF p(1,8)] p by auto
  have "a \<in> pin w \<or> view w a = dsk w a"
    using w(3,5,6) p(2) assms(5) view_clean [OF assms(1), of a] assms(2) by auto
  then obtain x where x: "rl i w = Inr x" "inv x" "view x = view w" "hld x = hld w - {a}" "pin x = pin w" "dsk x = dsk w"
    "hist x = hist w" "frame w x" "own x j c"
    using rl_law [OF w(2,10)] w(9) assms(5) by auto
  have "c \<in> pin x \<or> view x c = dsk x c" using x w p by simp
  then obtain y where y: "rl j x = Inr y" "inv y" "view y = view x" "hld y = hld x - {c}" "pin y = pin x" "dsk y = dsk x"
    "hist y = hist x" "frame x y"
    using rl_law [OF x(2,9)] by blast
  have "frame s y"
    using frame_trans [OF frame_trans [OF t(9) u(10)] frame_trans [OF frame_trans [OF p(7) w(8)] frame_trans [OF x(8) y(8)]]] .
  then have "after s y ((view s)(c := view s a)) (pin s - {c}) ((dsk s)(c := view s a)) [(c, view s a)]"
    using p(2,3) w(3-7) x(3-7) y(2-7) by (auto simp: after_def)
  then show ?thesis using t(1,9) u(1) w(1) x(1) y(1) unfolding p_def by blast
qed

end

interpretation bcache: block_cache "bread 1" bwrite brelse set_data "\<lambda>s i. bdata (bufs s ! i)" bio_inv bview disk history
  held pinned disksize holds bio_frame NBUF BSIZE
  by unfold_locales
    (fact bread_ok, fact bwrite_ok, fact brelse_ok, fact set_data_ok, fact holds_ok(5), fact bview_disk, fact bview_length,
     simp_all add: bio_frame_def pinned_def)

end
