(* ===== verification/Log.thy ===== *)
theory Log
  imports Bio
begin

text \<open>
  The write-ahead log of \<open>src/log.c\<close>, on the buffer cache. Of \<open>src/fs.c\<close> it uses \<open>readsb\<close>. The
  in-memory header \<open>log.lh\<close> is the pair of fields \<open>lh_n\<close> and \<open>lh_block\<close>; an index past its array
  is a \<open>Fault\<close>.
\<close>

section \<open>Definitions\<close>

definition MAXOPBLOCKS :: nat where "MAXOPBLOCKS = 10"
definition LOGSIZE :: nat where "LOGSIZE = MAXOPBLOCKS * 3"

text \<open>The little-endian words of a block.\<close>

definition word_at :: "u8 list \<Rightarrow> nat \<Rightarrow> u32" where
  "word_at d k = u32_of_bytes (d ! (4 * k)) (d ! (4 * k + 1)) (d ! (4 * k + 2)) (d ! (4 * k + 3))"

definition set_word :: "u8 list \<Rightarrow> nat \<Rightarrow> u32 \<Rightarrow> u8 list" where
  "set_word d k v = take (4 * k) d @ bytes_of_u32 v @ drop (4 * k + 4) d"

record superblock =
  sb_size :: u32
  sb_nblocks :: u32
  sb_ninodes :: u32
  sb_nlog :: u32
  sb_logstart :: u32
  sb_inodestart :: u32
  sb_bmapstart :: u32

definition superblock_of :: "u8 list \<Rightarrow> superblock" where
  "superblock_of d = \<lparr>sb_size = word_at d 0, sb_nblocks = word_at d 1, sb_ninodes = word_at d 2, sb_nlog = word_at d 3,
     sb_logstart = word_at d 4, sb_inodestart = word_at d 5, sb_bmapstart = word_at d 6\<rparr>"

definition readsb :: "u32 \<Rightarrow> 'a bio_st_scheme \<Rightarrow> (superblock \<times> 'a bio_st_scheme) res" where
  "readsb dev s =
     bind_res (bread dev 1 s) (\<lambda>(bp, s).
     let sb = superblock_of (bdata (bufs s ! bp)) in
     bind_res (brelse bp s) (\<lambda>s. Inr (sb, s)))"

record log_st = bio_st +
  log_lock :: bool
  lstart :: i32
  lsize :: i32
  outstanding :: i32
  committing :: i32
  ldev :: i32
  lh_n :: i32
  lh_block :: "i32 list"

definition log_acquire :: "'a log_st_scheme \<Rightarrow> 'a log_st_scheme res" where
  "log_acquire s = bind_res (lock_acquire (log_lock s)) (\<lambda>l. Inr (s\<lparr>log_lock := l\<rparr>))"

definition log_release :: "'a log_st_scheme \<Rightarrow> 'a log_st_scheme res" where
  "log_release s = bind_res (lock_release (log_lock s)) (\<lambda>l. Inr (s\<lparr>log_lock := l\<rparr>))"

definition install_step :: "nat \<Rightarrow> 'a log_st_scheme \<Rightarrow> 'a log_st_scheme res" where
  "install_step tail s =
     bind_res (bread (ldev s) (lstart s + of_nat tail + 1) s) (\<lambda>(lbuf, s).
     if LOGSIZE \<le> tail then Inl (Fault ''log.lh.block'') else
     bind_res (bread (ldev s) (lh_block s ! tail) s) (\<lambda>(dbuf, s).
     let s = set_data dbuf (bdata (bufs s ! lbuf)) s in
     bind_res (bwrite dbuf s) (\<lambda>s.
     bind_res (brelse lbuf s) (\<lambda>s.
     brelse dbuf s))))"

definition install_trans :: "'a log_st_scheme \<Rightarrow> 'a log_st_scheme res" where
  "install_trans s = for_res [0..<nat (sint (lh_n s))] install_step s"

definition read_head_step :: "u8 list \<Rightarrow> nat \<Rightarrow> 'a log_st_scheme \<Rightarrow> 'a log_st_scheme res" where
  "read_head_step d i s =
     (if LOGSIZE \<le> i then Inl (Fault ''log.lh.block'')
      else Inr (s\<lparr>lh_block := (lh_block s)[i := word_at d (i + 1)]\<rparr>))"

definition read_head :: "'a log_st_scheme \<Rightarrow> 'a log_st_scheme res" where
  "read_head s =
     bind_res (bread (ldev s) (lstart s) s) (\<lambda>(buf, s).
     let d = bdata (bufs s ! buf); s = s\<lparr>lh_n := word_at d 0\<rparr> in
     bind_res (for_res [0..<nat (sint (lh_n s))] (read_head_step d) s) (\<lambda>s.
     brelse buf s))"

definition head_step :: "i32 list \<Rightarrow> nat \<Rightarrow> u8 list \<Rightarrow> u8 list res" where
  "head_step blk i d = (if LOGSIZE \<le> i then Inl (Fault ''log.lh.block'') else Inr (set_word d (i + 1) (blk ! i)))"

definition write_head :: "'a log_st_scheme \<Rightarrow> 'a log_st_scheme res" where
  "write_head s =
     bind_res (bread (ldev s) (lstart s) s) (\<lambda>(buf, s).
     let d = set_word (bdata (bufs s ! buf)) 0 (lh_n s) in
     bind_res (for_res [0..<nat (sint (lh_n s))] (head_step (lh_block s)) d) (\<lambda>d.
     bind_res (bwrite buf (set_data buf d s)) (\<lambda>s.
     brelse buf s)))"

definition recover_from_log :: "'a log_st_scheme \<Rightarrow> 'a log_st_scheme res" where
  "recover_from_log s =
     bind_res (read_head s) (\<lambda>s.
     bind_res (install_trans s) (\<lambda>s.
     write_head (s\<lparr>lh_n := 0\<rparr>)))"

definition initlog :: "i32 \<Rightarrow> 'a log_st_scheme \<Rightarrow> 'a log_st_scheme res" where
  "initlog dev s =
     (if BSIZE \<le> 4 + 4 * LOGSIZE then Inl (Panic ''initlog: too big logheader'')
      else
        (let s = s\<lparr>log_lock := False\<rparr> in
         bind_res (readsb dev s) (\<lambda>(sb, s).
         recover_from_log (s\<lparr>lstart := sb_logstart sb, lsize := sb_nlog sb, ldev := dev\<rparr>))))"

definition begin_op :: "'a log_st_scheme \<Rightarrow> 'a log_st_scheme res" where
  "begin_op s =
     bind_res (log_acquire s) (\<lambda>s.
     if committing s \<noteq> 0 then Inl Sleeps
     else if sint (lh_n s + (outstanding s + 1) * of_nat MAXOPBLOCKS) > int LOGSIZE then Inl Sleeps
     else log_release (s\<lparr>outstanding := outstanding s + 1\<rparr>))"

definition write_log_step :: "nat \<Rightarrow> 'a log_st_scheme \<Rightarrow> 'a log_st_scheme res" where
  "write_log_step tail s =
     bind_res (bread (ldev s) (lstart s + of_nat tail + 1) s) (\<lambda>(dst, s).
     if LOGSIZE \<le> tail then Inl (Fault ''log.lh.block'') else
     bind_res (bread (ldev s) (lh_block s ! tail) s) (\<lambda>(src, s).
     let s = set_data dst (bdata (bufs s ! src)) s in
     bind_res (bwrite dst s) (\<lambda>s.
     bind_res (brelse src s) (\<lambda>s.
     brelse dst s))))"

definition write_log :: "'a log_st_scheme \<Rightarrow> 'a log_st_scheme res" where
  "write_log s = for_res [0..<nat (sint (lh_n s))] write_log_step s"

definition commit :: "'a log_st_scheme \<Rightarrow> 'a log_st_scheme res" where
  "commit s =
     (if sint (lh_n s) > 0 then
        bind_res (write_log s) (\<lambda>s.
        bind_res (write_head s) (\<lambda>s.
        bind_res (install_trans s) (\<lambda>s.
        write_head (s\<lparr>lh_n := 0\<rparr>))))
      else Inr s)"

definition end_op :: "'a log_st_scheme \<Rightarrow> 'a log_st_scheme res" where
  "end_op s =
     bind_res (log_acquire s) (\<lambda>s.
     let s = s\<lparr>outstanding := outstanding s - 1\<rparr> in
     if committing s \<noteq> 0 then Inl (Panic ''log.committing'')
     else if outstanding s = 0 then
       bind_res (log_release (s\<lparr>committing := 1\<rparr>)) (\<lambda>s.
       bind_res (commit s) (\<lambda>s.
       bind_res (log_acquire s) (\<lambda>s.
       log_release (wakeup_chan ''log'' 0 (s\<lparr>committing := 0\<rparr>)))))
     else log_release (wakeup_chan ''log'' 0 s))"

text \<open>The loop of \<open>log_write\<close> that looks for the block in the log.\<close>

primrec absorb :: "i32 list \<Rightarrow> u32 \<Rightarrow> nat \<Rightarrow> nat \<Rightarrow> nat" where
  "absorb blk b i 0 = i"
| "absorb blk b i (Suc k) = (if blk ! i = b then i else absorb blk b (Suc i) k)"

definition log_write :: "nat \<Rightarrow> 'a log_st_scheme \<Rightarrow> 'a log_st_scheme res" where
  "log_write b s =
     (if sint (lh_n s) \<ge> int LOGSIZE \<or> sint (lh_n s) \<ge> sint (lsize s - 1) then Inl (Panic ''too big a transaction'')
      else if sint (outstanding s) < 1 then Inl (Panic ''log_write outside of trans'')
      else
        bind_res (log_acquire s) (\<lambda>s.
        let n = nat (sint (lh_n s));
          i = absorb (lh_block s) (blockno (bufs s ! b)) 0 n;
          s = s\<lparr>lh_block := (lh_block s)[i := blockno (bufs s ! b)]\<rparr>;
          s = (if i = n then s\<lparr>lh_n := lh_n s + 1\<rparr> else s);
          s = set_dirty b s
        in log_release s))"



section \<open>Blocks as words\<close>

lemma length_set_word [simp]: "4 * k + 4 \<le> length d \<Longrightarrow> length (set_word d k v) = length d"
  by (simp add: set_word_def bytes_of_u32_def)

lemma word_at_set_word:
  assumes "4 * k + 4 \<le> length d" "4 * j + 4 \<le> length d"
  shows "word_at (set_word d k v) j = (if j = k then v else word_at d j)"
proof -
  have len: "length (bytes_of_u32 v) = 4" by (simp add: bytes_of_u32_def)
  have nth: "set_word d k v ! i = (if 4 * k \<le> i \<and> i < 4 * k + 4 then bytes_of_u32 v ! (i - 4 * k) else d ! i)"
    if "i < length d" for i
    using that assms(1) len by (auto simp: set_word_def nth_append min_def)
  show ?thesis
  proof (cases "j = k")
    case True
    have "u32_of_bytes (bytes_of_u32 v ! 0) (bytes_of_u32 v ! 1) (bytes_of_u32 v ! 2) (bytes_of_u32 v ! 3) = v"
      by (simp add: bytes_of_u32_def u32_of_bytes_of_u32 numeral_2_eq_2 numeral_3_eq_3)
    then show ?thesis using True assms(2) by (simp add: word_at_def nth)
  next
    case False
    have "set_word d k v ! (4 * j + i) = d ! (4 * j + i)" if "i < 4" for i
    proof -
      have "\<not> (4 * k \<le> 4 * j + i \<and> 4 * j + i < 4 * k + 4)" using that False by presburger
      then show ?thesis using nth [of "4 * j + i"] that assms(2) by (simp only: if_False)
    qed
    from this [of 0] this [of 1] this [of 2] this [of 3] False show ?thesis by (simp add: word_at_def)
  qed
qed


section \<open>Writes\<close>

definition apply_writes :: "(u32 \<Rightarrow> 'd) \<Rightarrow> (u32 \<times> 'd) list \<Rightarrow> u32 \<Rightarrow> 'd" where
  "apply_writes D ws = fold (\<lambda>(b, d) D. D(b := d)) ws D"

lemma apply_writes_simps [simp]:
  "apply_writes D [] = D" "apply_writes D ((b, d) # ws) = apply_writes (D(b := d)) ws"
  "apply_writes D (ws @ ws') = apply_writes (apply_writes D ws) ws'"
  by (simp_all add: apply_writes_def)

lemma apply_writes_fun:
  assumes "\<And>b d. (b, d) \<in> set ws \<Longrightarrow> d = v b"
  shows "apply_writes D ws b = (if b \<in> fst ` set ws then v b else D b)"
  using assms
proof (induction ws arbitrary: D)
  case (Cons w ws)
  obtain c d where w: "w = (c, d)" by (cases w)
  have "apply_writes (D(c := d)) ws b = (if b \<in> fst ` set ws then v b else (D(c := d)) b)"
    using Cons.prems by (intro Cons.IH) auto
  moreover have "d = v c" using Cons.prems w by auto
  ultimately show ?case by (auto simp: w)
qed simp

lemma apply_writes_other: "b \<notin> fst ` set ws \<Longrightarrow> apply_writes D ws b = D b"
proof (induction ws arbitrary: D)
  case (Cons w ws)
  then show ?case by (cases w) auto
qed simp

text \<open>The blocks \<open>ws\<close> were written through the cache, and nothing is left held.\<close>

definition wrote :: "'a bio_st_scheme \<Rightarrow> 'a bio_st_scheme \<Rightarrow> (u32 \<times> u8 list) list \<Rightarrow> bool" where
  "wrote s t ws \<longleftrightarrow> bio_inv t \<and> held t = {} \<and> bview t = apply_writes (bview s) ws \<and> pinned t = pinned s - fst ` set ws
     \<and> disk t = apply_writes (disk s) ws \<and> history t = history s @ ws \<and> bio_frame s t"

lemma wrote_refl: "bio_inv s \<Longrightarrow> held s = {} \<Longrightarrow> wrote s s []"
  by (simp add: wrote_def bio_frame_def)

lemma wrote_trans: "wrote s t ws \<Longrightarrow> wrote t u ws' \<Longrightarrow> wrote s u (ws @ ws')"
  by (auto simp: wrote_def bio_frame_def)

lemma after_wrote:
  "bcache.after s t ((bview s)(b := d)) (pinned s - {b}) ((disk s)(b := d)) [(b, d)] \<Longrightarrow> wrote s t [(b, d)]"
  "bcache.after s t (bview s) (pinned s) (disk s) [] \<Longrightarrow> wrote s t []"
  by (simp_all add: bcache.after_def wrote_def)

lemma bio_log_update [simp]:
  "bio_inv (s\<lparr>log_lock := a\<rparr>) = bio_inv s" "bio_inv (s\<lparr>lh_n := n\<rparr>) = bio_inv s" "bio_inv (s\<lparr>lh_block := l\<rparr>) = bio_inv s"
  "bio_inv (s\<lparr>lstart := n\<rparr>) = bio_inv s" "bio_inv (s\<lparr>lsize := n\<rparr>) = bio_inv s" "bio_inv (s\<lparr>ldev := n\<rparr>) = bio_inv s"
  "bio_inv (s\<lparr>outstanding := n\<rparr>) = bio_inv s" "bio_inv (s\<lparr>committing := n\<rparr>) = bio_inv s"
  "held (s\<lparr>log_lock := a\<rparr>) = held s" "held (s\<lparr>lh_n := n\<rparr>) = held s" "held (s\<lparr>lh_block := l\<rparr>) = held s"
  "held (s\<lparr>lstart := n\<rparr>) = held s" "held (s\<lparr>lsize := n\<rparr>) = held s" "held (s\<lparr>ldev := n\<rparr>) = held s"
  "held (s\<lparr>outstanding := n\<rparr>) = held s" "held (s\<lparr>committing := n\<rparr>) = held s"
  "pinned (s\<lparr>log_lock := a\<rparr>) = pinned s" "pinned (s\<lparr>lh_n := n\<rparr>) = pinned s" "pinned (s\<lparr>lh_block := l\<rparr>) = pinned s"
  "pinned (s\<lparr>lstart := n\<rparr>) = pinned s" "pinned (s\<lparr>lsize := n\<rparr>) = pinned s" "pinned (s\<lparr>ldev := n\<rparr>) = pinned s"
  "pinned (s\<lparr>outstanding := n\<rparr>) = pinned s" "pinned (s\<lparr>committing := n\<rparr>) = pinned s"
  "bview (s\<lparr>log_lock := a\<rparr>) = bview s" "bview (s\<lparr>lh_n := n\<rparr>) = bview s" "bview (s\<lparr>lh_block := l\<rparr>) = bview s"
  "bview (s\<lparr>lstart := n\<rparr>) = bview s" "bview (s\<lparr>lsize := n\<rparr>) = bview s" "bview (s\<lparr>ldev := n\<rparr>) = bview s"
  "bview (s\<lparr>outstanding := n\<rparr>) = bview s" "bview (s\<lparr>committing := n\<rparr>) = bview s"
  by (simp_all add: bio_inv_def buf_ok_def held_def pinned_def bview_def cached_def fun_eq_iff split: option.split)

lemma bio_frame_log:
  fixes s t :: "'a log_st_scheme"
  assumes "bio_frame s t"
  shows "log_lock t = log_lock s" "lstart t = lstart s" "lsize t = lsize s" "outstanding t = outstanding s"
    "committing t = committing s" "ldev t = ldev s" "lh_n t = lh_n s" "lh_block t = lh_block s" "disksize t = disksize s"
    "log_st.more t = log_st.more s"
  using assms by (cases s; cases t; simp add: bio_frame_def)+



section \<open>The steps of a commit\<close>

text \<open>
  The layout a log relies on: device 1, the log area within the disk, the logged blocks outside
  the log area and within the disk.
\<close>

definition log_area :: "u32 \<Rightarrow> u32 set" where
  "log_area st = {st + of_nat i | i. i \<le> LOGSIZE}"

abbreviation slot :: "u32 \<Rightarrow> nat \<Rightarrow> u32" where
  "slot st i \<equiv> st + of_nat i + 1"

definition log_geom :: "'a log_st_scheme \<Rightarrow> bool" where
  "log_geom s \<longleftrightarrow> ldev s = 1 \<and> unat (lstart s) + LOGSIZE < unat (disksize s) \<and> length (lh_block s) = LOGSIZE"

definition homes_ok :: "'a log_st_scheme \<Rightarrow> nat \<Rightarrow> (nat \<Rightarrow> u32) \<Rightarrow> bool" where
  "homes_ok s n h \<longleftrightarrow> n \<le> LOGSIZE \<and> (\<forall>i < n. h i \<notin> log_area (lstart s) \<and> h i < disksize s)"

lemma slot_area: "i < LOGSIZE \<Longrightarrow> slot st i \<in> log_area st"
  by (auto simp: log_area_def intro!: exI [of _ "Suc i"])

lemma start_area: "st \<in> log_area st"
  by (auto simp: log_area_def intro!: exI [of _ 0])

lemma slot_less:
  assumes "unat st + LOGSIZE < unat (sz :: u32)" "i < LOGSIZE"
  shows "slot st i < sz" "unat (slot st i - st) = Suc i" "slot st i \<noteq> st"
proof -
  define k where "k = Suc i"
  have "k < 2 ^ 32" using assms(2) by (simp add: k_def LOGSIZE_def MAXOPBLOCKS_def)
  then have k: "unat (of_nat k :: u32) = k" by (simp add: unat_of_nat)
  have eq: "slot st i = st + of_nat k" by (simp add: k_def)
  show "unat (slot st i - st) = Suc i" unfolding eq using k by (simp add: k_def)
  then show "slot st i \<noteq> st" by auto
  have "unat (st + of_nat k) = unat st + k"
    using k assms unat_less_exp32 [of sz] by (subst unat_add_lem [THEN iffD1]) (auto simp: k_def)
  then show "slot st i < sz" unfolding eq using assms by (simp add: word_less_nat_alt k_def)
qed

lemma start_less: "unat st + LOGSIZE < unat (sz :: u32) \<Longrightarrow> st < sz"
  by (simp add: word_less_nat_alt)

lemma write_log_step_ok:
  fixes s :: "'a log_st_scheme"
  assumes inv: "bio_inv s" "held s = {}" and g: "log_geom s" and h: "homes_ok s n h" "h i = lh_block s ! i" "i < n"
    and pin: "card (pinned s) < NBUF" "h i \<in> pinned s" "slot (lstart s) i \<notin> pinned s"
  shows "\<exists>t. write_log_step i s = Inr t \<and> wrote s t [(slot (lstart s) i, bview s (h i))]"
proof -
  let ?l = "slot (lstart s) i"
  have i: "i < LOGSIZE" "unat (lstart s) + LOGSIZE < unat (disksize s)" "ldev s = 1" using h g by (auto simp: homes_ok_def log_geom_def)
  have l: "?l < disksize s" "h i < disksize s" "h i \<noteq> ?l"
    using slot_less(1) [OF i(2,1)] h slot_area [OF i(1)] by (auto simp: homes_ok_def)
  obtain a t b u w x y where r: "bread 1 ?l s = Inr (a, t)" "bio_frame s t" "bread 1 (h i) t = Inr (b, u)"
    "bwrite a (set_data a (bdata (bufs u ! b)) u) = Inr w" "brelse b w = Inr x" "brelse a x = Inr y"
    "bcache.after s y ((bview s)(?l := bview s (h i))) (pinned s - {?l}) ((disk s)(?l := bview s (h i))) [(?l, bview s (h i))]"
    using bcache.copy_dst_first [OF inv l(2,1,3)] pin by blast
  have "write_log_step i s = Inr y"
    using r(1-6) bio_frame_log(6,8) [OF r(2)] i h(2) by (simp add: write_log_step_def)
  with after_wrote(1) [OF r(7)] show ?thesis by blast
qed

lemma install_step_ok:
  fixes s :: "'a log_st_scheme"
  assumes inv: "bio_inv s" "held s = {}" and g: "log_geom s" and h: "homes_ok s n h" "h i = lh_block s ! i" "i < n"
    and pin: "card (pinned s) < NBUF" "h i \<in> pinned s \<or> card (pinned s) + 1 < NBUF"
  shows "\<exists>t. install_step i s = Inr t \<and> wrote s t [(h i, bview s (slot (lstart s) i))] \<and> card (pinned t) + 1 < NBUF"
proof -
  let ?l = "slot (lstart s) i"
  have i: "i < LOGSIZE" "unat (lstart s) + LOGSIZE < unat (disksize s)" "ldev s = 1" using h g by (auto simp: homes_ok_def log_geom_def)
  have l: "?l < disksize s" "h i < disksize s" "?l \<noteq> h i"
    using slot_less(1) [OF i(2,1)] h(1,3) slot_area [OF i(1), of "lstart s"] by (auto simp: homes_ok_def)
  have fin: "finite (pinned s)" by (rule bcache.pin_finite)
  have "h i \<in> pinned s \<or> card (insert ?l (pinned s)) < NBUF" using pin fin by (auto simp: card_insert_if)
  then obtain a t b u w x y where r: "bread 1 ?l s = Inr (a, t)" "bio_frame s t" "bread 1 (h i) t = Inr (b, u)"
    "bwrite b (set_data b (bdata (bufs u ! a)) u) = Inr w" "brelse a w = Inr x" "brelse b x = Inr y"
    "bcache.after s y ((bview s)(h i := bview s ?l)) (pinned s - {h i}) ((disk s)(h i := bview s ?l)) [(h i, bview s ?l)]"
    using bcache.copy_src_first [OF inv l] pin by blast
  have "install_step i s = Inr y"
    using r(1-6) bio_frame_log(6,8) [OF r(2)] i h(2) by (simp add: install_step_def)
  moreover have "pinned y = pinned s - {h i}" using r(7) by (simp add: bcache.after_def)
  moreover have "card (pinned s - {h i}) + 1 < NBUF"
  proof (cases "h i \<in> pinned s")
    case True
    then have "0 < card (pinned s)" using fin card_gt_0_iff by blast
    with True pin(1) show ?thesis by (simp add: card_Diff_singleton)
  next
    case False
    with pin(2) show ?thesis by simp
  qed
  ultimately show ?thesis using after_wrote(1) [OF r(7)] by auto
qed

text \<open>Facts that survive writes through the cache.\<close>

lemma wrote_facts:
  fixes s t :: "'a log_st_scheme"
  assumes "wrote s t ws"
  shows "bio_inv t" "held t = {}" "log_geom t = log_geom s" "homes_ok t n h = homes_ok s n h" "lstart t = lstart s"
    "lh_block t = lh_block s" "lh_n t = lh_n s" "pinned t = pinned s - fst ` set ws" "bview t = apply_writes (bview s) ws"
    "disk t = apply_writes (disk s) ws" "disksize t = disksize s"
  using assms bio_frame_log [of s t] by (auto simp: wrote_def log_geom_def homes_ok_def)

lemma wrote_log:
  fixes s t :: "'a log_st_scheme"
  assumes "wrote s t ws"
  shows "log_lock t = log_lock s" "committing t = committing s" "outstanding t = outstanding s" "lsize t = lsize s"
  using assms bio_frame_log [of s t] by (auto simp: wrote_def)

definition slot_writes :: "'a log_st_scheme \<Rightarrow> nat \<Rightarrow> (nat \<Rightarrow> u32) \<Rightarrow> (u32 \<times> u8 list) list" where
  "slot_writes s n h = map (\<lambda>i. (slot (lstart s) i, bview s (h i))) [0..<n]"

definition home_writes :: "(u32 \<Rightarrow> u8 list) \<Rightarrow> u32 \<Rightarrow> nat \<Rightarrow> (nat \<Rightarrow> u32) \<Rightarrow> (u32 \<times> u8 list) list" where
  "home_writes v st n h = map (\<lambda>i. (h i, v (slot st i))) [0..<n]"

lemma write_log_loop:
  fixes s :: "'a log_st_scheme"
  assumes inv: "bio_inv s" "held s = {}" and g: "log_geom s" and h: "homes_ok s n h" "\<And>i. i < n \<Longrightarrow> h i = lh_block s ! i"
    and pin: "card (pinned s) < NBUF" "\<And>i. i < n \<Longrightarrow> h i \<in> pinned s" "pinned s \<inter> log_area (lstart s) = {}"
    and k: "k \<le> n"
  shows "\<exists>t. for_res [0..<k] write_log_step s = Inr t \<and> wrote s t (slot_writes s k h)"
  using k
proof (induction k)
  case 0
  then show ?case using wrote_refl [OF inv] by (simp add: slot_writes_def)
next
  case (Suc k)
  then obtain t where t: "for_res [0..<k] write_log_step s = Inr t" "wrote s t (slot_writes s k h)" by auto
  note f = wrote_facts [OF t(2)]
  have kn: "k < n" "k < LOGSIZE" using Suc.prems h(1) by (auto simp: homes_ok_def)
  have area: "fst ` set (slot_writes s k h) \<subseteq> log_area (lstart s)"
    using slot_area kn(2) by (auto simp: slot_writes_def)
  then have pt: "pinned t = pinned s" using pin(3) unfolding f(8) by blast
  have hk: "h k \<notin> log_area (lstart s)" using h(1) kn(1) by (simp add: homes_ok_def)
  have view: "bview t (h k) = bview s (h k)"
    unfolding f(9) using area hk by (intro apply_writes_other) auto
  have "slot (lstart t) k \<notin> pinned t" using slot_area [OF kn(2), of "lstart s"] pin(3) by (auto simp: pt f(5))
  then obtain u where u: "write_log_step k t = Inr u" "wrote t u [(slot (lstart s) k, bview s (h k))]"
    using write_log_step_ok [OF f(1,2), of n h k] g h kn pin(1,2) view f by (auto simp: pt)
  have "wrote s u (slot_writes s k h @ [(slot (lstart s) k, bview s (h k))])" by (rule wrote_trans [OF t(2) u(2)])
  then show ?case using t(1) u(1) by (simp add: for_res_append slot_writes_def)
qed

lemma install_loop:
  fixes s :: "'a log_st_scheme"
  assumes inv: "bio_inv s" "held s = {}" and g: "log_geom s" and h: "homes_ok s n h" "\<And>i. i < n \<Longrightarrow> h i = lh_block s ! i"
    and pin: "card (pinned s) < NBUF" "0 < n \<Longrightarrow> h 0 \<in> pinned s \<or> card (pinned s) + 1 < NBUF"
    and k: "k \<le> n"
  shows "\<exists>t. for_res [0..<k] install_step s = Inr t \<and> wrote s t (home_writes (bview s) (lstart s) k h)
     \<and> card (pinned t) < NBUF \<and> (0 < k \<longrightarrow> card (pinned t) + 1 < NBUF)"
  using k
proof (induction k)
  case 0
  then show ?case using wrote_refl [OF inv] pin(1) by (simp add: home_writes_def)
next
  case (Suc k)
  then obtain t where t: "for_res [0..<k] install_step s = Inr t" "wrote s t (home_writes (bview s) (lstart s) k h)"
    "card (pinned t) < NBUF" "0 < k \<longrightarrow> card (pinned t) + 1 < NBUF" by auto
  note f = wrote_facts [OF t(2)]
  have kn: "k < n" "k < LOGSIZE" using Suc.prems h(1) by (auto simp: homes_ok_def)
  have "slot (lstart s) k \<notin> fst ` set (home_writes (bview s) (lstart s) k h)"
    using slot_area [OF kn(2), of "lstart s"] h(1) kn by (auto simp: home_writes_def homes_ok_def)
  then have view: "bview t (slot (lstart s) k) = bview s (slot (lstart s) k)" unfolding f(9) by (rule apply_writes_other)
  have "h k \<in> pinned t \<or> card (pinned t) + 1 < NBUF"
  proof (cases "k = 0")
    case True
    then have "pinned t = pinned s" using f(8) by (simp add: home_writes_def)
    with True pin(2) kn show ?thesis by simp
  qed (use t(4) in simp)
  then obtain u where u: "install_step k t = Inr u" "wrote t u [(h k, bview s (slot (lstart s) k))]" "card (pinned u) + 1 < NBUF"
    using install_step_ok [OF f(1,2), of n h k] g h kn view f t(3) by auto
  have "wrote s u (home_writes (bview s) (lstart s) k h @ [(h k, bview s (slot (lstart s) k))])" by (rule wrote_trans [OF t(2) u(2)])
  then show ?case using t(1) u(1,3) by (simp add: for_res_append home_writes_def)
qed


section \<open>The header\<close>

definition head_block :: "i32 \<Rightarrow> nat \<Rightarrow> i32 list \<Rightarrow> u8 list \<Rightarrow> u8 list" where
  "head_block v n blk d = fold (\<lambda>i d. set_word d (i + 1) (blk ! i)) [0..<n] (set_word d 0 v)"

lemma head_loop: "n \<le> LOGSIZE \<Longrightarrow> for_res [0..<n] (head_step blk) d = Inr (fold (\<lambda>i d. set_word d (i + 1) (blk ! i)) [0..<n] d)"
  by (induction n) (simp_all add: for_res_append head_step_def)

lemma head_block_words:
  assumes "length d = BSIZE" "n \<le> LOGSIZE"
  shows "length (head_block v n blk d) = BSIZE" "word_at (head_block v n blk d) 0 = v"
    "i < n \<Longrightarrow> word_at (head_block v n blk d) (i + 1) = blk ! i"
proof -
  have ls: "LOGSIZE = 30" "BSIZE = 512" by (simp_all add: LOGSIZE_def MAXOPBLOCKS_def BSIZE_def)
  have "length (head_block v n blk d) = BSIZE \<and> word_at (head_block v n blk d) 0 = v
      \<and> (\<forall>i < n. word_at (head_block v n blk d) (i + 1) = blk ! i)"
    using assms(2)
  proof (induction n)
    case 0
    then show ?case using assms(1) ls by (simp add: head_block_def word_at_set_word)
  next
    case (Suc n)
    have eq: "head_block v (Suc n) blk d = set_word (head_block v n blk d) (n + 1) (blk ! n)" by (simp add: head_block_def)
    show ?case using Suc ls by (auto simp: eq word_at_set_word less_Suc_eq)
  qed
  then show "length (head_block v n blk d) = BSIZE" "word_at (head_block v n blk d) 0 = v"
    "i < n \<Longrightarrow> word_at (head_block v n blk d) (i + 1) = blk ! i" by auto
qed

lemma write_head_ok:
  fixes s :: "'a log_st_scheme"
  assumes inv: "bio_inv s" "held s = {}" and g: "log_geom s" and n: "nat (sint (lh_n s)) = n" "n \<le> LOGSIZE"
    and pin: "card (pinned s) < NBUF"
  shows "\<exists>t. write_head s = Inr t
     \<and> wrote s t [(lstart s, head_block (lh_n s) n (lh_block s) (bview s (lstart s)))]"
proof -
  let ?f = "head_block (lh_n s) n (lh_block s)" and ?b = "lstart s"
  have b: "?b < disksize s" "ldev s = 1" using g start_less by (auto simp: log_geom_def)
  obtain i t u w where r: "bread 1 ?b s = Inr (i, t)" "bdata (bufs t ! i) = bview s ?b" "bio_frame s t"
    "bwrite i (set_data i (?f (bview s ?b)) t) = Inr u" "brelse i u = Inr w"
    "bcache.after s w ((bview s)(?b := ?f (bview s ?b))) (pinned s - {?b}) ((disk s)(?b := ?f (bview s ?b))) [(?b, ?f (bview s ?b))]"
    using bcache.rewrite_block [OF inv b(1), of ?f] pin head_block_words(1) [OF _ n(2)] by blast
  have "write_head s = Inr w"
    using r(1-5) bio_frame_log(7,8) [OF r(3)] b(2) n head_loop [OF n(2)]
    by (simp add: write_head_def head_block_def)
  with after_wrote(1) [OF r(6)] show ?thesis by blast
qed

lemma holds_log_update [simp]:
  "holds (s\<lparr>lh_n := n\<rparr>) i b = holds s i b" "holds (s\<lparr>lh_block := l\<rparr>) i b = holds s i b"
  by (simp_all add: holds_def)

lemma read_head_loop:
  "n \<le> LOGSIZE \<Longrightarrow> length (lh_block s) = LOGSIZE \<Longrightarrow>
   \<exists>l. for_res [0..<n] (read_head_step d) s = Inr (s\<lparr>lh_block := l\<rparr>) \<and> length l = LOGSIZE \<and> (\<forall>i < n. l ! i = word_at d (i + 1))"
proof (induction n)
  case 0
  then show ?case by (auto intro: exI [of _ "lh_block s"])
next
  case (Suc n)
  then obtain l where l: "for_res [0..<n] (read_head_step d) s = Inr (s\<lparr>lh_block := l\<rparr>)" "length l = LOGSIZE"
    "\<forall>i < n. l ! i = word_at d (i + 1)" by auto
  have "read_head_step d n (s\<lparr>lh_block := l\<rparr>) = Inr (s\<lparr>lh_block := l[n := word_at d (n + 1)]\<rparr>)"
    using Suc.prems(1) by (simp add: read_head_step_def)
  then show ?case using l Suc.prems
    by (intro exI [of _ "l[n := word_at d (n + 1)]"]) (auto simp: for_res_append nth_list_update less_Suc_eq)
qed

lemma read_head_ok:
  fixes s :: "'a log_st_scheme"
  assumes inv: "bio_inv s" "held s = {}" and g: "log_geom s" and pin: "card (pinned s) < NBUF"
    and v: "v = word_at (bview s (lstart s)) 0" "nat (sint v) = n" "n \<le> LOGSIZE"
  shows "\<exists>l t. read_head s = Inr t \<and> wrote (s\<lparr>lh_n := v, lh_block := l\<rparr>) t [] \<and> length l = LOGSIZE
     \<and> (\<forall>i < n. l ! i = word_at (bview s (lstart s)) (i + 1))"
proof -
  have b: "lstart s < disksize s" "ldev s = 1" using g start_less by (auto simp: log_geom_def)
  obtain i t where t: "bread 1 (lstart s) s = Inr (i, t)" "bio_inv t" "holds t i (lstart s)" "held t = {lstart s}"
    "pinned t = pinned s" "bview t = bview s" "disk t = disk s" "history t = history s" "bio_frame s t"
    using bread_ok [OF inv(1) b(1)] inv(2) pin by auto
  have d: "bdata (bufs t ! i) = bview s (lstart s)" using holds_ok(5) [OF t(2,3)] t(6) by simp
  note f = bio_frame_log [OF t(9)]
  have "length (lh_block (t\<lparr>lh_n := v\<rparr>)) = LOGSIZE" using f(8) g by (simp add: log_geom_def)
  from read_head_loop [OF v(3) this, of "bdata (bufs t ! i)"] obtain l where
    l: "for_res [0..<n] (read_head_step (bdata (bufs t ! i))) (t\<lparr>lh_n := v\<rparr>) = Inr (t\<lparr>lh_n := v, lh_block := l\<rparr>)"
      "length l = LOGSIZE" "\<forall>j < n. l ! j = word_at (bview s (lstart s)) (j + 1)"
    unfolding d by blast
  define t' where "t' = t\<lparr>lh_n := v, lh_block := l\<rparr>"
  have t': "bio_inv t'" "holds t' i (lstart s)" "lstart s \<in> pinned t' \<or> bview t' (lstart s) = disk t' (lstart s)"
    "held t' = {lstart s}"
    using t bview_disk [OF inv(1), of "lstart s"] inv(2) by (auto simp: t'_def)
  obtain u where u: "brelse i t' = Inr u" "bio_inv u" "bview u = bview t'" "held u = held t' - {lstart s}" "pinned u = pinned t'"
    "disk u = disk t'" "history u = history t'" "bio_frame t' u"
    using brelse_ok [OF t'(1-3)] by blast
  have "read_head s = Inr u"
    using t(1) b(2) l(1) u(1) v(1,2) d by (simp add: read_head_def Let_def t'_def)
  moreover have "bio_frame (s\<lparr>lh_n := v, lh_block := l\<rparr>) t'"
    using t(9) by (cases s; cases t) (simp add: bio_frame_def t'_def)
  then have "wrote (s\<lparr>lh_n := v, lh_block := l\<rparr>) u []"
    using u t t'(4) by (auto simp: wrote_def bio_frame_def t'_def)
  ultimately show ?thesis using l(2,3) by blast
qed


section \<open>Recovery and commit\<close>

lemma log_geom_update [simp]:
  "log_geom (s\<lparr>lh_n := n\<rparr>) = log_geom s" "log_geom (s\<lparr>log_lock := a\<rparr>) = log_geom s"
  "log_geom (s\<lparr>outstanding := n\<rparr>) = log_geom s" "log_geom (s\<lparr>committing := n\<rparr>) = log_geom s"
  "homes_ok (s\<lparr>lh_n := n\<rparr>) k h = homes_ok s k h" "homes_ok (s\<lparr>lh_block := l\<rparr>) k h = homes_ok s k h"
  "length l = LOGSIZE \<Longrightarrow> log_geom s \<Longrightarrow> log_geom (s\<lparr>lh_block := l\<rparr>)"
  by (simp_all add: log_geom_def homes_ok_def)

text \<open>What the header on disk \<open>D\<close> says.\<close>

abbreviation head_n :: "(u32 \<Rightarrow> u8 list) \<Rightarrow> u32 \<Rightarrow> nat" where
  "head_n D st \<equiv> nat (sint (word_at (D st) 0))"

abbreviation head_home :: "(u32 \<Rightarrow> u8 list) \<Rightarrow> u32 \<Rightarrow> nat \<Rightarrow> u32" where
  "head_home D st i \<equiv> word_at (D st) (i + 1)"

lemma clear_head_ok:
  fixes s :: "'a log_st_scheme"
  assumes "bio_inv s" "held s = {}" "log_geom s" "card (pinned s) < NBUF"
  shows "\<exists>t hd. write_head (s\<lparr>lh_n := 0\<rparr>) = Inr t \<and> wrote (s\<lparr>lh_n := 0\<rparr>) t [(lstart s, hd)] \<and> word_at hd 0 = 0
     \<and> length hd = BSIZE"
proof -
  have b: "lstart s < disksize s" using assms(3) start_less by (auto simp: log_geom_def)
  let ?s = "s\<lparr>lh_n := 0\<rparr>"
  have s0: "bio_inv ?s" "held ?s = {}" "log_geom ?s" "nat (sint (lh_n ?s)) = 0" "0 \<le> LOGSIZE" "card (pinned ?s) < NBUF"
    using assms by simp_all
  show ?thesis
    using write_head_ok [OF s0] head_block_words(1,2) [OF bview_length [OF assms(1) b], of 0 0 "lh_block s"] by auto
qed

lemma recover_ok:
  fixes s :: "'a log_st_scheme"
  assumes inv: "bio_inv s" "held s = {}" "pinned s = {}" and g: "log_geom s"
    and h: "homes_ok s (head_n (disk s) (lstart s)) (head_home (disk s) (lstart s))"
  shows "\<exists>t hd. recover_from_log s = Inr t \<and> bio_inv t \<and> held t = {} \<and> pinned t = {} \<and> log_geom t \<and> lh_n t = 0
     \<and> lstart t = lstart s \<and> word_at hd 0 = 0
     \<and> disk t = apply_writes (disk s) (home_writes (disk s) (lstart s) (head_n (disk s) (lstart s)) (head_home (disk s) (lstart s)) @ [(lstart s, hd)])"
proof -
  let ?n = "head_n (disk s) (lstart s)" and ?h = "head_home (disk s) (lstart s)"
  have cap: "card (pinned s) < NBUF" "card (pinned s) + 1 < NBUF" using inv(3) by (simp_all add: NBUF_def)
  have view: "bview s = disk s" using bview_disk [OF inv(1)] inv(2,3) by auto
  have n: "?n \<le> LOGSIZE" using h by (simp add: homes_ok_def)
  define v where "v = word_at (bview s (lstart s)) 0"
  obtain l t1 where t1: "read_head s = Inr t1" "wrote (s\<lparr>lh_n := v, lh_block := l\<rparr>) t1 []" "length l = LOGSIZE"
    "\<forall>i < ?n. l ! i = ?h i"
    using read_head_ok [OF inv(1,2) g cap(1) v_def refl] n view by (auto simp: v_def)
  note f1 = wrote_facts [OF t1(2)]
  have g1: "log_geom t1" "homes_ok t1 ?n ?h" using f1(3,4) g h t1(3) by simp_all
  have n1: "nat (sint (lh_n t1)) = ?n" using f1(7) view by (simp add: v_def)
  have h1: "?h i = lh_block t1 ! i" if "i < ?n" for i using f1(6) t1(4) that by simp
  have p1: "pinned t1 = {}" "lstart t1 = lstart s" "bview t1 = disk s" "disk t1 = disk s" using f1 inv(3) view by simp_all
  obtain t2 where t2: "install_trans t1 = Inr t2" "wrote t1 t2 (home_writes (disk s) (lstart s) ?n ?h)"
    using install_loop [OF f1(1,2) g1 h1, of ?n] p1 unfolding install_trans_def n1 by (auto simp: NBUF_def)
  note f2 = wrote_facts [OF t2(2)]
  have p2: "pinned t2 = {}" "lstart t2 = lstart s" "log_geom t2" using f2 p1 g1 by auto
  obtain t3 hd where t3: "write_head (t2\<lparr>lh_n := 0\<rparr>) = Inr t3" "wrote (t2\<lparr>lh_n := 0\<rparr>) t3 [(lstart s, hd)]" "word_at hd 0 = 0"
    using clear_head_ok [OF f2(1,2) p2(3)] p2 by (auto simp: NBUF_def)
  note f3 = wrote_facts [OF t3(2)]
  have "recover_from_log s = Inr t3" using t1(1) t2(1) t3(1) by (simp add: recover_from_log_def)
  moreover have "disk t3 = apply_writes (disk s) (home_writes (disk s) (lstart s) ?n ?h @ [(lstart s, hd)])"
    using f3(10) f2(10) p1(4) by simp
  ultimately show ?thesis using f3 p2 t3(3) by (intro exI [of _ t3] exI [of _ hd]) simp
qed

text \<open>A state between the last \<open>log_write\<close> of a transaction and its commit.\<close>

definition log_ready :: "'a log_st_scheme \<Rightarrow> nat \<Rightarrow> bool" where
  "log_ready s n \<longleftrightarrow> bio_inv s \<and> held s = {} \<and> log_geom s \<and> sint (lh_n s) = int n \<and> homes_ok s n (\<lambda>i. lh_block s ! i)
     \<and> pinned s = (\<lambda>i. lh_block s ! i) ` {..<n} \<and> card (pinned s) < NBUF \<and> head_n (disk s) (lstart s) = 0"

text \<open>The writes of a commit: the log, its header, the home blocks, the empty header.\<close>

definition commit_writes :: "'a log_st_scheme \<Rightarrow> nat \<Rightarrow> u8 list \<Rightarrow> u8 list \<Rightarrow> (u32 \<times> u8 list) list" where
  "commit_writes s n hd1 hd0 =
     slot_writes s n (\<lambda>i. lh_block s ! i) @ [(lstart s, hd1)] @ map (\<lambda>i. (lh_block s ! i, bview s (lh_block s ! i))) [0..<n]
     @ [(lstart s, hd0)]"

lemma slot_writes_view:
  assumes "log_geom s" "n \<le> LOGSIZE" "i < n"
  shows "apply_writes D (slot_writes s n h) (slot (lstart s) i) = bview s (h i)"
proof -
  let ?v = "\<lambda>b. bview s (h (unat (b - lstart s) - 1))"
  have sz: "unat (lstart s) + LOGSIZE < unat (disksize s)" using assms(1) by (simp add: log_geom_def)
  have v: "?v (slot (lstart s) j) = bview s (h j)" if "j < n" for j
    using slot_less(2) [OF sz, of j] that assms(2) by simp
  have "d = ?v b" if "(b, d) \<in> set (slot_writes s n h)" for b d
    using that v by (auto simp: slot_writes_def)
  then have "apply_writes D (slot_writes s n h) (slot (lstart s) i)
      = (if slot (lstart s) i \<in> fst ` set (slot_writes s n h) then ?v (slot (lstart s) i) else D (slot (lstart s) i))"
    by (rule apply_writes_fun)
  moreover have "slot (lstart s) i \<in> fst ` set (slot_writes s n h)"
    using assms(3) by (force simp: slot_writes_def image_iff)
  ultimately show ?thesis using v [OF assms(3)] by simp
qed

lemma commit_ok:
  fixes s :: "'a log_st_scheme"
  assumes r: "log_ready s n" and n: "0 < n"
  shows "\<exists>t hd1 hd0. commit s = Inr t \<and> bio_inv t \<and> held t = {} \<and> pinned t = {} \<and> log_geom t \<and> lh_n t = 0
     \<and> lstart t = lstart s \<and> disk t = apply_writes (disk s) (commit_writes s n hd1 hd0)
     \<and> bview t = apply_writes (bview s) (commit_writes s n hd1 hd0)
     \<and> history t = history s @ commit_writes s n hd1 hd0
     \<and> nat (sint (word_at hd1 0)) = n \<and> (\<forall>i < n. word_at hd1 (i + 1) = lh_block s ! i) \<and> word_at hd0 0 = 0
     \<and> length hd1 = BSIZE \<and> length hd0 = BSIZE
     \<and> log_lock t = log_lock s \<and> committing t = committing s \<and> outstanding t = outstanding s"
proof -
  let ?h = "\<lambda>i. lh_block s ! i" and ?st = "lstart s"
  have s: "bio_inv s" "held s = {}" "log_geom s" "homes_ok s n ?h" "card (pinned s) < NBUF" "nat (sint (lh_n s)) = n"
    "pinned s = ?h ` {..<n}"
    using r by (auto simp: log_ready_def)
  have nl: "n \<le> LOGSIZE" using s(4) by (simp add: homes_ok_def)
  have area: "pinned s \<inter> log_area ?st = {}" using s(4,7) by (auto simp: homes_ok_def)
  obtain t1 where t1: "write_log s = Inr t1" "wrote s t1 (slot_writes s n ?h)"
    using write_log_loop [OF s(1-4) refl s(5) _ area order.refl] s(7) unfolding write_log_def s(6) by auto
  note f1 = wrote_facts [OF t1(2)]
  have sub: "fst ` set (slot_writes s n ?h) \<subseteq> log_area ?st" using slot_area nl by (auto simp: slot_writes_def)
  have p1: "pinned t1 = pinned s" using area sub unfolding f1(8) by blast
  define hd1 where "hd1 = head_block (lh_n t1) n (lh_block t1) (bview t1 ?st)"
  obtain t2 where t2: "write_head t1 = Inr t2" "wrote t1 t2 [(?st, hd1)]"
    using write_head_ok [OF f1(1,2), of n] f1 s(3,5,6) nl p1 by (auto simp: hd1_def)
  have "?st < disksize t1" using s(3) start_less f1(11) by (auto simp: log_geom_def)
  note hw = head_block_words [OF bview_length [OF f1(1) this] nl, where v = "lh_n t1" and blk = "lh_block t1", folded hd1_def]
  note f2 = wrote_facts [OF t2(2)]
  have p2: "pinned t2 = pinned s" using f2(8) p1 area start_area [of ?st] by auto
  have b2: "bview t2 (slot ?st i) = bview s (?h i)" if "i < n" for i
  proof -
    have "slot ?st i \<noteq> ?st" using slot_less(3) [of ?st "disksize s" i] s(3) that nl by (auto simp: log_geom_def)
    then show ?thesis using slot_writes_view [OF s(3) nl that] by (simp add: f2(9) f1(9))
  qed
  have hom: "home_writes (bview t2) ?st n ?h = map (\<lambda>i. (?h i, bview s (?h i))) [0..<n]"
    using b2 by (simp add: home_writes_def)
  have h0: "0 < n \<Longrightarrow> ?h 0 \<in> pinned t2 \<or> card (pinned t2) + 1 < NBUF" using n p2 s(7) by auto
  have i2: "log_geom t2" "homes_ok t2 n ?h" "card (pinned t2) < NBUF" "nat (sint (lh_n t2)) = n" "lh_block t2 = lh_block s" "lstart t2 = ?st"
    using f1 f2 s p2 by simp_all
  obtain t3 where t3: "install_trans t2 = Inr t3" "wrote t2 t3 (map (\<lambda>i. (?h i, bview s (?h i))) [0..<n])"
    using install_loop [OF f2(1,2) i2(1,2) _ i2(3) h0 order.refl] i2(4-6) hom unfolding install_trans_def by auto
  note f3 = wrote_facts [OF t3(2)]
  have "fst ` set (map (\<lambda>i. (?h i, bview s (?h i))) [0..<n]) = pinned s" 
    by (simp add: s(7) image_image atLeast0LessThan)
  then have p3: "pinned t3 = {}" using f3(8) p2 by simp
  obtain t4 hd0 where t4: "write_head (t3\<lparr>lh_n := 0\<rparr>) = Inr t4" "wrote (t3\<lparr>lh_n := 0\<rparr>) t4 [(?st, hd0)]" "word_at hd0 0 = 0"
    "length hd0 = BSIZE"
  proof -
    have "log_geom t3" "card (pinned t3) < NBUF" "lstart t3 = ?st" using f3(3,5) i2(1,6) p3 by (simp_all add: NBUF_def)
    then show ?thesis using clear_head_ok [OF f3(1,2)] that by auto
  qed
  note f4 = wrote_facts [OF t4(2)]
  have "sint (lh_n s) > 0" using r n by (simp add: log_ready_def)
  then have "commit s = Inr t4" using t1(1) t2(1) t3(1) t4(1) by (simp add: commit_def)
  moreover have "disk t4 = apply_writes (disk s) (commit_writes s n hd1 hd0)"
    "bview t4 = apply_writes (bview s) (commit_writes s n hd1 hd0)"
    using f1(9,10) f2(9,10) f3(9,10) f4(9,10) by (simp_all add: commit_writes_def)
  moreover have "history t4 = history s @ commit_writes s n hd1 hd0"
    using t1(2) t2(2) t3(2) t4(2) by (simp add: wrote_def commit_writes_def)
  moreover have "nat (sint (word_at hd1 0)) = n" "\<forall>i < n. word_at hd1 (i + 1) = lh_block s ! i"
    using hw(2,3) f1(6,7) s(6) by simp_all
  moreover have "pinned t4 = {}" "log_geom t4" "lh_n t4 = 0" "lstart t4 = ?st"
    using f4(3,5,7,8) f3(3,5) i2(1,6) p3 by simp_all
  moreover have "log_lock t4 = log_lock s" "committing t4 = committing s" "outstanding t4 = outstanding s"
    using wrote_log [OF t1(2)] wrote_log [OF t2(2)] wrote_log [OF t3(2)] wrote_log [OF t4(2)] by simp_all
  ultimately show ?thesis using f4(1,2) t4(3,4) hw(1) by blast
qed


section \<open>Booting after a crash\<close>

text \<open>A machine that has just started: all static data zero, the disk as the crash left it.\<close>

definition zero_buf :: buf where
  "zero_buf = \<lparr>bflags = 0, bdev = 0, blockno = 0, bprev = 0, bnext = 0, bdata = replicate BSIZE 0\<rparr>"

definition boot :: "(u32 \<Rightarrow> u8 list) \<Rightarrow> u32 \<Rightarrow> log_st" where
  "boot D sz = binit \<lparr>bcache_lock = False, bufs = replicate (NBUF + 1) zero_buf, disk = D, disksize = sz, history = [],
     wakes = [], log_lock = False, lstart = 0, lsize = 0, outstanding = 0, committing = 0, ldev = 0, lh_n = 0,
     lh_block = replicate LOGSIZE 0\<rparr>"

lemma boot_facts:
  assumes "\<forall>b < sz. length (D b) = BSIZE"
  shows "bio_inv (boot D sz)" "held (boot D sz) = {}" "pinned (boot D sz) = {}" "disk (boot D sz) = D" "disksize (boot D sz) = sz"
    "length (lh_block (boot D sz)) = LOGSIZE" "log_lock (boot D sz) = False"
    "i < NBUF \<Longrightarrow> bdev (bufs (boot D sz) ! i) = - 1 \<and> bflags (bufs (boot D sz) ! i) = 0"
proof -
  define Z where "Z = replicate (NBUF + 1) zero_buf"
  have Z: "length Z = NBUF + 1" "i < NBUF + 1 \<Longrightarrow> Z ! i = zero_buf" for i
    unfolding Z_def by (simp_all only: length_replicate nth_replicate)
  define bs where "bs = Z[NBUF := (Z ! NBUF)\<lparr>bprev := NBUF, bnext := NBUF\<rparr>]"
  define cs where "cs = fold binit_step [0..<NBUF] bs"
  have bs: "length bs = NBUF + 1" "bnext (bs ! NBUF) = NBUF" "bprev (bs ! NBUF) = NBUF"
    "i < NBUF \<Longrightarrow> bs ! i = zero_buf" for i
    using Z(1) Z(2) [of i] by (simp_all add: bs_def)
  have c: "chain (nexts cs) (NBUF # rev [0..<NBUF] @ [NBUF])" "chain (prevs cs) (NBUF # [0..<NBUF] @ [NBUF])" "length cs = NBUF + 1"
    "\<forall>i < NBUF. bdev (cs ! i) = - 1 \<and> bflags (cs ! i) = bflags (bs ! i) \<and> bdata (cs ! i) = bdata (bs ! i)"
    using binit_chain [OF bs(1-3) order.refl] by (simp_all add: cs_def)
  have b: "bufs (boot D sz) = cs" "bcache_lock (boot D sz) = False"
    by (simp_all add: boot_def binit_def Let_def cs_def bs_def Z_def del: replicate_Suc)
  show d: "disk (boot D sz) = D" "disksize (boot D sz) = sz" "length (lh_block (boot D sz)) = LOGSIZE" "log_lock (boot D sz) = False"
    by (simp_all add: boot_def binit_def Let_def)
  have "dll cs (rev [0..<NBUF])" using c(1-3) by (auto simp: dll_def)
  moreover have i: "bdev (cs ! i) = - 1" "bflags (cs ! i) = 0" "length (bdata (cs ! i)) = BSIZE" if "i < NBUF" for i
    using c(4) bs(4) that by (simp_all add: zero_buf_def)
  ultimately show "bio_inv (boot D sz)"
    using assms b d unfolding bio_inv_def buf_ok_def by auto
  show "held (boot D sz) = {}" "pinned (boot D sz) = {}" using i by (auto simp: held_def pinned_def b(1))
  show "i < NBUF \<Longrightarrow> bdev (bufs (boot D sz) ! i) = - 1 \<and> bflags (bufs (boot D sz) ! i) = 0" using i b(1) by simp
qed

lemma initlog_ok:
  assumes D: "\<forall>b < sz. length (D b) = BSIZE" and sz: "unat st + LOGSIZE < unat sz" "1 < sz"
    and st: "sb_logstart (superblock_of (D 1)) = st"
    and h: "head_n D st \<le> LOGSIZE" "\<forall>i < head_n D st. head_home D st i \<notin> log_area st \<and> head_home D st i < sz"
  shows "\<exists>t hd. initlog 1 (boot D sz) = Inr t \<and> bio_inv t \<and> held t = {} \<and> pinned t = {} \<and> log_geom t \<and> lh_n t = 0
     \<and> lstart t = st \<and> word_at hd 0 = 0
     \<and> disk t = apply_writes D (home_writes D st (head_n D st) (head_home D st) @ [(st, hd)])"
proof -
  let ?s = "boot D sz"
  note f = boot_facts [OF D]
  have ls: "\<not> BSIZE \<le> 4 + 4 * LOGSIZE" by (simp add: BSIZE_def LOGSIZE_def MAXOPBLOCKS_def)
  have s0: "bio_inv (?s\<lparr>log_lock := False\<rparr>)" "held (?s\<lparr>log_lock := False\<rparr>) = {}" "pinned (?s\<lparr>log_lock := False\<rparr>) = {}"
    "bview (?s\<lparr>log_lock := False\<rparr>) = D"
    using f bview_disk [OF f(1)] by auto
  obtain i t u where t: "bread 1 1 (?s\<lparr>log_lock := False\<rparr>) = Inr (i, t)" "bdata (bufs t ! i) = D 1" "brelse i t = Inr u"
    "bcache.after (?s\<lparr>log_lock := False\<rparr>) u D {} D []"
    using bcache.read_block [OF s0(1,2), of 1] sz(2) s0 f(4,5) by (auto simp: NBUF_def)
  have u: "wrote (?s\<lparr>log_lock := False\<rparr>) u []" using after_wrote(2) t(4) s0(3,4) f(4) by (simp add: bcache.after_def wrote_def)
  note g = wrote_facts [OF u]
  define w where "w = u\<lparr>lstart := st, lsize := sb_nlog (superblock_of (D 1)), ldev := 1\<rparr>"
  have w: "bio_inv w" "held w = {}" "pinned w = {}" "disk w = D" "lstart w = st" "disksize w = sz" "log_geom w"
    using g f sz(1) by (auto simp: w_def log_geom_def)
  have hw: "homes_ok w (head_n (disk w) (lstart w)) (head_home (disk w) (lstart w))"
    using h by (simp add: homes_ok_def w)
  have "initlog 1 ?s = recover_from_log w"
    using t(1-3) ls st by (simp add: initlog_def readsb_def Let_def w_def)
  then show ?thesis using recover_ok [OF w(1-3,7) hw] unfolding w(4,5) by auto
qed


section \<open>Crash safety\<close>

text \<open>The disk when the power fails after \<open>k\<close> of the writes \<open>ws\<close>.\<close>

definition crash_disk :: "(u32 \<Rightarrow> u8 list) \<Rightarrow> (u32 \<times> u8 list) list \<Rightarrow> nat \<Rightarrow> u32 \<Rightarrow> u8 list" where
  "crash_disk D ws k = apply_writes D (take k ws)"

lemma apply_homes:
  "apply_writes D (map (\<lambda>i. (h i, v (h i))) is) b = (if b \<in> h ` set is then v b else D b)"
  by (subst apply_writes_fun [where v = v]) (auto simp: image_image)

lemma crash_disk_cases:
  assumes n: "length ws1 = n" "length ws2 = n"
  shows "crash_disk D (ws1 @ [w] @ ws2 @ [x]) k =
     (if k \<le> n then apply_writes D (take k ws1)
      else if k \<le> 2 * n + 1 then apply_writes D (ws1 @ [w] @ take (k - n - 1) ws2)
      else apply_writes D (ws1 @ [w] @ ws2 @ [x]))"
proof -
  consider "k \<le> n" | "n < k" "k \<le> 2 * n + 1" | "2 * n + 1 < k" by linarith
  then show ?thesis
  proof cases
    case 1
    then show ?thesis using n by (simp add: crash_disk_def)
  next
    case 2
    then have "take k (ws1 @ [w] @ ws2 @ [x]) = ws1 @ [w] @ take (k - n - 1) ws2"
      using n by (simp add: take_Cons')
    with 2 show ?thesis by (simp only: crash_disk_def) simp
  next
    case 3
    then have "take k (ws1 @ [w] @ ws2 @ [x]) = ws1 @ [w] @ ws2 @ [x]" using n by simp
    with 3 show ?thesis by (simp only: crash_disk_def) simp
  qed
qed

lemma apply_writes_length:
  "\<forall>b < sz. length (D b) = BSIZE \<Longrightarrow> \<forall>(b, d) \<in> set ws. length d = BSIZE \<Longrightarrow> \<forall>b < sz. length (apply_writes D ws b) = BSIZE"
proof (induction ws arbitrary: D)
  case (Cons w ws)
  then show ?case by (cases w) auto
qed simp

text \<open>The disk in the three phases of a commit.\<close>

lemma commit_areas:
  assumes "log_ready s n"
  shows "fst ` set (slot_writes s n (\<lambda>i. lh_block s ! i)) \<subseteq> log_area (lstart s)"
    "lstart s \<notin> fst ` set (slot_writes s n (\<lambda>i. lh_block s ! i))"
    "fst ` set (map (\<lambda>i. (lh_block s ! i, bview s (lh_block s ! i))) [0..<n]) = pinned s"
    "pinned s \<inter> log_area (lstart s) = {}"
proof -
  have s: "log_geom s" "homes_ok s n (\<lambda>i. lh_block s ! i)" "pinned s = (\<lambda>i. lh_block s ! i) ` {..<n}"
    using assms by (auto simp: log_ready_def)
  then have "n \<le> LOGSIZE" "unat (lstart s) + LOGSIZE < unat (disksize s)" by (auto simp: homes_ok_def log_geom_def)
  then show "fst ` set (slot_writes s n (\<lambda>i. lh_block s ! i)) \<subseteq> log_area (lstart s)"
    "lstart s \<notin> fst ` set (slot_writes s n (\<lambda>i. lh_block s ! i))"
    using slot_area slot_less(3) by (force simp: slot_writes_def)+
  show "fst ` set (map (\<lambda>i. (lh_block s ! i, bview s (lh_block s ! i))) [0..<n]) = pinned s"
    by (simp add: s(3) image_image atLeast0LessThan)
  show "pinned s \<inter> log_area (lstart s) = {}" using s by (auto simp: homes_ok_def)
qed

lemma crash_phases:
  assumes r: "log_ready s n" and D_def: "D = crash_disk (disk s) (commit_writes s n hd1 hd0) k"
  shows "k \<le> n \<Longrightarrow> D (lstart s) = disk s (lstart s) \<and> (\<forall>b. b \<notin> log_area (lstart s) \<longrightarrow> D b = disk s b)"
    "n < k \<Longrightarrow> k \<le> 2 * n + 1 \<Longrightarrow> D (lstart s) = hd1 \<and> (\<forall>i < n. D (slot (lstart s) i) = bview s (lh_block s ! i))
       \<and> (\<forall>b. b \<notin> log_area (lstart s) \<and> b \<notin> pinned s \<longrightarrow> D b = disk s b)"
    "2 * n + 1 < k \<Longrightarrow> D (lstart s) = hd0 \<and> (\<forall>b. b \<notin> log_area (lstart s) \<longrightarrow> D b = bview s b)"
proof -
  let ?h = "\<lambda>i. lh_block s ! i" and ?st = "lstart s"
  let ?W1 = "slot_writes s n ?h" and ?W2 = "map (\<lambda>i. (?h i, bview s (?h i))) [0..<n]"
  have s: "bio_inv s" "held s = {}" "log_geom s" "n \<le> LOGSIZE" "pinned s = ?h ` {..<n}"
    using r by (auto simp: log_ready_def homes_ok_def)
  note ar = commit_areas [OF r]
  have st: "?st \<in> log_area ?st" by (rule start_area)
  have split: "D = (if k \<le> n then apply_writes (disk s) (take k ?W1)
      else if k \<le> 2 * n + 1 then apply_writes (disk s) (?W1 @ [(?st, hd1)] @ take (k - n - 1) ?W2)
      else apply_writes (disk s) (?W1 @ [(?st, hd1)] @ ?W2 @ [(?st, hd0)]))"
    unfolding D_def commit_writes_def by (rule crash_disk_cases) (simp_all add: slot_writes_def)
  have W1: "apply_writes (disk s) ?W1 b = disk s b" if "b \<notin> log_area ?st" for b
    using that ar(1) by (intro apply_writes_other) auto
  show "D ?st = disk s ?st \<and> (\<forall>b. b \<notin> log_area ?st \<longrightarrow> D b = disk s b)" if "k \<le> n"
  proof -
    have t: "fst ` set (take k ?W1) \<subseteq> fst ` set ?W1" by (intro image_mono set_take_subset)
    have De: "D = apply_writes (disk s) (take k ?W1)" using that split by simp
    have "D b = disk s b" if "b \<notin> fst ` set ?W1" for b unfolding De using that t by (intro apply_writes_other) auto
    then show ?thesis using ar(1,2) by auto
  qed
  show "D ?st = hd1 \<and> (\<forall>i < n. D (slot ?st i) = bview s (?h i)) \<and> (\<forall>b. b \<notin> log_area ?st \<and> b \<notin> pinned s \<longrightarrow> D b = disk s b)"
    if "n < k" "k \<le> 2 * n + 1"
  proof -
    let ?T = "take (k - n - 1) ?W2"
    have "fst ` set ?T \<subseteq> pinned s" unfolding ar(3) [symmetric] by (intro image_mono set_take_subset)
    moreover have De: "D = apply_writes ((apply_writes (disk s) ?W1)(?st := hd1)) ?T" using that unfolding split by simp
    ultimately have off: "D b = ((apply_writes (disk s) ?W1)(?st := hd1)) b" if "b \<notin> pinned s" for b
      unfolding De using that by (intro apply_writes_other) auto
    have slots: "D (slot ?st i) = bview s (?h i)" if "i < n" for i
    proof -
      have "slot ?st i \<in> log_area ?st" "slot ?st i \<noteq> ?st"
        using slot_area slot_less(3) [of ?st "disksize s" i] s(3,4) that by (auto simp: log_geom_def)
      then show ?thesis using off [of "slot ?st i"] ar(4) slot_writes_view [OF s(3,4) that, of "disk s" ?h] by auto
    qed
    have "?st \<notin> pinned s" using st ar(4) by blast
    then have "D ?st = hd1" using off [of ?st] by simp
    with slots show ?thesis using off W1 st by auto
  qed
  show "D ?st = hd0 \<and> (\<forall>b. b \<notin> log_area ?st \<longrightarrow> D b = bview s b)" if "2 * n + 1 < k"
  proof -
    have De: "D = (apply_writes ((apply_writes (disk s) ?W1)(?st := hd1)) ?W2)(?st := hd0)" using that unfolding split by simp
    have "D b = bview s b" if "b \<notin> log_area ?st" for b
    proof -
      have "b \<noteq> ?st" using that st by auto
      then have "D b = (if b \<in> pinned s then bview s b else disk s b)"
        using apply_homes [of "(apply_writes (disk s) ?W1)(?st := hd1)" ?h "bview s" "[0..<n]" b] W1 [OF that]
        by (simp add: De s(5) atLeast0LessThan)
      then show ?thesis using bview_disk [OF s(1)] s(2) by simp
    qed
    then show ?thesis by (simp add: De)
  qed
qed

lemma commit_crash_at:
  fixes s :: "'a log_st_scheme"
  assumes r: "log_ready s n" and sb: "sb_logstart (superblock_of (disk s 1)) = lstart s" "1 < disksize s"
      "1 \<notin> log_area (lstart s)" "1 \<notin> pinned s"
    and hd: "nat (sint (word_at hd1 0)) = n" "\<forall>i < n. word_at hd1 (i + 1) = lh_block s ! i" "word_at hd0 0 = 0"
      "length hd1 = BSIZE" "length hd0 = BSIZE"
  shows "\<exists>t. initlog 1 (boot (crash_disk (disk s) (commit_writes s n hd1 hd0) k) (disksize s)) = Inr t \<and> lh_n t = 0
     \<and> (\<forall>b. b \<notin> log_area (lstart s) \<longrightarrow> disk t b = (if k \<le> n then disk s b else bview s b))"
proof -
  let ?h = "\<lambda>i. lh_block s ! i" and ?st = "lstart s" and ?sz = "disksize s"
  define ws where "ws = commit_writes s n hd1 hd0"
  define D where "D = crash_disk (disk s) ws k"
  have s: "bio_inv s" "held s = {}" "log_geom s" "homes_ok s n ?h" "pinned s = ?h ` {..<n}" "head_n (disk s) ?st = 0"
    using r by (auto simp: log_ready_def)
  have nl: "n \<le> LOGSIZE" and hom: "\<And>i. i < n \<Longrightarrow> ?h i \<notin> log_area ?st \<and> ?h i < ?sz" using s(4) by (auto simp: homes_ok_def)
  have sz: "unat ?st + LOGSIZE < unat ?sz" using s(3) by (simp add: log_geom_def)
  note ph = crash_phases [OF r D_def [unfolded ws_def]]
  have "\<forall>(b, d) \<in> set ws. length d = BSIZE"
    using hd(4,5) bview_length [OF s(1)] hom by (auto simp: ws_def commit_writes_def slot_writes_def)
  then have lenD: "\<forall>b < ?sz. length (D b) = BSIZE"
    unfolding D_def crash_disk_def using bio_invD(6) [OF s(1)] by (intro apply_writes_length) (auto dest: in_set_takeD)
  have D1: "D 1 = disk s 1"
    using ph sb(3,4) bview_disk [OF s(1)] s(2) by (cases "k \<le> n"; cases "k \<le> 2 * n + 1") auto
  have run: "\<exists>t. initlog 1 (boot D ?sz) = Inr t \<and> lh_n t = 0
      \<and> (\<forall>b. b \<notin> log_area ?st \<longrightarrow> disk t b = apply_writes D (home_writes D ?st (head_n D ?st) (head_home D ?st)) b)"
    if "head_n D ?st \<le> n" "\<forall>i < head_n D ?st. head_home D ?st i = ?h i"
  proof -
    have "\<exists>t hd. initlog 1 (boot D ?sz) = Inr t \<and> bio_inv t \<and> held t = {} \<and> pinned t = {} \<and> log_geom t \<and> lh_n t = 0
       \<and> lstart t = ?st \<and> word_at hd 0 = 0
       \<and> disk t = apply_writes D (home_writes D ?st (head_n D ?st) (head_home D ?st) @ [(?st, hd)])"
      using that hom nl sb(1,2) D1 by (intro initlog_ok [OF lenD sz]) auto
    then show ?thesis using start_area [of ?st] by fastforce
  qed
  consider "k \<le> n" | "n < k" "k \<le> 2 * n + 1" | "2 * n + 1 < k" by linarith
  then have "\<exists>t. initlog 1 (boot D ?sz) = Inr t \<and> lh_n t = 0
     \<and> (\<forall>b. b \<notin> log_area ?st \<longrightarrow> disk t b = (if k \<le> n then disk s b else bview s b))"
  proof cases
    case 1
    then show ?thesis using run ph(1) s(6) by (auto simp: home_writes_def)
  next
    case 2
    note p = ph(2) [OF 2]
    have n1: "head_n D ?st = n" "\<forall>i < n. head_home D ?st i = ?h i" using hd(1,2) p by simp_all
    have "home_writes D ?st (head_n D ?st) (head_home D ?st) = map (\<lambda>i. (?h i, bview s (?h i))) [0..<n]"
      using n1 p by (simp add: home_writes_def)
    moreover have "apply_writes D (map (\<lambda>i. (?h i, bview s (?h i))) [0..<n]) b = bview s b" if "b \<notin> log_area ?st" for b
      using that p apply_homes [of D ?h "bview s" "[0..<n]" b] bview_disk [OF s(1), of b] s(2)
      by (simp add: s(5) atLeast0LessThan)
    ultimately show ?thesis using run n1 2 by auto
  next
    case 3
    then show ?thesis using run ph(3) hd(3) by (auto simp: home_writes_def)
  qed
  then show ?thesis by (simp add: D_def ws_def)
qed

lemma commit_crash:
  fixes s :: "'a log_st_scheme"
  assumes r: "log_ready s n" and sb: "sb_logstart (superblock_of (disk s 1)) = lstart s" "1 < disksize s"
      "1 \<notin> log_area (lstart s)" "1 \<notin> pinned s"
  shows "\<exists>t ws. commit s = Inr t \<and> lh_n t = 0 \<and> bio_inv t \<and> held t = {} \<and> pinned t = {} \<and> history t = history s @ ws
     \<and> (\<forall>b. b \<notin> log_area (lstart s) \<longrightarrow> disk t b = bview s b) \<and> log_lock t = log_lock s \<and> committing t = committing s
     \<and> outstanding t = outstanding s
     \<and> (\<forall>k. \<exists>t'. initlog 1 (boot (crash_disk (disk s) ws k) (disksize s)) = Inr t'
          \<and> (\<forall>b. b \<notin> log_area (lstart s) \<longrightarrow> disk t' b = (if k \<le> n then disk s b else bview s b)))"
proof (cases "n = 0")
  case True
  have s: "bio_inv s" "held s = {}" "pinned s = {}" "head_n (disk s) (lstart s) = 0" "sint (lh_n s) = 0" "log_geom s"
    using r True by (auto simp: log_ready_def)
  have view: "bview s = disk s" using bview_disk [OF s(1)] s(2,3) by auto
  have "lh_n s = 0" using s(5) by (metis scast_eq scast_id of_int_0)
  moreover have "\<exists>t'. initlog 1 (boot (crash_disk (disk s) [] k) (disksize s)) = Inr t'
      \<and> (\<forall>b. b \<notin> log_area (lstart s) \<longrightarrow> disk t' b = disk s b)" for k
    using initlog_ok [of "disksize s" "disk s" "lstart s"] bio_invD(6) [OF s(1)] sb(1,2) s(4,6) start_area [of "lstart s"]
    by (fastforce simp: crash_disk_def log_geom_def home_writes_def)
  ultimately show ?thesis
    using s view by (intro exI [of _ s] exI [of _ "[]"]) (simp add: commit_def)
next
  case False
  then have n: "0 < n" by simp
  obtain t hd1 hd0 where t: "commit s = Inr t" "bio_inv t" "held t = {}" "pinned t = {}" "lh_n t = 0"
    "disk t = apply_writes (disk s) (commit_writes s n hd1 hd0)" "history t = history s @ commit_writes s n hd1 hd0"
    and hd: "nat (sint (word_at hd1 0)) = n" "\<forall>i < n. word_at hd1 (i + 1) = lh_block s ! i" "word_at hd0 0 = 0"
      "length hd1 = BSIZE" "length hd0 = BSIZE"
    and fr: "log_lock t = log_lock s" "committing t = committing s" "outstanding t = outstanding s"
    using commit_ok [OF r n] by blast
  have "length (commit_writes s n hd1 hd0) = 2 * n + 2" by (simp add: commit_writes_def slot_writes_def)
  then have "disk t = crash_disk (disk s) (commit_writes s n hd1 hd0) (2 * n + 2)" by (simp add: t(6) crash_disk_def)
  then have "\<forall>b. b \<notin> log_area (lstart s) \<longrightarrow> disk t b = bview s b"
    using crash_phases(3) [OF r refl, where k = "2 * n + 2"] by simp
  moreover have "\<exists>t'. initlog 1 (boot (crash_disk (disk s) (commit_writes s n hd1 hd0) k) (disksize s)) = Inr t'
      \<and> (\<forall>b. b \<notin> log_area (lstart s) \<longrightarrow> disk t' b = (if k \<le> n then disk s b else bview s b))" for k
    using commit_crash_at [OF r sb hd, of k] by blast
  ultimately show ?thesis using t(1-5,7) fr by (intro exI [of _ t] exI [of _ "commit_writes s n hd1 hd0"]) simp
qed


section \<open>Transactions\<close>

lemma absorb_cases:
  "i \<le> absorb blk b i k \<and> absorb blk b i k \<le> i + k \<and> (absorb blk b i k < i + k \<longrightarrow> blk ! absorb blk b i k = b)
   \<and> (\<forall>j. i \<le> j \<and> j < absorb blk b i k \<longrightarrow> blk ! j \<noteq> b)"
proof (induction k arbitrary: i)
  case (Suc k)
  show ?case
  proof (cases "blk ! i = b")
    case False
    have IH: "Suc i \<le> absorb blk b (Suc i) k" "absorb blk b (Suc i) k \<le> Suc i + k"
      "absorb blk b (Suc i) k < Suc i + k \<longrightarrow> blk ! absorb blk b (Suc i) k = b"
      "\<forall>j. Suc i \<le> j \<and> j < absorb blk b (Suc i) k \<longrightarrow> blk ! j \<noteq> b"
      using Suc [of "Suc i"] by blast+
    moreover have "blk ! j \<noteq> b" if "i \<le> j" "j < absorb blk b (Suc i) k" for j
      using that IH(4) False by (cases "j = i") auto
    ultimately show ?thesis using False by simp
  qed auto
qed auto

text \<open>The state of the log inside a transaction: the dirty blocks are the logged ones, each once.\<close>

definition log_open :: "'a log_st_scheme \<Rightarrow> nat \<Rightarrow> bool" where
  "log_open s n \<longleftrightarrow> bio_inv s \<and> log_geom s \<and> \<not> log_lock s \<and> sint (lh_n s) = int n \<and> homes_ok s n (\<lambda>i. lh_block s ! i)
     \<and> pinned s = (\<lambda>i. lh_block s ! i) ` {..<n} \<and> inj_on (\<lambda>i. lh_block s ! i) {..<n}"

lemma set_dirty_log:
  "set_dirty i (s\<lparr>log_lock := a, lh_block := l\<rparr>) = (set_dirty i s)\<lparr>log_lock := a, lh_block := l\<rparr>"
  "set_dirty i (s\<lparr>log_lock := a, lh_block := l, lh_n := n\<rparr>) = (set_dirty i s)\<lparr>log_lock := a, lh_block := l, lh_n := n\<rparr>"
  by (simp_all add: upd_buf_def)

lemma log_write_ok:
  fixes s :: "'a log_st_scheme"
  assumes op: "log_open s n" and h: "holds s i b" and b: "b \<notin> log_area (lstart s)"
    and n: "n < LOGSIZE" "int n < sint (lsize s - 1)" "1 \<le> sint (outstanding s)"
  defines "m \<equiv> if b \<in> pinned s then n else n + 1"
  shows "\<exists>t. log_write i s = Inr t \<and> log_open t m \<and> pinned t = insert b (pinned s) \<and> bview t = bview s \<and> disk t = disk s
     \<and> held t = held s \<and> holds t i b"
proof -
  have s: "bio_inv s" "log_geom s" "\<not> log_lock s" "sint (lh_n s) = int n" "homes_ok s n (\<lambda>i. lh_block s ! i)"
    "pinned s = (\<lambda>i. lh_block s ! i) ` {..<n}" "inj_on (\<lambda>i. lh_block s ! i) {..<n}"
    using op by (auto simp: log_open_def)
  note ok = holds_ok [OF s(1) h]
  have bn: "blockno (bufs s ! i) = b" using h by (simp add: holds_def)
  define d where "d = set_dirty i s"
  have d: "bio_inv d" "bview d = bview s" "held d = held s" "pinned d = insert b (pinned s)" "disk d = disk s" "bio_frame s d" "holds d i b"
    using set_dirty_ok [OF s(1) h] h by (auto simp: d_def)
  note f = bio_frame_log [OF d(6)]
  define j where "j = absorb (lh_block s) b 0 n"
  have j: "j \<le> n" "j < n \<longrightarrow> lh_block s ! j = b" "\<forall>k < j. lh_block s ! k \<noteq> b"
    using absorb_cases [of 0 "lh_block s" b n] by (auto simp: j_def)
  have jn: "j = n \<longleftrightarrow> b \<notin> pinned s"
  proof
    show "j = n \<Longrightarrow> b \<notin> pinned s" using j(3) unfolding s(6) by auto
    show "b \<notin> pinned s \<Longrightarrow> j = n" using j(1,2) unfolding s(6) by (cases "j < n") auto
  qed
  define l where "l = (lh_block s)[j := b]"
  have len: "length (lh_block s) = LOGSIZE" using s(2) by (simp add: log_geom_def)
  have log: "log_write i s = Inr (d\<lparr>lh_block := l, lh_n := (if j = n then lh_n s + 1 else lh_n s)\<rparr>)"
  proof -
    have nn: "nat (sint (lh_n s)) = n" using s(4) by simp
    have ll: "d\<lparr>lh_block := x, lh_n := y, log_lock := False\<rparr> = d\<lparr>lh_block := x, lh_n := y\<rparr>" for x y
      using s(3) f(1) by (cases d) simp
    have ll': "d\<lparr>lh_block := x, log_lock := False\<rparr> = d\<lparr>lh_block := x, lh_n := lh_n s\<rparr>" for x
      using s(3) f(1,7) by (cases d) simp
    show ?thesis
      using s(3,4) n nn ll ll' f
      by (simp add: log_write_def log_acquire_def log_release_def Let_def bn j_def [symmetric] l_def [symmetric]
          upd_buf_def d_def) (cases s, simp add: l_def)
  qed
  let ?t = "d\<lparr>lh_block := l, lh_n := (if j = n then lh_n s + 1 else lh_n s)\<rparr>"
  have "m \<le> LOGSIZE" using n(1) by (simp add: m_def)
  have "sint (lh_n s + 1) = sint (lh_n s) + 1"
    using s(4) n(1) by (intro sint_succ) (simp add: LOGSIZE_def MAXOPBLOCKS_def)
  then have "sint (lh_n ?t) = int m" using s(4) jn by (simp add: m_def)
  moreover have lk: "l ! k = (if k = j then b else lh_block s ! k)" if "k < LOGSIZE" for k
    using that len by (simp add: l_def nth_list_update)
  have m: "m = (if j = n then n + 1 else n)" using jn by (simp add: m_def)
  have "homes_ok ?t m (\<lambda>i. lh_block ?t ! i)"
    using s(5) b ok(3) f lk n(1) m by (auto simp: homes_ok_def less_Suc_eq)
  moreover have img: "(\<lambda>i. lh_block ?t ! i) ` {..<m} = insert b (pinned s)"
  proof (cases "j = n")
    case True
    then have "(\<lambda>i. l ! i) ` {..<Suc n} = insert b ((\<lambda>i. lh_block s ! i) ` {..<n})"
      using lk n(1) by (auto simp: lessThan_Suc image_iff)
    with True s(6) m show ?thesis by simp
  next
    case False
    then have "lh_block s ! j = b" using j(1,2) by simp
    then have "l = lh_block s" unfolding l_def by (metis list_update_id)
    with False s(6) m jn show ?thesis by auto
  qed
  moreover have "inj_on (\<lambda>i. lh_block ?t ! i) {..<m}"
  proof -
    have "card (insert b (pinned s)) = m"
      using s(6,7) card_image [OF s(7)] bcache.pin_finite [of s] by (simp add: m_def card_insert_if)
    with img show ?thesis by (intro eq_card_imp_inj_on) simp_all
  qed
  ultimately have "log_open ?t m"
    using d s f len by (auto simp: log_open_def log_geom_def l_def)
  with log d show ?thesis by (intro exI [of _ ?t]) simp
qed

lemma log_ready_update [simp]:
  "log_ready (s\<lparr>log_lock := a\<rparr>) n = log_ready s n" "log_ready (s\<lparr>outstanding := x\<rparr>) n = log_ready s n"
  "log_ready (s\<lparr>committing := x\<rparr>) n = log_ready s n"
  by (simp_all add: log_ready_def homes_ok_def)

lemma end_op_crash:
  fixes s :: "'a log_st_scheme"
  assumes r: "log_ready s n" "\<not> log_lock s" "committing s = 0" "outstanding s = 1"
    and sb: "sb_logstart (superblock_of (disk s 1)) = lstart s" "1 < disksize s"
      "1 \<notin> log_area (lstart s)" "1 \<notin> pinned s"
  shows "\<exists>t ws. end_op s = Inr t \<and> outstanding t = 0 \<and> committing t = 0 \<and> lh_n t = 0 \<and> pinned t = {}
     \<and> (\<forall>b. b \<notin> log_area (lstart s) \<longrightarrow> disk t b = bview s b) \<and> history t = history s @ ws
     \<and> (\<forall>k. \<exists>t'. initlog 1 (boot (crash_disk (disk s) ws k) (disksize s)) = Inr t'
          \<and> (\<forall>b. b \<notin> log_area (lstart s) \<longrightarrow> disk t' b = (if k \<le> n then disk s b else bview s b)))"
proof -
  define s1 where "s1 = s\<lparr>outstanding := 0, committing := 1, log_lock := False\<rparr>"
  have s1: "log_ready s1 n" "disk s1 = disk s" "lstart s1 = lstart s" "disksize s1 = disksize s" "pinned s1 = pinned s"
    "bview s1 = bview s" "history s1 = history s"
    using r(1) by (simp_all add: s1_def)
  obtain u ws where u: "commit s1 = Inr u" "lh_n u = 0" "pinned u = {}" "history u = history s @ ws"
    "\<forall>b. b \<notin> log_area (lstart s) \<longrightarrow> disk u b = bview s b" "log_lock u = log_lock s1" "committing u = committing s1"
    "outstanding u = outstanding s1"
    "\<forall>k. \<exists>t'. initlog 1 (boot (crash_disk (disk s) ws k) (disksize s)) = Inr t'
          \<and> (\<forall>b. b \<notin> log_area (lstart s) \<longrightarrow> disk t' b = (if k \<le> n then disk s b else bview s b))"
    using commit_crash [OF s1(1), unfolded s1(2-7), OF sb] by blast
  define t where "t = wakeup_chan ''log'' 0 (u\<lparr>log_lock := True, committing := 0\<rparr>)\<lparr>log_lock := False\<rparr>"
  have "s\<lparr>log_lock := True, outstanding := 0, committing := 1, log_lock := False\<rparr> = s1" by (simp add: s1_def)
  then have "end_op s = Inr t"
    using r(2-4) u(1,6) by (simp add: end_op_def log_acquire_def log_release_def Let_def t_def s1_def wakeup_chan_def)
  moreover have "pinned t = pinned u" by (simp add: t_def wakeup_chan_def pinned_def)
  ultimately show ?thesis
    using u by (intro exI [of _ t] exI [of _ ws]) (simp add: t_def wakeup_chan_def s1_def)
qed

text \<open>A transaction that has changed block 50, with block 50 in buffer 0.\<close>

definition small_disk :: "u32 \<Rightarrow> u8 list" where
  "small_disk b = (if b = 1 then set_word (replicate BSIZE 0) 4 2 else replicate BSIZE 0)"

definition with_block50 :: "i32 \<Rightarrow> u8 \<Rightarrow> i32 \<Rightarrow> i32 list \<Rightarrow> log_st" where
  "with_block50 fl v n l =
     (upd_buf 0 (\<lambda>b. b\<lparr>bflags := fl, bdev := 1, blockno := 50, bdata := replicate BSIZE v\<rparr>) (boot small_disk 100))
       \<lparr>lstart := 2, lsize := 30, ldev := 1, outstanding := 1, committing := 0, lh_n := n, lh_block := l\<rparr>"

lemma small_disk_facts:
  "\<forall>b < sz. length (small_disk b) = BSIZE" "sb_logstart (superblock_of (small_disk 1)) = 2" "head_n small_disk 2 = 0"
  by (simp_all add: small_disk_def BSIZE_def superblock_of_def word_at_set_word)
    (simp add: word_at_def u32_of_bytes_def)

lemma log_area_dist: "b \<in> log_area st \<Longrightarrow> unat (b - st) \<le> LOGSIZE"
  by (auto simp: log_area_def unat_of_nat intro: order_trans [OF mod_less_eq_dividend])

lemma log_area_2: "50 \<notin> log_area 2" "1 \<notin> log_area 2"
  using log_area_dist [of 50 2] log_area_dist [of 1 2]
  by (auto simp: LOGSIZE_def MAXOPBLOCKS_def unsigned_minus_1_eq_mask mask_eq_exp_minus_1)

lemma with_block50_inv:
  assumes "fl \<in> {3, 6}" "fl = 6 \<or> v = 0" "length l = LOGSIZE"
  shows "bio_inv (with_block50 fl v n l)" "log_geom (with_block50 fl v n l)"
    "held (with_block50 fl v n l) = (if fl = 3 then {50} else {})" "pinned (with_block50 fl v n l) = (if fl = 6 then {50} else {})"
    "disk (with_block50 fl v n l) = small_disk" "lstart (with_block50 fl v n l) = 2" "disksize (with_block50 fl v n l) = 100"
    "fl = 3 \<Longrightarrow> holds (with_block50 fl v n l) 0 50"
proof -
  let ?b = "boot small_disk 100" and ?t = "with_block50 fl v n l"
  note bf = boot_facts [OF small_disk_facts(1) [of 100]]
  define x where "x = (bufs ?b ! 0)\<lparr>bflags := fl, bdev := 1, blockno := 50, bdata := replicate BSIZE v\<rparr>"
  have bits: "bit (3 :: i32) 0" "bit (3 :: i32) 1" "\<not> bit (3 :: i32) 2" "\<not> bit (6 :: i32) 0" "bit (6 :: i32) 1" "bit (6 :: i32) 2"
    by simp_all
  have t: "bufs ?t = (bufs ?b)[0 := x]" by (simp add: with_block50_def upd_buf_def x_def)
  show d: "disk ?t = small_disk" "lstart ?t = 2" "disksize ?t = 100"
    using bf(4,5) by (simp_all add: with_block50_def upd_buf_def)
  have xx: "bdev x = 1" "blockno x = 50" "bflags x = fl" by (simp_all add: x_def)
  have "buf_ok ?t x" using assms(1,2) d bits by (auto simp: buf_ok_def x_def)
  moreover have "buf_ok ?t (bufs ?b ! j)" if "j < NBUF" for j
    using bio_invD(3) [OF bf(1) that] bf(4,5) d by (simp add: buf_ok_def)
  moreover have "bcache_lock ?t = bcache_lock ?b" by (simp add: with_block50_def upd_buf_def)
  ultimately show "bio_inv ?t"
    using bf(8) small_disk_facts(1) d by (intro bio_inv_upd [OF bf(1) t]) (auto simp: NBUF_def x_def)
  show "log_geom ?t" using d assms(3) by (simp add: log_geom_def with_block50_def LOGSIZE_def MAXOPBLOCKS_def upd_buf_def)
  have upd: "bufs ?t ! j = (if j = 0 then x else bufs ?b ! j)" for j using bio_invD(4) [OF bf(1)] by (simp add: t nth_list_update)
  have no: "j < NBUF \<Longrightarrow> j \<noteq> 0 \<Longrightarrow> bflags (bufs ?t ! j) = 0" for j using bf(8) by (simp add: upd)
  have only: "(j < NBUF \<and> bit (bflags (bufs ?t ! j)) m) = (j = 0 \<and> bit fl m)" for j m
    using no [of j] upd [of 0] xx by (cases "j = 0") (auto simp: NBUF_def)
  have "held ?t = {blockno (bufs ?t ! i) | i. i = 0 \<and> bit fl 0}" "pinned ?t = {blockno (bufs ?t ! i) | i. i = 0 \<and> bit fl 2}"
    unfolding held_def pinned_def only by simp_all
  then show "held ?t = (if fl = 3 then {50} else {})" "pinned ?t = (if fl = 6 then {50} else {})"
    using assms(1) xx upd [of 0] by auto
  show "fl = 3 \<Longrightarrow> holds ?t 0 50" using upd [of 0] xx bits by (simp add: holds_def NBUF_def)
qed


section \<open>Properties\<close>

text \<open>
  C3: crash safety of a transaction. When the last open file system operation ends, the
  transaction is committed and the disk holds the changed blocks; if instead the machine
  crashes after any number \<open>k\<close> of the block writes that \<open>end_op\<close> makes and boots again, log
  recovery succeeds and every block outside the log is as before the transaction if \<open>k \<le> n\<close>,
  \<open>n\<close> being the number of changed blocks, and as after it if \<open>k > n\<close>: never a mixture.
\<close>

theorem transaction_crash_safe:
  fixes s :: "'a log_st_scheme"
  assumes "log_ready s n" "\<not> log_lock s" "committing s = 0" "outstanding s = 1"
    and "sb_logstart (superblock_of (disk s 1)) = lstart s" "1 < disksize s" "1 \<notin> log_area (lstart s)" "1 \<notin> pinned s"
  shows "\<exists>t ws. end_op s = Inr t \<and> outstanding t = 0 \<and> committing t = 0 \<and> lh_n t = 0 \<and> pinned t = {}
     \<and> (\<forall>b. b \<notin> log_area (lstart s) \<longrightarrow> disk t b = bview s b) \<and> history t = history s @ ws
     \<and> (\<forall>k. \<exists>t'. initlog 1 (boot (crash_disk (disk s) ws k) (disksize s)) = Inr t'
          \<and> (\<forall>b. b \<notin> log_area (lstart s) \<longrightarrow> disk t' b = (if k \<le> n then disk s b else bview s b)))"
  by (rule end_op_crash [OF assms])

theorem transaction_crash_safe_witness:
  "\<exists>t ws. end_op (with_block50 6 7 1 (50 # replicate 29 0)) = Inr t \<and> disk t 50 = replicate BSIZE 7
     \<and> (\<exists>t'. initlog 1 (boot (crash_disk small_disk ws 1) 100) = Inr t' \<and> disk t' 50 = replicate BSIZE 0)"
proof -
  let ?s = "with_block50 6 7 1 (50 # replicate 29 0)"
  have l: "length (50 # replicate 29 0 :: i32 list) = LOGSIZE" by (simp add: LOGSIZE_def MAXOPBLOCKS_def)
  note f = with_block50_inv [OF _ _ l, of 6 7 1, simplified]
  have o: "lh_n ?s = 1" "lh_block ?s ! 0 = 50" "\<not> log_lock ?s" "committing ?s = 0" "outstanding ?s = 1"
    using boot_facts(7) [OF small_disk_facts(1) [of 100]] by (simp_all add: with_block50_def upd_buf_def)
  have r: "log_ready ?s 1"
    using f o log_area_2 small_disk_facts(3) by (simp add: log_ready_def homes_ok_def lessThan_Suc NBUF_def LOGSIZE_def MAXOPBLOCKS_def)
  have sb: "sb_logstart (superblock_of (disk ?s 1)) = lstart ?s" "1 < disksize ?s" "1 \<notin> log_area (lstart ?s)" "1 \<notin> pinned ?s"
    using f small_disk_facts(2) log_area_2(2) by simp_all
  have "bview ?s 50 = replicate BSIZE 7"
  proof -
    have b: "bufs ?s ! 0 = (bufs (boot small_disk 100) ! 0)\<lparr>bflags := 6, bdev := 1, blockno := 50, bdata := replicate BSIZE 7\<rparr>"
      using bio_invD(4) [OF boot_facts(1) [OF small_disk_facts(1) [of 100]]] by (simp add: with_block50_def upd_buf_def NBUF_def)
    show ?thesis using bview_cached [OF f(1), of 0] by (simp add: b NBUF_def)
  qed
  then show ?thesis
    using transaction_crash_safe [OF r o(3-5) sb] unfolding f(5-7) using log_area_2(1) by (fastforce simp: small_disk_def)
qed

text \<open>
  C17: \<open>log_write\<close> keeps the log and the cache in step. It records the block of a held buffer once
  however often it is written, pins it so that it is not evicted, and changes no block; the
  set of logged blocks stays the set of dirty blocks.
\<close>

theorem log_write_keeps_log:
  fixes s :: "'a log_st_scheme"
  assumes "log_open s n" "holds s i b" "b \<notin> log_area (lstart s)"
    and "n < LOGSIZE" "int n < sint (lsize s - 1)" "1 \<le> sint (outstanding s)"
  shows "\<exists>t. log_write i s = Inr t \<and> log_open t (if b \<in> pinned s then n else n + 1) \<and> pinned t = insert b (pinned s)
     \<and> bview t = bview s \<and> disk t = disk s \<and> held t = held s \<and> holds t i b"
  by (rule log_write_ok [OF assms])

theorem log_write_keeps_log_witness:
  "\<exists>t. log_write 0 (with_block50 3 0 0 (replicate 30 0)) = Inr t \<and> log_open t 1 \<and> pinned t = {50}"
proof -
  let ?s = "with_block50 3 0 0 (replicate 30 0)"
  have l: "length (replicate 30 0 :: i32 list) = LOGSIZE" by (simp add: LOGSIZE_def MAXOPBLOCKS_def)
  note f = with_block50_inv [OF _ _ l, of 3 0 0, simplified]
  have o: "lh_n ?s = 0" "\<not> log_lock ?s" "lsize ?s = 30" "outstanding ?s = 1"
    using boot_facts(7) [OF small_disk_facts(1) [of 100]] by (simp_all add: with_block50_def upd_buf_def)
  have r: "log_open ?s 0" using f(1-7) o by (simp add: log_open_def homes_ok_def)
  show ?thesis
    using log_write_keeps_log [OF r f(8)] f(4,6) o log_area_2(1) by (auto simp: LOGSIZE_def MAXOPBLOCKS_def)
qed

end
