(* ===== verification/Fs.thy ===== *)
theory Fs
  imports Log
begin

text \<open>
  The file system layer of \<open>src/fs.c\<close> on the log: block allocation, inodes and their cache, file
  contents, directories, path names. A pointer to an in-memory inode is its index in
  \<open>icache.inode\<close>, \<open>None\<close> where the code tests for the null pointer. A path is the list of its
  bytes before the terminating zero; a name buffer \<open>char name[DIRSIZ]\<close> is a list of its bytes.
  File contents pass as byte lists. The device table \<open>devsw\<close> is a parameter.
\<close>

section \<open>Definitions\<close>

definition NINODE :: nat where "NINODE = 50"
definition NDEV :: nat where "NDEV = 10"
definition ROOTDEV :: u32 where "ROOTDEV = 1"
definition ROOTINO :: u32 where "ROOTINO = 1"
definition NDIRECT :: nat where "NDIRECT = 12"
definition NINDIRECT :: nat where "NINDIRECT = BSIZE div 4"
definition MAXFILE :: nat where "MAXFILE = NDIRECT + NINDIRECT"
definition IPB :: nat where "IPB = BSIZE div 64"
definition BPB :: nat where "BPB = BSIZE * 8"
definition DIRSIZ :: nat where "DIRSIZ = 14"
definition I_BUSY :: i32 where "I_BUSY = 0x1"
definition I_VALID :: i32 where "I_VALID = 0x2"
definition T_DIR :: u16 where "T_DIR = 1"
definition T_FILE :: u16 where "T_FILE = 2"
definition T_DEV :: u16 where "T_DEV = 3"

record dinode =
  dtype :: u16
  dmajor :: u16
  dminor :: u16
  dnlink :: u16
  dsize :: u32
  daddrs :: "u32 list"

record inode =
  idev :: u32
  inum :: u32
  iref :: i32
  iflags :: i32
  itype :: u16
  imajor :: u16
  iminor :: u16
  inlink :: u16
  isize :: u32
  iaddrs :: "u32 list"

record fs_st = log_st +
  sb :: superblock
  icache_lock :: bool
  inodes :: "inode list"

definition IBLOCK :: "u32 \<Rightarrow> superblock \<Rightarrow> u32" where
  "IBLOCK i sblk = i div of_nat IPB + sb_inodestart sblk"

definition BBLOCK :: "u32 \<Rightarrow> superblock \<Rightarrow> u32" where
  "BBLOCK b sblk = b div of_nat BPB + sb_bmapstart sblk"

definition upd_inode :: "nat \<Rightarrow> (inode \<Rightarrow> inode) \<Rightarrow> 'a fs_st_scheme \<Rightarrow> 'a fs_st_scheme" where
  "upd_inode i f s = s\<lparr>inodes := (inodes s)[i := f (inodes s ! i)]\<rparr>"

definition icache_acquire :: "'a fs_st_scheme \<Rightarrow> 'a fs_st_scheme res" where
  "icache_acquire s = bind_res (lock_acquire (icache_lock s)) (\<lambda>l. Inr (s\<lparr>icache_lock := l\<rparr>))"

definition icache_release :: "'a fs_st_scheme \<Rightarrow> 'a fs_st_scheme res" where
  "icache_release s = bind_res (lock_release (icache_lock s)) (\<lambda>l. Inr (s\<lparr>icache_lock := l\<rparr>))"

text \<open>Sixteen-bit fields of a block, and the layout of a disk inode.\<close>

definition half_at :: "u8 list \<Rightarrow> nat \<Rightarrow> u16" where
  "half_at d k = ucast (d ! k) OR push_bit 8 (ucast (d ! (k + 1)))"

definition bytes_of_half :: "u16 \<Rightarrow> u8 list" where
  "bytes_of_half v = [ucast v, ucast (drop_bit 8 v)]"

definition splice :: "'b list \<Rightarrow> nat \<Rightarrow> 'b list \<Rightarrow> 'b list" where
  "splice d k bs = take k d @ bs @ drop (k + length bs) d"

definition dinode_at :: "u8 list \<Rightarrow> nat \<Rightarrow> dinode" where
  "dinode_at d j = \<lparr>dtype = half_at d (64 * j), dmajor = half_at d (64 * j + 2), dminor = half_at d (64 * j + 4),
     dnlink = half_at d (64 * j + 6), dsize = word_at d (16 * j + 2),
     daddrs = map (\<lambda>i. word_at d (16 * j + 3 + i)) [0..<NDIRECT + 1]\<rparr>"

definition dinode_bytes :: "dinode \<Rightarrow> u8 list" where
  "dinode_bytes di = bytes_of_half (dtype di) @ bytes_of_half (dmajor di) @ bytes_of_half (dminor di)
     @ bytes_of_half (dnlink di) @ bytes_of_u32 (dsize di) @ concat (map bytes_of_u32 (daddrs di))"

definition put_dinode :: "u8 list \<Rightarrow> nat \<Rightarrow> dinode \<Rightarrow> u8 list" where
  "put_dinode d j di = splice d (64 * j) (dinode_bytes di)"


subsection \<open>Blocks\<close>

definition bzero :: "u32 \<Rightarrow> u32 \<Rightarrow> 'a log_st_scheme \<Rightarrow> 'a log_st_scheme res" where
  "bzero dev bno s =
     bind_res (bread dev bno s) (\<lambda>(bp, s).
     bind_res (log_write bp (set_data bp (replicate BSIZE 0) s)) (\<lambda>s.
     brelse bp s))"

definition bit_free :: "u8 list \<Rightarrow> nat \<Rightarrow> bool" where
  "bit_free d bi = (d ! (bi div 8) AND push_bit (bi mod 8) 1 = 0)"

definition bit_mark :: "u8 list \<Rightarrow> nat \<Rightarrow> u8 list" where
  "bit_mark d bi = d[bi div 8 := d ! (bi div 8) OR push_bit (bi mod 8) 1]"

definition bit_clear :: "u8 list \<Rightarrow> nat \<Rightarrow> u8 list" where
  "bit_clear d bi = d[bi div 8 := d ! (bi div 8) AND NOT (push_bit (bi mod 8) 1)]"

text \<open>The block number counts as a natural number: the code's \<open>int\<close> stays below \<open>2 ^ 31\<close> for every disk of fewer blocks.\<close>

primrec balloc_loop :: "u32 \<Rightarrow> nat \<Rightarrow> nat \<Rightarrow> 'a fs_st_scheme \<Rightarrow> (u32 \<times> 'a fs_st_scheme) res" where
  "balloc_loop dev k 0 s = Inl (Panic ''balloc: out of blocks'')"
| "balloc_loop dev k (Suc n) s =
     (let b = BPB * k in
      bind_res (bread dev (BBLOCK (of_nat b) (sb s)) s) (\<lambda>(bp, s).
      let d = bdata (bufs s ! bp) in
      case List.find (\<lambda>bi. b + bi < unat (sb_size (sb s)) \<and> bit_free d bi) [0..<BPB] of
        Some bi \<Rightarrow>
          bind_res (log_write bp (set_data bp (bit_mark d bi) s)) (\<lambda>s.
          bind_res (brelse bp s) (\<lambda>s.
          bind_res (bzero dev (of_nat (b + bi)) s) (\<lambda>s.
          Inr (of_nat (b + bi), s))))
      | None \<Rightarrow> bind_res (brelse bp s) (balloc_loop dev (Suc k) n)))"

text \<open>The outer loop runs for \<open>b = 0, BPB, 2 * BPB, \<dots>\<close> below \<open>sb.size\<close>.\<close>

definition balloc :: "u32 \<Rightarrow> 'a fs_st_scheme \<Rightarrow> (u32 \<times> 'a fs_st_scheme) res" where
  "balloc dev s = balloc_loop dev 0 ((unat (sb_size (sb s)) + BPB - 1) div BPB) s"

definition bfree :: "u32 \<Rightarrow> u32 \<Rightarrow> 'a fs_st_scheme \<Rightarrow> 'a fs_st_scheme res" where
  "bfree dev b s =
     bind_res (readsb dev s) (\<lambda>(sblk, s).
     let s = s\<lparr>sb := sblk\<rparr> in
     bind_res (bread dev (BBLOCK b (sb s)) s) (\<lambda>(bp, s).
     let d = bdata (bufs s ! bp); bi = unat b mod BPB in
     if bit_free d bi then Inl (Panic ''freeing free block'')
     else
       bind_res (log_write bp (set_data bp (bit_clear d bi) s)) (\<lambda>s.
       brelse bp s)))"


subsection \<open>Inodes\<close>

definition iinit :: "u32 \<Rightarrow> 'a fs_st_scheme \<Rightarrow> 'a fs_st_scheme res" where
  "iinit dev s =
     bind_res (readsb dev (s\<lparr>icache_lock := False\<rparr>)) (\<lambda>(sblk, s). Inr (s\<lparr>sb := sblk\<rparr>))"

primrec iget_loop :: "inode list \<Rightarrow> u32 \<Rightarrow> u32 \<Rightarrow> nat \<Rightarrow> nat \<Rightarrow> nat option \<Rightarrow> nat option \<times> nat option" where
  "iget_loop is dev no i 0 emp = (None, emp)"
| "iget_loop is dev no i (Suc n) emp =
     (if sint (iref (is ! i)) > 0 \<and> idev (is ! i) = dev \<and> inum (is ! i) = no then (Some i, emp)
      else iget_loop is dev no (Suc i) n (if emp = None \<and> iref (is ! i) = 0 then Some i else emp))"

definition iget :: "u32 \<Rightarrow> u32 \<Rightarrow> 'a fs_st_scheme \<Rightarrow> (nat \<times> 'a fs_st_scheme) res" where
  "iget dev no s =
     bind_res (icache_acquire s) (\<lambda>s.
     case iget_loop (inodes s) dev no 0 NINODE None of
       (Some ip, _) \<Rightarrow>
         bind_res (icache_release (upd_inode ip (\<lambda>i. i\<lparr>iref := iref i + 1\<rparr>) s)) (\<lambda>s. Inr (ip, s))
     | (None, None) \<Rightarrow> Inl (Panic ''iget: no inodes'')
     | (None, Some ip) \<Rightarrow>
         bind_res (icache_release (upd_inode ip (\<lambda>i. i\<lparr>idev := dev, inum := no, iref := 1, iflags := 0\<rparr>) s))
           (\<lambda>s. Inr (ip, s)))"

primrec ialloc_loop :: "u32 \<Rightarrow> u16 \<Rightarrow> nat \<Rightarrow> nat \<Rightarrow> 'a fs_st_scheme \<Rightarrow> (nat \<times> 'a fs_st_scheme) res" where
  "ialloc_loop dev type no 0 s = Inl (Panic ''ialloc: no inodes'')"
| "ialloc_loop dev type no (Suc n) s =
     bind_res (bread dev (IBLOCK (of_nat no) (sb s)) s) (\<lambda>(bp, s).
     let d = bdata (bufs s ! bp) in
     if dtype (dinode_at d (no mod IPB)) = 0 then
       (let di = \<lparr>dtype = type, dmajor = 0, dminor = 0, dnlink = 0, dsize = 0, daddrs = replicate (NDIRECT + 1) 0\<rparr> in
        bind_res (log_write bp (set_data bp (put_dinode d (no mod IPB) di) s)) (\<lambda>s.
        bind_res (brelse bp s) (\<lambda>s.
        iget dev (of_nat no) s)))
     else bind_res (brelse bp s) (ialloc_loop dev type (Suc no) n))"

definition ialloc :: "u32 \<Rightarrow> u16 \<Rightarrow> 'a fs_st_scheme \<Rightarrow> (nat \<times> 'a fs_st_scheme) res" where
  "ialloc dev type s = ialloc_loop dev type 1 (unat (sb_ninodes (sb s)) - 1) s"

definition iupdate :: "nat \<Rightarrow> 'a fs_st_scheme \<Rightarrow> 'a fs_st_scheme res" where
  "iupdate ip s =
     (let i = inodes s ! ip in
      bind_res (bread (idev i) (IBLOCK (inum i) (sb s)) s) (\<lambda>(bp, s).
      let di = \<lparr>dtype = itype i, dmajor = imajor i, dminor = iminor i, dnlink = inlink i, dsize = isize i, daddrs = iaddrs i\<rparr> in
      bind_res (log_write bp (set_data bp (put_dinode (bdata (bufs s ! bp)) (unat (inum i) mod IPB) di) s)) (\<lambda>s.
      brelse bp s)))"

definition idup :: "nat \<Rightarrow> 'a fs_st_scheme \<Rightarrow> (nat \<times> 'a fs_st_scheme) res" where
  "idup ip s =
     bind_res (icache_acquire s) (\<lambda>s.
     bind_res (icache_release (upd_inode ip (\<lambda>i. i\<lparr>iref := iref i + 1\<rparr>) s)) (\<lambda>s. Inr (ip, s)))"

text \<open>The part of \<open>ilock\<close> that reads the inode from disk.\<close>

definition load_dinode :: "dinode \<Rightarrow> inode \<Rightarrow> inode" where
  "load_dinode di i = i\<lparr>itype := dtype di, imajor := dmajor di, iminor := dminor di, inlink := dnlink di, isize := dsize di,
     iaddrs := daddrs di\<rparr>"

definition ilock_load :: "nat \<Rightarrow> 'a fs_st_scheme \<Rightarrow> 'a fs_st_scheme res" where
  "ilock_load ip s =
     (let i = inodes s ! ip in
      bind_res (bread (idev i) (IBLOCK (inum i) (sb s)) s) (\<lambda>(bp, s).
      let di = dinode_at (bdata (bufs s ! bp)) (unat (inum i) mod IPB); s = upd_inode ip (load_dinode di) s in
      bind_res (brelse bp s) (\<lambda>s.
      let s = upd_inode ip (\<lambda>i. i\<lparr>iflags := iflags i OR I_VALID\<rparr>) s in
      if itype (inodes s ! ip) = 0 then Inl (Panic ''ilock: no type'') else Inr s)))"

definition ilock :: "nat option \<Rightarrow> 'a fs_st_scheme \<Rightarrow> 'a fs_st_scheme res" where
  "ilock ipo s =
     (case ipo of None \<Rightarrow> Inl (Panic ''ilock'') | Some ip \<Rightarrow>
      if sint (iref (inodes s ! ip)) < 1 then Inl (Panic ''ilock'')
      else
        bind_res (icache_acquire s) (\<lambda>s.
        if iflags (inodes s ! ip) AND I_BUSY \<noteq> 0 then Inl Sleeps
        else
          bind_res (icache_release (upd_inode ip (\<lambda>i. i\<lparr>iflags := iflags i OR I_BUSY\<rparr>) s)) (\<lambda>s.
          if iflags (inodes s ! ip) AND I_VALID = 0 then ilock_load ip s else Inr s)))"

definition iunlock :: "nat option \<Rightarrow> 'a fs_st_scheme \<Rightarrow> 'a fs_st_scheme res" where
  "iunlock ipo s =
     (case ipo of None \<Rightarrow> Inl (Panic ''iunlock'') | Some ip \<Rightarrow>
      if iflags (inodes s ! ip) AND I_BUSY = 0 \<or> sint (iref (inodes s ! ip)) < 1 then Inl (Panic ''iunlock'')
      else
        bind_res (icache_acquire s) (\<lambda>s.
        icache_release (wakeup_chan ''inode'' ip (upd_inode ip (\<lambda>i. i\<lparr>iflags := iflags i AND NOT I_BUSY\<rparr>) s))))"

subsection \<open>Contents\<close>

definition bmap :: "nat \<Rightarrow> u32 \<Rightarrow> 'a fs_st_scheme \<Rightarrow> (u32 \<times> 'a fs_st_scheme) res" where
  "bmap ip bn s =
     (let i = inodes s ! ip; k = unat bn; set_addr = (\<lambda>k a. upd_inode ip (\<lambda>i. i\<lparr>iaddrs := (iaddrs i)[k := a]\<rparr>)) in
      if k < NDIRECT then
        (if iaddrs i ! k = 0 then bind_res (balloc (idev i) s) (\<lambda>(a, s). Inr (a, set_addr k a s))
         else Inr (iaddrs i ! k, s))
      else if k - NDIRECT < NINDIRECT then
        bind_res (if iaddrs i ! NDIRECT = 0 then bind_res (balloc (idev i) s) (\<lambda>(a, s). Inr (a, set_addr NDIRECT a s))
                  else Inr (iaddrs i ! NDIRECT, s)) (\<lambda>(addr, s).
        bind_res (bread (idev i) addr s) (\<lambda>(bp, s).
        let a = word_at (bdata (bufs s ! bp)) (k - NDIRECT) in
        bind_res (if a = 0 then
                    bind_res (balloc (idev i) s) (\<lambda>(a, s).
                    bind_res (log_write bp (set_data bp (set_word (bdata (bufs s ! bp)) (k - NDIRECT) a) s)) (\<lambda>s.
                    Inr (a, s)))
                  else Inr (a, s)) (\<lambda>(a, s).
        bind_res (brelse bp s) (\<lambda>s. Inr (a, s)))))
      else Inl (Panic ''bmap: out of range''))"

definition itrunc_direct :: "nat \<Rightarrow> nat \<Rightarrow> 'a fs_st_scheme \<Rightarrow> 'a fs_st_scheme res" where
  "itrunc_direct ip k s =
     (let i = inodes s ! ip in
      if iaddrs i ! k \<noteq> 0 then
        bind_res (bfree (idev i) (iaddrs i ! k) s) (\<lambda>s.
        Inr (upd_inode ip (\<lambda>i. i\<lparr>iaddrs := (iaddrs i)[k := 0]\<rparr>) s))
      else Inr s)"

definition itrunc_indirect :: "u32 \<Rightarrow> nat \<Rightarrow> nat \<Rightarrow> 'a fs_st_scheme \<Rightarrow> 'a fs_st_scheme res" where
  "itrunc_indirect dev bp j s =
     (let a = word_at (bdata (bufs s ! bp)) j in if a \<noteq> 0 then bfree dev a s else Inr s)"

definition itrunc :: "nat \<Rightarrow> 'a fs_st_scheme \<Rightarrow> 'a fs_st_scheme res" where
  "itrunc ip s =
     bind_res (for_res [0..<NDIRECT] (itrunc_direct ip) s) (\<lambda>s.
     let i = inodes s ! ip in
     bind_res (if iaddrs i ! NDIRECT \<noteq> 0 then
                 bind_res (bread (idev i) (iaddrs i ! NDIRECT) s) (\<lambda>(bp, s).
                 bind_res (for_res [0..<NINDIRECT] (itrunc_indirect (idev i) bp) s) (\<lambda>s.
                 bind_res (brelse bp s) (\<lambda>s.
                 bind_res (bfree (idev i) (iaddrs i ! NDIRECT) s) (\<lambda>s.
                 Inr (upd_inode ip (\<lambda>i. i\<lparr>iaddrs := (iaddrs i)[NDIRECT := 0]\<rparr>) s)))))
               else Inr s) (\<lambda>s.
     iupdate ip (upd_inode ip (\<lambda>i. i\<lparr>isize := 0\<rparr>) s)))"

definition iput :: "nat \<Rightarrow> 'a fs_st_scheme \<Rightarrow> 'a fs_st_scheme res" where
  "iput ip s =
     bind_res (icache_acquire s) (\<lambda>s.
     let i = inodes s ! ip in
     bind_res (if iref i = 1 \<and> iflags i AND I_VALID \<noteq> 0 \<and> inlink i = 0 then
                 (if iflags i AND I_BUSY \<noteq> 0 then Inl (Panic ''iput busy'')
                  else
                    bind_res (icache_release (upd_inode ip (\<lambda>i. i\<lparr>iflags := iflags i OR I_BUSY\<rparr>) s)) (\<lambda>s.
                    bind_res (itrunc ip s) (\<lambda>s.
                    bind_res (iupdate ip (upd_inode ip (\<lambda>i. i\<lparr>itype := 0\<rparr>) s)) (\<lambda>s.
                    bind_res (icache_acquire s) (\<lambda>s.
                    Inr (wakeup_chan ''inode'' ip (upd_inode ip (\<lambda>i. i\<lparr>iflags := 0\<rparr>) s)))))))
               else Inr s) (\<lambda>s.
     icache_release (upd_inode ip (\<lambda>i. i\<lparr>iref := iref i - 1\<rparr>) s)))"

definition iunlockput :: "nat \<Rightarrow> 'a fs_st_scheme \<Rightarrow> 'a fs_st_scheme res" where
  "iunlockput ip s = bind_res (iunlock (Some ip) s) (iput ip)"

record stat =
  st_type :: u16
  st_dev :: u32
  st_ino :: u32
  st_nlink :: u16
  st_size :: u32

definition stati :: "inode \<Rightarrow> stat" where
  "stati i = \<lparr>st_type = itype i, st_dev = idev i, st_ino = inum i, st_nlink = inlink i, st_size = isize i\<rparr>"

text \<open>
  The device functions of one row of \<open>devsw\<close>, \<open>None\<close> for a null pointer. A pointer
  \<open>&proc->selid\<close> is the process's index with the value it points to; a select lock is named by
  the process that owns it.
\<close>

record 's devfns =
  dev_read :: "(nat \<Rightarrow> i32 \<Rightarrow> 's \<Rightarrow> ((i32 \<times> u8 list) \<times> 's) res) option"
  dev_write :: "(nat \<Rightarrow> u8 list \<Rightarrow> i32 \<Rightarrow> 's \<Rightarrow> (i32 \<times> 's) res) option"
  dev_writeable :: "(nat \<Rightarrow> 's \<Rightarrow> i32) option"
  dev_readable :: "(nat \<Rightarrow> 's \<Rightarrow> i32) option"
  dev_select :: "(nat \<Rightarrow> nat \<Rightarrow> i32 \<Rightarrow> nat \<Rightarrow> 's \<Rightarrow> (i32 \<times> 's) res) option"
  dev_clrsel :: "(nat \<Rightarrow> nat \<Rightarrow> i32 \<Rightarrow> 's \<Rightarrow> (i32 \<times> 's) res) option"

definition dev_row :: "('s devfns) list \<Rightarrow> u16 \<Rightarrow> 's devfns option" where
  "dev_row devsw major = (if sint major < 0 \<or> sint major \<ge> int NDEV then None else Some (devsw ! unat major))"

definition chunk :: "u32 \<Rightarrow> u32 \<Rightarrow> u32 \<Rightarrow> u32" where
  "chunk off n tot = min (n - tot) (of_nat BSIZE - off mod of_nat BSIZE)"

lemma chunk_progress:
  assumes "tot < n"
  shows "unat (n - (tot + chunk off n tot)) < unat (n - tot)"
proof -
  have b: "off mod of_nat BSIZE < of_nat BSIZE" by (simp add: BSIZE_def word_mod_less_divisor)
  have pos: "0 < chunk off n tot"
  proof -
    have "0 < n - tot" using assms by (auto simp: word_gt_0)
    moreover have "0 < of_nat BSIZE - off mod of_nat BSIZE" using b by (auto simp: word_gt_0)
    ultimately show ?thesis unfolding chunk_def min_def by auto
  qed
  have le: "chunk off n tot \<le> n - tot" by (simp add: chunk_def)
  have "unat ((n - tot) - chunk off n tot) = unat (n - tot) - unat (chunk off n tot)"
    using le by (simp add: unat_sub)
  then show ?thesis using pos le unfolding diff_diff_eq by (simp add: word_less_nat_alt word_le_nat_alt)
qed

function readi_loop :: "nat \<Rightarrow> u32 \<Rightarrow> u32 \<Rightarrow> u32 \<Rightarrow> u8 list \<Rightarrow> 'a fs_st_scheme \<Rightarrow> (u8 list \<times> 'a fs_st_scheme) res" where
  "readi_loop ip off n tot dst s =
     (if tot < n then
        bind_res (bmap ip (off div of_nat BSIZE) s) (\<lambda>(addr, s).
        bind_res (bread (idev (inodes s ! ip)) addr s) (\<lambda>(bp, s).
        let m = chunk off n tot;
          part = take (unat m) (drop (unat (off mod of_nat BSIZE)) (bdata (bufs s ! bp))) in
        bind_res (brelse bp s) (\<lambda>s.
        readi_loop ip (off + m) n (tot + m) (dst @ part) s)))
      else Inr (dst, s))"
  by pat_completeness auto
termination
  by (relation "measure (\<lambda>(ip, off, n, tot, dst, s). unat (n - tot))") (simp_all add: chunk_progress)

definition readi :: "('a fs_st_scheme devfns) list \<Rightarrow> nat \<Rightarrow> u32 \<Rightarrow> u32 \<Rightarrow> 'a fs_st_scheme
    \<Rightarrow> ((i32 \<times> u8 list) \<times> 'a fs_st_scheme) res" where
  "readi devsw ip off n s =
     (let i = inodes s ! ip in
      if itype i = T_DEV then
        (case dev_row devsw (imajor i) of None \<Rightarrow> Inr ((-1, []), s) | Some dv \<Rightarrow>
         case dev_read dv of None \<Rightarrow> Inr ((-1, []), s) | Some f \<Rightarrow> f ip n s)
      else if off > isize i \<or> off + n < off then Inr ((-1, []), s)
      else
        (let n = (if off + n > isize i then isize i - off else n) in
         bind_res (readi_loop ip off n 0 [] s) (\<lambda>(bs, s). Inr ((n, bs), s))))"

function writei_loop :: "nat \<Rightarrow> u8 list \<Rightarrow> u32 \<Rightarrow> u32 \<Rightarrow> u32 \<Rightarrow> 'a fs_st_scheme \<Rightarrow> (u32 \<times> 'a fs_st_scheme) res" where
  "writei_loop ip src off n tot s =
     (if tot < n then
        bind_res (bmap ip (off div of_nat BSIZE) s) (\<lambda>(addr, s).
        bind_res (bread (idev (inodes s ! ip)) addr s) (\<lambda>(bp, s).
        let m = chunk off n tot;
          d = splice (bdata (bufs s ! bp)) (unat (off mod of_nat BSIZE)) (take (unat m) src) in
        bind_res (log_write bp (set_data bp d s)) (\<lambda>s.
        bind_res (brelse bp s) (\<lambda>s.
        writei_loop ip (drop (unat m) src) (off + m) n (tot + m) s))))
      else Inr (off, s))"
  by pat_completeness auto
termination
  by (relation "measure (\<lambda>(ip, src, off, n, tot, s). unat (n - tot))") (simp_all add: chunk_progress)

definition writei :: "('a fs_st_scheme devfns) list \<Rightarrow> nat \<Rightarrow> u8 list \<Rightarrow> u32 \<Rightarrow> u32 \<Rightarrow> 'a fs_st_scheme
    \<Rightarrow> (i32 \<times> 'a fs_st_scheme) res" where
  "writei devsw ip src off n s =
     (let i = inodes s ! ip in
      if itype i = T_DEV then
        (case dev_row devsw (imajor i) of None \<Rightarrow> Inr (-1, s) | Some dv \<Rightarrow>
         case dev_write dv of None \<Rightarrow> Inr (-1, s) | Some f \<Rightarrow> f ip src n s)
      else if off > isize i \<or> off + n < off then Inr (-1, s)
      else if off + n > of_nat (MAXFILE * BSIZE) then Inr (-1, s)
      else
        bind_res (writei_loop ip src off n 0 s) (\<lambda>(off, s).
        bind_res (if n > 0 \<and> off > isize (inodes s ! ip) then iupdate ip (upd_inode ip (\<lambda>i. i\<lparr>isize := off\<rparr>) s)
                  else Inr s) (\<lambda>s.
        Inr (n, s))))"

subsection \<open>Directories\<close>

text \<open>
  \<open>strncmp\<close> and \<open>strncpy\<close> on name buffers: at most \<open>n\<close> bytes from index \<open>i\<close>, stopping at a zero.
\<close>

primrec strncmp_at :: "u8 list \<Rightarrow> u8 list \<Rightarrow> nat \<Rightarrow> nat \<Rightarrow> i32" where
  "strncmp_at p q i 0 = 0"
| "strncmp_at p q i (Suc n) =
     (if p ! i \<noteq> 0 \<and> p ! i = q ! i then strncmp_at p q (Suc i) n else ucast (p ! i) - ucast (q ! i))"

primrec strncpy_from :: "u8 list \<Rightarrow> nat \<Rightarrow> nat \<Rightarrow> u8 list" where
  "strncpy_from p i 0 = []"
| "strncpy_from p i (Suc n) =
     (if p ! i = 0 then replicate (Suc n) 0 else p ! i # strncpy_from p (Suc i) n)"

definition namecmp :: "u8 list \<Rightarrow> u8 list \<Rightarrow> i32" where
  "namecmp p q = strncmp_at p q 0 DIRSIZ"

text \<open>A directory entry is sixteen bytes: the inode number and the name.\<close>

definition de_inum :: "u8 list \<Rightarrow> u16" where "de_inum de = half_at de 0"
definition de_name :: "u8 list \<Rightarrow> u8 list" where "de_name de = drop 2 de"

definition mk_dirent :: "u32 \<Rightarrow> u8 list \<Rightarrow> u8 list" where
  "mk_dirent no name = bytes_of_half (ucast no) @ strncpy_from name 0 DIRSIZ"

definition dir_entries :: "u32 \<Rightarrow> nat" where "dir_entries sz = (unat sz + 15) div 16"

primrec dirlookup_loop :: "('a fs_st_scheme devfns) list \<Rightarrow> nat \<Rightarrow> u8 list \<Rightarrow> nat \<Rightarrow> nat \<Rightarrow> 'a fs_st_scheme
    \<Rightarrow> ((nat \<times> u32) option \<times> 'a fs_st_scheme) res" where
  "dirlookup_loop devsw dp name k 0 s = Inr (None, s)"
| "dirlookup_loop devsw dp name k (Suc n) s =
     bind_res (readi devsw dp (of_nat (16 * k)) 16 s) (\<lambda>((r, de), s).
     if r \<noteq> 16 then Inl (Panic ''dirlink read'')
     else if de_inum de = 0 then dirlookup_loop devsw dp name (Suc k) n s
     else if namecmp name (de_name de) = 0 then
       bind_res (iget (idev (inodes s ! dp)) (ucast (de_inum de)) s) (\<lambda>(ip, s).
       Inr (Some (ip, of_nat (16 * k)), s))
     else dirlookup_loop devsw dp name (Suc k) n s)"

text \<open>The result pairs the inode with the offset stored through \<open>poff\<close>.\<close>

definition dirlookup :: "('a fs_st_scheme devfns) list \<Rightarrow> nat \<Rightarrow> u8 list \<Rightarrow> 'a fs_st_scheme
    \<Rightarrow> ((nat \<times> u32) option \<times> 'a fs_st_scheme) res" where
  "dirlookup devsw dp name s =
     (if itype (inodes s ! dp) \<noteq> T_DIR then Inl (Panic ''dirlookup not DIR'')
      else dirlookup_loop devsw dp name 0 (dir_entries (isize (inodes s ! dp))) s)"

primrec dirlink_loop :: "('a fs_st_scheme devfns) list \<Rightarrow> nat \<Rightarrow> nat \<Rightarrow> nat \<Rightarrow> 'a fs_st_scheme \<Rightarrow> (u32 \<times> 'a fs_st_scheme) res" where
  "dirlink_loop devsw dp k 0 s = Inr (of_nat (16 * k), s)"
| "dirlink_loop devsw dp k (Suc n) s =
     bind_res (readi devsw dp (of_nat (16 * k)) 16 s) (\<lambda>((r, de), s).
     if r \<noteq> 16 then Inl (Panic ''dirlink read'')
     else if de_inum de = 0 then Inr (of_nat (16 * k), s)
     else dirlink_loop devsw dp (Suc k) n s)"

definition dirlink :: "('a fs_st_scheme devfns) list \<Rightarrow> nat \<Rightarrow> u8 list \<Rightarrow> u32 \<Rightarrow> 'a fs_st_scheme \<Rightarrow> (i32 \<times> 'a fs_st_scheme) res" where
  "dirlink devsw dp name no s =
     bind_res (dirlookup devsw dp name s) (\<lambda>(found, s).
     case found of
       Some (ip, _) \<Rightarrow> bind_res (iput ip s) (\<lambda>s. Inr (-1, s))
     | None \<Rightarrow>
         bind_res (dirlink_loop devsw dp 0 (dir_entries (isize (inodes s ! dp))) s) (\<lambda>(off, s).
         bind_res (writei devsw dp (mk_dirent no name) off 16 s) (\<lambda>(r, s).
         if r \<noteq> 16 then Inl (Panic ''dirlink'') else Inr (0, s))))"


subsection \<open>Paths\<close>

abbreviation slash :: u8 where "slash \<equiv> 47"

text \<open>The name buffer has \<open>DIRSIZ\<close> bytes; a store past its end would make the list longer.\<close>

definition skipelem :: "u8 list \<Rightarrow> u8 list \<Rightarrow> (u8 list \<times> u8 list) option" where
  "skipelem path name =
     (let path = dropWhile (\<lambda>c. c = slash) path in
      if path = [] then None
      else
        (let e = takeWhile (\<lambda>c. c \<noteq> slash) path; path = dropWhile (\<lambda>c. c \<noteq> slash) path; len = length e;
           name = (if len \<ge> DIRSIZ then splice name 0 (take DIRSIZ e)
                   else splice (splice name 0 e) len [0]) in
         Some (dropWhile (\<lambda>c. c = slash) path, name)))"

lemma skipelem_shorter:
  assumes "skipelem path name = Some (path', name')"
  shows "length path' < length path"
proof -
  define p where "p = dropWhile (\<lambda>c. c = slash) path"
  have ne: "p \<noteq> []" and r: "path' = dropWhile (\<lambda>c. c = slash) (dropWhile (\<lambda>c. c \<noteq> slash) p)"
    using assms by (auto simp: skipelem_def Let_def p_def split: if_splits)
  obtain c q where p: "p = c # q" using ne by (cases p) auto
  have c: "c \<noteq> slash" using hd_dropWhile [of "\<lambda>c. c = slash" path] p p_def by (metis list.sel(1) list.distinct(1))
  have "length path' \<le> length (dropWhile (\<lambda>c. c \<noteq> slash) p)" unfolding r by (rule length_dropWhile_le)
  also have "\<dots> \<le> length q" using c by (simp add: p length_dropWhile_le)
  also have "\<dots> < length p" by (simp add: p)
  also have "\<dots> \<le> length path" unfolding p_def by (rule length_dropWhile_le)
  finally show ?thesis .
qed

function namex_loop :: "('a fs_st_scheme devfns) list \<Rightarrow> u8 list \<Rightarrow> bool \<Rightarrow> u8 list \<Rightarrow> nat \<Rightarrow> 'a fs_st_scheme
    \<Rightarrow> ((nat option \<times> u8 list) \<times> 'a fs_st_scheme) res" where
  "namex_loop devsw path par name ip s =
     (case skipelem path name of
        None \<Rightarrow>
          if par then bind_res (iput ip s) (\<lambda>s. Inr ((None, name), s)) else Inr ((Some ip, name), s)
      | Some (path, name) \<Rightarrow>
          bind_res (ilock (Some ip) s) (\<lambda>s.
          if itype (inodes s ! ip) \<noteq> T_DIR then bind_res (iunlockput ip s) (\<lambda>s. Inr ((None, name), s))
          else if par \<and> path = [] then bind_res (iunlock (Some ip) s) (\<lambda>s. Inr ((Some ip, name), s))
          else
            bind_res (dirlookup devsw ip name s) (\<lambda>(found, s).
            case found of
              None \<Rightarrow> bind_res (iunlockput ip s) (\<lambda>s. Inr ((None, name), s))
            | Some (nxt, _) \<Rightarrow> bind_res (iunlockput ip s) (\<lambda>s. namex_loop devsw path par name nxt s))))"
  by pat_completeness auto
termination
  by (relation "measure (\<lambda>(devsw, path, par, name, ip, s). length path)") (auto dest: skipelem_shorter)

definition namex :: "('a fs_st_scheme devfns) list \<Rightarrow> nat \<Rightarrow> u8 list \<Rightarrow> bool \<Rightarrow> u8 list \<Rightarrow> 'a fs_st_scheme
    \<Rightarrow> ((nat option \<times> u8 list) \<times> 'a fs_st_scheme) res" where
  "namex devsw cwd path par name s =
     bind_res (if path \<noteq> [] \<and> hd path = slash then iget ROOTDEV ROOTINO s else idup cwd s) (\<lambda>(ip, s).
     namex_loop devsw path par name ip s)"

text \<open>The buffer \<open>name\<close> of \<open>namei\<close> is not initialised; its contents are an argument.\<close>

definition namei :: "('a fs_st_scheme devfns) list \<Rightarrow> nat \<Rightarrow> u8 list \<Rightarrow> u8 list \<Rightarrow> 'a fs_st_scheme \<Rightarrow> (nat option \<times> 'a fs_st_scheme) res" where
  "namei devsw cwd stack path s = bind_res (namex devsw cwd path False stack s) (\<lambda>((r, _), s). Inr (r, s))"

definition nameiparent :: "('a fs_st_scheme devfns) list \<Rightarrow> nat \<Rightarrow> u8 list \<Rightarrow> u8 list \<Rightarrow> 'a fs_st_scheme
    \<Rightarrow> ((nat option \<times> u8 list) \<times> 'a fs_st_scheme) res" where
  "nameiparent devsw cwd path name s = namex devsw cwd path True name s"


subsection \<open>Readiness of devices\<close>

definition readablei :: "('a fs_st_scheme devfns) list \<Rightarrow> nat \<Rightarrow> 'a fs_st_scheme \<Rightarrow> i32" where
  "readablei devsw ip s =
     (if itype (inodes s ! ip) = T_DEV then
        (case dev_row devsw (imajor (inodes s ! ip)) of None \<Rightarrow> -1 | Some dv \<Rightarrow>
         case dev_readable dv of None \<Rightarrow> -1 | Some f \<Rightarrow> f ip s)
      else -1)"

definition writeablei :: "('a fs_st_scheme devfns) list \<Rightarrow> nat \<Rightarrow> 'a fs_st_scheme \<Rightarrow> i32" where
  "writeablei devsw ip s =
     (if itype (inodes s ! ip) = T_DEV then
        (case dev_row devsw (imajor (inodes s ! ip)) of None \<Rightarrow> -1 | Some dv \<Rightarrow>
         case dev_writeable dv of None \<Rightarrow> -1 | Some f \<Rightarrow> f ip s)
      else -1)"

definition selecti :: "('a fs_st_scheme devfns) list \<Rightarrow> nat \<Rightarrow> nat \<Rightarrow> i32 \<Rightarrow> nat \<Rightarrow> 'a fs_st_scheme \<Rightarrow> (i32 \<times> 'a fs_st_scheme) res" where
  "selecti devsw ip p v lk s =
     (if itype (inodes s ! ip) = T_DEV then
        (case dev_row devsw (imajor (inodes s ! ip)) of None \<Rightarrow> Inr (-1, s) | Some dv \<Rightarrow>
         case dev_select dv of None \<Rightarrow> Inr (-1, s) | Some f \<Rightarrow> f ip p v lk s)
      else Inr (-1, s))"

text \<open>\<open>clrseli\<close> tests \<open>select\<close> for null and then calls \<open>clrsel\<close>.\<close>

definition clrseli :: "('a fs_st_scheme devfns) list \<Rightarrow> nat \<Rightarrow> nat \<Rightarrow> i32 \<Rightarrow> 'a fs_st_scheme \<Rightarrow> (i32 \<times> 'a fs_st_scheme) res" where
  "clrseli devsw ip p v s =
     (if itype (inodes s ! ip) = T_DEV then
        (case dev_row devsw (imajor (inodes s ! ip)) of None \<Rightarrow> Inr (-1, s) | Some dv \<Rightarrow>
         case dev_select dv of None \<Rightarrow> Inr (-1, s) | Some _ \<Rightarrow>
           (case dev_clrsel dv of None \<Rightarrow> Inl (Fault ''clrsel'') | Some f \<Rightarrow> f ip p v s))
      else Inr (-1, s))"


section \<open>Path names\<close>

text \<open>The elements of a path: the nonempty pieces between slashes.\<close>

primrec split_slash :: "u8 list \<Rightarrow> u8 list list" where
  "split_slash [] = [[]]"
| "split_slash (c # p) = (if c = slash then [] # split_slash p else (c # hd (split_slash p)) # tl (split_slash p))"

definition path_elems :: "u8 list \<Rightarrow> u8 list list" where
  "path_elems p = filter (\<lambda>e. e \<noteq> []) (split_slash p)"

lemma path_elems_slash [simp]: "path_elems [] = []" "path_elems (slash # p) = path_elems p"
  by (simp_all add: path_elems_def)

lemma path_elems_skip: "path_elems (dropWhile (\<lambda>c. c = slash) p) = path_elems p"
  by (induction p) auto

lemma split_slash_take:
  "split_slash p = takeWhile (\<lambda>c. c \<noteq> slash) p # (case dropWhile (\<lambda>c. c \<noteq> slash) p of [] \<Rightarrow> [] | _ # r \<Rightarrow> split_slash r)"
  by (induction p) auto

lemma path_elems_take:
  assumes "p \<noteq> []" "hd p \<noteq> slash"
  shows "path_elems p = takeWhile (\<lambda>c. c \<noteq> slash) p # path_elems (dropWhile (\<lambda>c. c \<noteq> slash) p)"
proof -
  let ?e = "takeWhile (\<lambda>c. c \<noteq> slash) p" and ?r = "dropWhile (\<lambda>c. c \<noteq> slash) p"
  have e: "?e \<noteq> []" using assms by (cases p) auto
  have "filter (\<lambda>e. e \<noteq> []) (case ?r of [] \<Rightarrow> [] | _ # r \<Rightarrow> split_slash r) = path_elems ?r"
  proof (cases ?r)
    case Nil
    show ?thesis unfolding Nil by (simp add: path_elems_def)
  next
    case (Cons c r)
    then have "c = slash" using hd_dropWhile [of "\<lambda>c. c \<noteq> slash" p] by (metis list.distinct(1) list.sel(1))
    then show ?thesis unfolding Cons by (simp add: path_elems_def)
  qed
  then show ?thesis using e split_slash_take [of p] by (simp add: path_elems_def)
qed

lemma name_of_elem:
  assumes "length name = DIRSIZ" "0 \<notin> set e"
  defines "nm \<equiv> if length e \<ge> DIRSIZ then splice name 0 (take DIRSIZ e) else splice (splice name 0 e) (length e) [0]"
  shows "length nm = DIRSIZ \<and> takeWhile (\<lambda>c. c \<noteq> 0) nm = take DIRSIZ e"
proof -
  have z: "takeWhile (\<lambda>c. c \<noteq> 0) (take k e) = take k e" for k
    using assms(2) in_set_takeD [of 0 k e] by (auto simp: takeWhile_eq_all_conv)
  show ?thesis
  proof (cases "length e \<ge> DIRSIZ")
    case True
    then show ?thesis using assms(1) z [of DIRSIZ] by (simp add: nm_def splice_def)
  next
    case False
    then have "nm = e @ 0 # drop (Suc (length e)) name"
      using assms(1) by (simp add: nm_def splice_def)
    then show ?thesis using False assms(1) z [of "length e"] by (simp add: takeWhile_append)
  qed
qed

text \<open>
  C39: path parsing. \<open>skipelem\<close> returns null exactly when the path has no element left; otherwise it removes
  the first element, copies it to the name buffer cut to \<open>DIRSIZ\<close> bytes, and leaves a path with the
  remaining elements that is empty or starts with an element.
\<close>

theorem skipelem_first_element:
  assumes "length name = DIRSIZ" "0 \<notin> set path"
  shows "case skipelem path name of
       None \<Rightarrow> path_elems path = []
     | Some (path', name') \<Rightarrow> path_elems path = hd (path_elems path) # path_elems path' \<and> length name' = DIRSIZ
         \<and> takeWhile (\<lambda>c. c \<noteq> 0) name' = take DIRSIZ (hd (path_elems path)) \<and> 0 \<notin> set path'
         \<and> (path' = [] \<or> hd path' \<noteq> slash)"
proof -
  define p where "p = dropWhile (\<lambda>c. c = slash) path"
  have el: "path_elems path = path_elems p" by (simp add: p_def path_elems_skip)
  show ?thesis
  proof (cases "p = []")
    case True
    then have "path_elems path = []" using el by simp
    with True show ?thesis by (simp add: skipelem_def Let_def p_def [symmetric])
  next
    case False
    define e where "e = takeWhile (\<lambda>c. c \<noteq> slash) p"
    define q where "q = dropWhile (\<lambda>c. c = slash) (dropWhile (\<lambda>c. c \<noteq> slash) p)"
    define nm where "nm = (if length e \<ge> DIRSIZ then splice name 0 (take DIRSIZ e) else splice (splice name 0 e) (length e) [0])"
    have "hd p \<noteq> slash" using False hd_dropWhile [of "\<lambda>c. c = slash" path] unfolding p_def by blast
    then have "path_elems p = e # path_elems q"
      using path_elems_take [OF False] by (simp add: e_def q_def path_elems_skip)
    moreover have "set p \<subseteq> set path" by (auto simp: p_def dest: set_dropWhileD)
    then have "0 \<notin> set e" "0 \<notin> set q" using assms(2) by (auto simp: e_def q_def dest: set_takeWhileD set_dropWhileD)
    moreover have "q = [] \<or> hd q \<noteq> slash"
      using hd_dropWhile [of "\<lambda>c. c = slash" "dropWhile (\<lambda>c. c \<noteq> slash) p"] unfolding q_def by blast
    moreover have "skipelem path name = Some (q, nm)"
      using False by (simp add: skipelem_def Let_def p_def [symmetric] e_def [symmetric] q_def [symmetric] nm_def)
    ultimately show ?thesis using el name_of_elem [OF assms(1), of e] by (simp add: nm_def)
  qed
qed

theorem skipelem_first_element_witness:
  "\<exists>name'. skipelem [47, 97, 47, 98] (replicate 14 7) = Some ([98], name') \<and> takeWhile (\<lambda>c. c \<noteq> 0) name' = [97]"
  using skipelem_first_element [of "replicate 14 7" "[47, 97, 47, 98]"]
  by (simp add: skipelem_def Let_def DIRSIZ_def path_elems_def)

end
