(* ===== verification/FsBlocks.thy ===== *)
theory FsBlocks
  imports Fs
begin

text \<open>
  The file system inside a transaction: what reading a block and rewriting a block through the log
  do to the contents, and from these the block allocator (\<open>bzero\<close>, \<open>balloc\<close>, \<open>bfree\<close>) and the
  disk copies of the inodes (\<open>iupdate\<close>, \<open>ilock\<close>).
\<close>

section \<open>Reading and rewriting a block in a transaction\<close>

definition in_trans :: "'a log_st_scheme \<Rightarrow> nat \<Rightarrow> bool" where
  "in_trans s n \<longleftrightarrow> log_open s n \<and> 1 \<le> sint (outstanding s)"

text \<open>The number of blocks a transaction may log.\<close>

definition log_cap :: "'a log_st_scheme \<Rightarrow> int" where
  "log_cap s = min (int LOGSIZE) (sint (lsize s - 1))"

definition log_frame :: "'a log_st_scheme \<Rightarrow> 'a log_st_scheme \<Rightarrow> bool" where
  "log_frame s t \<longleftrightarrow> lstart t = lstart s \<and> lsize t = lsize s \<and> outstanding t = outstanding s \<and> ldev t = ldev s
     \<and> disksize t = disksize s \<and> log_st.more t = log_st.more s"

definition room :: "'a bio_st_scheme \<Rightarrow> u32 \<Rightarrow> bool" where
  "room s b \<longleftrightarrow> b < disksize s \<and> b \<notin> held s \<and> (b \<in> pinned s \<or> card (held s \<union> pinned s) < NBUF)"

text \<open>The contents, the held and the pinned blocks after a step.\<close>

definition stepped :: "'a log_st_scheme \<Rightarrow> 'a log_st_scheme \<Rightarrow> (u32 \<Rightarrow> u8 list) \<Rightarrow> u32 set \<Rightarrow> bool" where
  "stepped s t v p \<longleftrightarrow> bview t = v \<and> held t = held s \<and> pinned t = p \<and> log_frame s t"

lemma log_frame_refl [simp]: "log_frame s s" by (simp add: log_frame_def)

lemma log_frame_trans: "log_frame s t \<Longrightarrow> log_frame t u \<Longrightarrow> log_frame s u"
  by (simp add: log_frame_def)

lemma bio_log_frame: "bio_frame s t \<Longrightarrow> log_frame s t"
  using bio_frame_log [of s t] by (simp add: log_frame_def)

lemma log_frame_fs:
  fixes s t :: "'a fs_st_scheme"
  assumes "log_frame s t"
  shows "sb t = sb s" "icache_lock t = icache_lock s" "inodes t = inodes s" "lstart t = lstart s" "disksize t = disksize s"
    "fs_st.more t = fs_st.more s"
  using assms by (cases s; cases t; simp add: log_frame_def)+

lemma log_open_bio:
  fixes s t :: "'a log_st_scheme"
  assumes "log_open s n" "bio_inv t" "bio_frame s t" "pinned t = pinned s"
  shows "log_open t n"
  using assms bio_frame_log [OF assms(3)] by (simp add: log_open_def log_geom_def homes_ok_def)

lemma in_trans_bio:
  fixes s t :: "'a log_st_scheme"
  assumes "in_trans s n" "bio_inv t" "bio_frame s t" "pinned t = pinned s"
  shows "in_trans t n"
  using assms bio_frame_log [OF assms(3)] log_open_bio [OF _ assms(2-4)] by (simp add: in_trans_def)

lemma log_write_frame: "log_write i s = Inr t \<Longrightarrow> log_frame s t"
  by (auto simp: log_write_def log_frame_def log_acquire_def log_release_def lock_acquire_def lock_release_def Let_def upd_buf_def
      split: if_splits)

lemma peek_ok:
  fixes s :: "'a log_st_scheme"
  assumes tr: "in_trans s n" and rm: "room s b"
  shows "\<exists>i t u. bread 1 b s = Inr (i, t) \<and> bdata (bufs t ! i) = bview s b \<and> brelse i t = Inr u \<and> log_frame s t
     \<and> in_trans u n \<and> stepped s u (bview s) (pinned s)"
proof -
  have s: "bio_inv s" using tr by (simp add: in_trans_def log_open_def)
  obtain i t where t: "bread 1 b s = Inr (i, t)" "bio_inv t" "holds t i b" "held t = insert b (held s)" "pinned t = pinned s"
    "bview t = bview s" "disk t = disk s" "bio_frame s t"
    using bread_ok [OF s] rm unfolding room_def by blast
  have "b \<in> pinned t \<or> bview t b = disk t b"
    using bview_disk [OF s, of b] rm t(5-7) by (auto simp: room_def)
  then obtain u where u: "brelse i t = Inr u" "bio_inv u" "bview u = bview t" "held u = held t - {b}" "pinned u = pinned t"
    "bio_frame t u"
    using brelse_ok [OF t(2,3)] by blast
  have fr: "bio_frame s u" using t(8) u(6) by (simp add: bio_frame_def)
  have "held u = held s" using u(4) t(4) rm by (auto simp: room_def)
  then have "stepped s u (bview s) (pinned s)" using u(3,5) t(5,6) bio_log_frame [OF fr] by (simp add: stepped_def)
  moreover have "in_trans u n" using in_trans_bio [OF tr u(2) fr] u(5) t(5) by simp
  ultimately show ?thesis using t(1) holds_ok(5) [OF t(2,3)] t(6) u(1) bio_log_frame [OF t(8)] by auto
qed

definition grow :: "'a bio_st_scheme \<Rightarrow> u32 \<Rightarrow> nat \<Rightarrow> nat" where
  "grow s b n = (if b \<in> pinned s then n else n + 1)"

lemma relog_ok:
  fixes s :: "'a log_st_scheme"
  assumes tr: "in_trans s n" and h: "holds s i b" and d: "length d = BSIZE" and n: "int n < log_cap s"
    and b: "b \<notin> log_area (lstart s)"
  shows "\<exists>u w. log_write i (set_data i d s) = Inr u \<and> brelse i u = Inr w \<and> in_trans w (grow s b n)
     \<and> bview w = (bview s)(b := d) \<and> held w = held s - {b} \<and> pinned w = insert b (pinned s) \<and> log_frame s w
     \<and> log_frame s u \<and> in_trans u (grow s b n) \<and> bview u = (bview s)(b := d) \<and> holds u i b"
proof -
  have s: "log_open s n" "bio_inv s" using tr by (simp_all add: in_trans_def log_open_def)
  define p where "p = set_data i d s"
  have p: "bio_inv p" "bview p = (bview s)(b := d)" "held p = held s" "pinned p = pinned s" "bio_frame s p" "holds p i b"
    using set_data_ok [OF s(2) h d] h by (simp_all add: p_def)
  have pt: "in_trans p n" by (rule in_trans_bio [OF tr p(1,5,4)])
  have po: "log_open p n" "1 \<le> sint (outstanding p)" "int n < sint (lsize p - 1)" "n < LOGSIZE"
    using pt n bio_frame_log(3) [OF p(5)] by (simp_all add: in_trans_def log_cap_def)
  have pa: "b \<notin> log_area (lstart p)" using b bio_frame_log(2) [OF p(5)] by simp
  obtain u where u: "log_write i p = Inr u" "log_open u (grow s b n)" "pinned u = insert b (pinned s)" "bview u = bview p"
    "held u = held p" "holds u i b"
    using log_write_ok [OF po(1) p(6) pa po(4,3,2)] p(4) unfolding grow_def by auto
  have ui: "bio_inv u" using u(2) by (simp add: log_open_def)
  obtain w where w: "brelse i u = Inr w" "bio_inv w" "bview w = bview u" "held w = held u - {b}" "pinned w = pinned u" "bio_frame u w"
    using brelse_ok [OF ui u(6)] u(3) by auto
  have fu: "log_frame s u" using log_frame_trans [OF bio_log_frame [OF p(5)] log_write_frame [OF u(1)]] .
  then have tu: "in_trans u (grow s b n)" using tr u(2) by (simp add: in_trans_def log_frame_def)
  have "in_trans w (grow s b n)" by (rule in_trans_bio [OF tu w(2,6,5)])
  moreover have "log_frame s w" by (rule log_frame_trans [OF fu bio_log_frame [OF w(6)]])
  ultimately show ?thesis using u w p fu tu unfolding p_def by (intro exI [of _ u] exI [of _ w]) simp
qed

lemma rewrite_ok:
  fixes s :: "'a log_st_scheme"
  assumes tr: "in_trans s n" and rm: "room s b" and n: "int n < log_cap s" and b: "b \<notin> log_area (lstart s)" and d: "length d = BSIZE"
  shows "\<exists>i t u w. bread 1 b s = Inr (i, t) \<and> bdata (bufs t ! i) = bview s b \<and> log_frame s t
     \<and> log_write i (set_data i d t) = Inr u \<and> brelse i u = Inr w
     \<and> in_trans w (grow s b n) \<and> stepped s w ((bview s)(b := d)) (insert b (pinned s))"
proof -
  have s: "bio_inv s" using tr by (simp add: in_trans_def log_open_def)
  obtain i t where t: "bread 1 b s = Inr (i, t)" "bio_inv t" "holds t i b" "held t = insert b (held s)" "pinned t = pinned s"
    "bview t = bview s" "disk t = disk s" "bio_frame s t"
    using bread_ok [OF s] rm unfolding room_def by blast
  have tt: "in_trans t n" by (rule in_trans_bio [OF tr t(2,8,5)])
  have bt: "b \<notin> log_area (lstart t)" using b bio_frame_log(2) [OF t(8)] by simp
  have nt: "int n < log_cap t" using n bio_frame_log(3) [OF t(8)] by (simp add: log_cap_def)
  have g: "grow t b n = grow s b n" using t(5) by (simp add: grow_def)
  have h: "held t - {b} = held s" using t(4) rm by (auto simp: room_def)
  obtain u w where uw: "log_write i (set_data i d t) = Inr u" "brelse i u = Inr w" "in_trans w (grow s b n)"
      "stepped s w ((bview s)(b := d)) (insert b (pinned s))"
    using relog_ok [OF tt t(3) d nt bt] log_frame_trans [OF bio_log_frame [OF t(8)]] unfolding stepped_def g h t(5,6) by blast
  have "bdata (bufs t ! i) = bview s b" using holds_ok(5) [OF t(2,3)] t(6) by simp
  then show ?thesis using t(1) bio_log_frame [OF t(8)] uw by blast
qed


section \<open>The free map\<close>

lemma bit_free_bit: "bit_free d k \<longleftrightarrow> \<not> bit (d ! (k div 8)) (k mod 8)"
  by (simp add: bit_free_def push_bit_eq_mult and_exp_eq_0_iff_not_bit)

lemma bit_one_push: "bit (2 ^ k :: u8) m \<longleftrightarrow> m = k \<and> k < 8"
  by (auto simp: bit_exp_iff)

lemma div_mod_8: "(k :: nat) div 8 = j div 8 \<Longrightarrow> k mod 8 = j mod 8 \<Longrightarrow> k = j"
  by (metis div_mult_mod_eq)

lemma bit_free_mark:
  assumes "k < 8 * length d"
  shows "bit_free (bit_mark d k) j \<longleftrightarrow> bit_free d j \<and> j \<noteq> k"
proof (cases "j div 8 = k div 8")
  case True
  then have "bit_mark d k ! (j div 8) = d ! (j div 8) OR push_bit (k mod 8) 1"
    using assms by (simp add: bit_mark_def less_mult_imp_div_less mult.commute)
  then show ?thesis using div_mod_8 [of j k] True by (auto simp: bit_free_bit bit_or_iff bit_one_push)
next
  case False
  then show ?thesis by (auto simp: bit_mark_def bit_free_bit)
qed

lemma bit_free_clear:
  assumes "k < 8 * length d"
  shows "bit_free (bit_clear d k) j \<longleftrightarrow> bit_free d j \<or> j = k"
proof (cases "j div 8 = k div 8")
  case True
  then have "bit_clear d k ! (j div 8) = d ! (j div 8) AND NOT (push_bit (k mod 8) 1)"
    using assms by (simp add: bit_clear_def less_mult_imp_div_less mult.commute)
  then show ?thesis using div_mod_8 [of j k] True
    by (auto simp: bit_free_bit bit_and_iff bit_not_iff bit_one_push)
next
  case False
  then show ?thesis by (auto simp: bit_clear_def bit_free_bit)
qed

lemma length_bit_ops [simp]: "length (bit_mark d k) = length d" "length (bit_clear d k) = length d"
  by (simp_all add: bit_mark_def bit_clear_def)

definition marked :: "'a fs_st_scheme \<Rightarrow> u32 \<Rightarrow> bool" where
  "marked s b \<longleftrightarrow> \<not> bit_free (bview s (BBLOCK b (sb s))) (unat b mod BPB)"

text \<open>
  The layout the allocator relies on: the map lies on the disk outside the log, and the blocks that
  hold the log or the map, or that somebody holds, are marked.
\<close>

definition map_ok :: "'a fs_st_scheme \<Rightarrow> bool" where
  "map_ok s \<longleftrightarrow> sb_size (sb s) \<le> disksize s
     \<and> (\<forall>b < sb_size (sb s). BBLOCK b (sb s) < disksize s \<and> BBLOCK b (sb s) \<notin> log_area (lstart s) \<and> BBLOCK b (sb s) \<notin> held s)
     \<and> (\<forall>b < sb_size (sb s). \<not> marked s b \<longrightarrow> b \<notin> log_area (lstart s) \<and> b \<notin> held s
          \<and> (\<forall>c < sb_size (sb s). b \<noteq> BBLOCK c (sb s)))"

lemma BPB_pos [simp]: "0 < BPB" by (simp add: BPB_def BSIZE_def)

lemma unat_of_nat32: "c < 2 ^ 32 \<Longrightarrow> unat (of_nat c :: u32) = c"
  by (simp add: unat_of_nat)

lemma bblock_of_nat:
  assumes "c < 2 ^ 32"
  shows "BBLOCK (of_nat c) x = of_nat (c div BPB) + sb_bmapstart x" "unat (of_nat c :: u32) mod BPB = c mod BPB"
proof -
  have "unat (of_nat c :: u32) = c" using assms by (simp add: unat_of_nat)
  then show "unat (of_nat c :: u32) mod BPB = c mod BPB" by simp
  have "(of_nat c :: u32) div of_nat BPB = of_nat (c div BPB)"
    using assms by (intro word_unat_eq_iff [THEN iffD2]) (simp add: unat_div unat_of_nat div_le_dividend order_le_less_trans BPB_def BSIZE_def)
  then show "BBLOCK (of_nat c) x = of_nat (c div BPB) + sb_bmapstart x" by (simp add: BBLOCK_def)
qed

lemma bblock_split:
  fixes b :: u32
  assumes "unat b = BPB * k + j" "j < BPB"
  shows "BBLOCK b x = of_nat k + sb_bmapstart x" "unat b mod BPB = j"
proof -
  have b: "b = of_nat (BPB * k + j)" unfolding assms(1) [symmetric] by simp
  have lt: "BPB * k + j < 2 ^ 32" using assms(1) unat_less_exp32 [of b] by simp
  have "(BPB * k + j) div BPB = k" using assms(2) by simp
  then show "BBLOCK b x = of_nat k + sb_bmapstart x" using bblock_of_nat(1) [OF lt] b by simp
  show "unat b mod BPB = j" using assms by simp
qed


section \<open>The allocator\<close>

lemma bzero_ok:
  fixes s :: "'a log_st_scheme"
  assumes "in_trans s n" "room s b" "int n < log_cap s" "b \<notin> log_area (lstart s)"
  shows "\<exists>t. bzero 1 b s = Inr t \<and> in_trans t (grow s b n) \<and> stepped s t ((bview s)(b := replicate BSIZE 0)) (insert b (pinned s))"
  using rewrite_ok [OF assms length_replicate [of BSIZE 0]] by (auto simp: bzero_def)

text \<open>What the allocator does to the state for the block it returns.\<close>

definition alloc_step :: "'a fs_st_scheme \<Rightarrow> u32 \<Rightarrow> 'a fs_st_scheme \<Rightarrow> bool" where
  "alloc_step s b t \<longleftrightarrow> b < sb_size (sb s) \<and> \<not> marked s b
     \<and> stepped s t ((bview s)(BBLOCK b (sb s) := bit_mark (bview s (BBLOCK b (sb s))) (unat b mod BPB), b := replicate BSIZE 0))
         (insert b (insert (BBLOCK b (sb s)) (pinned s)))"

lemma stepped_trans:
  "stepped s t v p \<Longrightarrow> stepped t u v' p' \<Longrightarrow> stepped s u v' p'"
  using log_frame_trans by (auto simp: stepped_def)

lemma stepped_fs:
  fixes s t :: "'a fs_st_scheme"
  assumes "stepped s t v p"
  shows "sb t = sb s" "inodes t = inodes s" "lstart t = lstart s" "disksize t = disksize s" "held t = held s" "bview t = v" "pinned t = p"
    "icache_lock t = icache_lock s"
  using assms log_frame_fs [of s t] by (simp_all add: stepped_def)

lemma finite_held [simp]: "finite (held s)" "finite (pinned s)"
  by (simp_all add: held_def pinned_def)

lemma card_insert_less: "finite A \<Longrightarrow> card A + 1 < n \<Longrightarrow> card (insert x A) < n"
  using card_insert_le_m1 [of "card A + 1" A x] by (cases "x \<in> A") (simp_all add: insert_absorb)

text \<open>Marking the found bit and clearing the block.\<close>

lemma balloc_found:
  fixes s :: "'a fs_st_scheme"
  assumes tr: "in_trans s n" and mp: "map_ok s" and card: "card (held s \<union> pinned s) + 1 < NBUF" and n: "int n + 1 < log_cap s"
    and b: "b < sb_size (sb s)" "\<not> marked s b"
  shows "\<exists>i t u w x m. bread 1 (BBLOCK b (sb s)) s = Inr (i, t) \<and> bdata (bufs t ! i) = bview s (BBLOCK b (sb s)) \<and> sb t = sb s
     \<and> log_write i (set_data i (bit_mark (bview s (BBLOCK b (sb s))) (unat b mod BPB)) t) = Inr u \<and> brelse i u = Inr w
     \<and> bzero 1 b w = Inr x \<and> alloc_step s b x \<and> in_trans x m \<and> m \<le> n + 2"
proof -
  let ?B = "BBLOCK b (sb s)"
  let ?d = "bit_mark (bview s ?B) (unat b mod BPB)"
  have s: "bio_inv s" using tr by (simp add: in_trans_def log_open_def)
  have B: "?B < disksize s" "?B \<notin> log_area (lstart s)" "?B \<notin> held s" and ne: "b \<noteq> ?B" "b \<notin> log_area (lstart s)" "b \<notin> held s"
    "b < disksize s"
    using mp b by (auto simp: map_ok_def)
  have rB: "room s ?B" using B card by (simp add: room_def)
  have n1: "int n < log_cap s" using n by simp
  have len: "length ?d = BSIZE" using bview_length [OF s B(1)] by simp
  obtain i t u w where t: "bread 1 ?B s = Inr (i, t)" "bdata (bufs t ! i) = bview s ?B" "log_frame s t"
    "log_write i (set_data i ?d t) = Inr u" "brelse i u = Inr w" "in_trans w (grow s ?B n)"
    "stepped s w ((bview s)(?B := ?d)) (insert ?B (pinned s))"
    using rewrite_ok [OF tr rB n1 B(2) len] by blast
  note w = stepped_fs [OF t(7)]
  have "card (insert ?B (held s \<union> pinned s)) < NBUF" using card by (intro card_insert_less) simp_all
  then have rb: "room w b" using ne w by (simp add: room_def)
  have g: "int (grow s ?B n) < log_cap w" using n t(7) by (simp add: grow_def log_cap_def stepped_def log_frame_def)
  obtain x where x: "bzero 1 b w = Inr x" "in_trans x (grow w b (grow s ?B n))"
    "stepped w x ((bview w)(b := replicate BSIZE 0)) (insert b (pinned w))"
    using bzero_ok [OF t(6) rb g] ne(2) w(3) by auto
  have "alloc_step s b x"
    using b stepped_trans [OF t(7) x(3)] w(6,7) by (simp add: alloc_step_def)
  moreover have "grow w b (grow s ?B n) \<le> n + 2" by (simp add: grow_def)
  ultimately show ?thesis using t(1,2,4,5) x(1,2) log_frame_fs(1) [OF t(3)] by blast
qed

text \<open>The scan of one map block stops at the first free bit, or finds none.\<close>

lemma find_upt: "List.find P [0..<n] = Some j \<longleftrightarrow> j < n \<and> P j \<and> (\<forall>i < j. \<not> P i)"
  by (auto simp: find_Some_iff)

lemma find_free:
  fixes s :: "'a fs_st_scheme"
  assumes k: "BPB * k < unat (sb_size (sb s))"
  defines "r \<equiv> List.find (\<lambda>bi. BPB * k + bi < unat (sb_size (sb s)) \<and> bit_free (bview s (BBLOCK (of_nat (BPB * k)) (sb s))) bi) [0..<BPB]"
  shows "r = Some j \<Longrightarrow> j < BPB \<and> of_nat (BPB * k + j) < sb_size (sb s) \<and> \<not> marked s (of_nat (BPB * k + j))
      \<and> BBLOCK (of_nat (BPB * k + j)) (sb s) = BBLOCK (of_nat (BPB * k)) (sb s) \<and> unat (of_nat (BPB * k + j) :: u32) mod BPB = j
      \<and> (\<forall>i < j. marked s (of_nat (BPB * k + i)))"
    and "r = None \<Longrightarrow> i < BPB \<Longrightarrow> BPB * k + i < unat (sb_size (sb s)) \<Longrightarrow> marked s (of_nat (BPB * k + i))"
proof -
  have bb: "BBLOCK (of_nat (BPB * k + i)) (sb s) = BBLOCK (of_nat (BPB * k)) (sb s) \<and> unat (of_nat (BPB * k + i) :: u32) mod BPB = i
      \<and> unat (of_nat (BPB * k + i) :: u32) = BPB * k + i"
    if "i < BPB" "BPB * k + i < unat (sb_size (sb s))" for i
  proof -
    have u: "unat (of_nat (BPB * k + i') :: u32) = BPB * k + i'" if "i' \<le> i" for i'
      using \<open>BPB * k + i < _\<close> that unat_less_exp32 [of "sb_size (sb s)"] by (intro unat_of_nat32) simp
    have u0: "unat (of_nat (BPB * k) :: u32) = BPB * k + 0" using u [of 0] by simp
    show ?thesis
      using bblock_split(1) [OF u [OF order_refl] that(1), of "sb s"] bblock_split(1) [OF u0 BPB_pos, of "sb s"]
        bblock_split(2) [OF u [OF order_refl] that(1)] u [OF order_refl] by simp
  qed
  show "marked s (of_nat (BPB * k + i))" if "r = None" "i < BPB" "BPB * k + i < unat (sb_size (sb s))"
  proof -
    have "\<not> bit_free (bview s (BBLOCK (of_nat (BPB * k)) (sb s))) i"
      using that unfolding r_def find_None_iff by (metis atLeastLessThan_iff le0 set_upt)
    then show ?thesis using bb [OF that(2,3)] unfolding marked_def by metis
  qed
  assume "r = Some j"
  let ?D = "bview s (BBLOCK (of_nat (BPB * k)) (sb s))"
  have q: "j < BPB \<and> (BPB * k + j < unat (sb_size (sb s)) \<and> bit_free ?D j) \<and> (\<forall>i < j. \<not> (BPB * k + i < unat (sb_size (sb s)) \<and> bit_free ?D i))"
    using \<open>r = Some j\<close> unfolding r_def find_upt .
  then have j: "j < BPB" "BPB * k + j < unat (sb_size (sb s))" "bit_free ?D j" by blast+
  have lt: "i < BPB \<and> BPB * k + i < unat (sb_size (sb s))" if "i < j" for i using j(1,2) that by linarith
  have "marked s (of_nat (BPB * k + i))" if "i < j" for i
    using bb [of i] lt [OF that] q that unfolding marked_def by metis
  then show "j < BPB \<and> of_nat (BPB * k + j) < sb_size (sb s) \<and> \<not> marked s (of_nat (BPB * k + j))
      \<and> BBLOCK (of_nat (BPB * k + j)) (sb s) = BBLOCK (of_nat (BPB * k)) (sb s) \<and> unat (of_nat (BPB * k + j) :: u32) mod BPB = j
      \<and> (\<forall>i < j. marked s (of_nat (BPB * k + i)))"
    using bb [OF j(1,2)] j unfolding marked_def word_less_nat_alt by metis
qed

lemma same_view:
  fixes s u :: "'a fs_st_scheme"
  assumes "stepped s u (bview s) (pinned s)"
  shows "marked u = marked s" "map_ok u = map_ok s" "alloc_step u b t = alloc_step s b t"
proof -
  note f = stepped_fs [OF assms]
  show m: "marked u = marked s" by (rule ext) (simp add: marked_def f(1,6))
  show "map_ok u = map_ok s" unfolding map_ok_def m f(1,3-5) ..
  have "log_frame u t = log_frame s t" using assms by (auto simp: stepped_def log_frame_def)
  then show "alloc_step u b t = alloc_step s b t" unfolding alloc_step_def stepped_def m f(1,5-7) by simp
qed

lemma ceil_div: "0 < (B :: nat) \<Longrightarrow> z \<le> B * ((z + B - 1) div B)"
  using mult_div_mod_eq [of B "z + B - 1"] mod_less_divisor [of B "z + B - 1"] by linarith

lemma map_blocks:
  fixes z :: u32
  assumes "k + Suc N = (unat z + BPB - 1) div BPB"
  shows "BPB * k < unat z" "of_nat (BPB * k) < z"
proof -
  have "Suc k \<le> (unat z + BPB - 1) div BPB" using assms by simp
  then have "BPB * Suc k \<le> BPB * ((unat z + BPB - 1) div BPB)" by (rule mult_le_mono2)
  also have "\<dots> \<le> unat z + BPB - 1" by simp
  finally show *: "BPB * k < unat z" using BPB_pos by (simp only: mult_Suc_right)
  then have "unat (of_nat (BPB * k) :: u32) = BPB * k" using unat_less_exp32 [of z] by (intro unat_of_nat32) simp
  with * show "of_nat (BPB * k) < z" by (simp only: word_less_nat_alt)
qed

text \<open>The blocks a scan up to map block \<open>k\<close> has seen.\<close>

definition seen :: "'a fs_st_scheme \<Rightarrow> nat \<Rightarrow> bool" where
  "seen s k \<longleftrightarrow> (\<forall>c < sb_size (sb s). unat c < k \<longrightarrow> marked s c)"

lemma seen_more:
  assumes "seen s (BPB * k)" "\<forall>i < j. BPB * k + i < unat (sb_size (sb s)) \<longrightarrow> marked s (of_nat (BPB * k + i))"
  shows "seen s (BPB * k + j)"
  unfolding seen_def
proof (intro allI impI)
  fix c assume c: "c < sb_size (sb s)" "unat c < BPB * k + j"
  show "marked s c"
  proof (cases "unat c < BPB * k")
    case True
    then show ?thesis using assms(1) c(1) by (simp add: seen_def)
  next
    case False
    then obtain i where i: "unat c = BPB * k + i" using nat_le_iff_add [of "BPB * k" "unat c"] by auto
    then have "marked s (of_nat (unat c))" using assms(2) c unfolding word_less_nat_alt by (metis nat_add_left_cancel_less)
    then show ?thesis by simp
  qed
qed

lemma balloc_loop_ok:
  fixes s :: "'a fs_st_scheme"
  assumes "in_trans s n" "map_ok s" "card (held s \<union> pinned s) + 1 < NBUF" "int n + 1 < log_cap s"
    and "k + N = (unat (sb_size (sb s)) + BPB - 1) div BPB" "seen s (BPB * k)"
  shows "(\<exists>b t m. balloc_loop 1 k N s = Inr (b, t) \<and> alloc_step s b t \<and> in_trans t m \<and> m \<le> n + 2 \<and> (\<forall>c < b. marked s c))
     \<or> balloc_loop 1 k N s = Inl (Panic ''balloc: out of blocks'') \<and> (\<forall>c < sb_size (sb s). marked s c)"
  using assms
proof (induction N arbitrary: k s)
  case 0
  have "unat (sb_size (sb s)) \<le> BPB * k" using ceil_div [OF BPB_pos, of "unat (sb_size (sb s))"] 0(5) by simp
  then have "marked s c" if "c < sb_size (sb s)" for c using 0(6) that by (simp add: seen_def word_less_nat_alt)
  then show ?case by simp
next
  case (Suc N)
  let ?z = "sb_size (sb s)" and ?B = "BBLOCK (of_nat (BPB * k)) (sb s)"
  note k = map_blocks [OF Suc.prems(5)]
  show ?case
  proof (cases "List.find (\<lambda>bi. BPB * k + bi < unat ?z \<and> bit_free (bview s ?B) bi) [0..<BPB]")
    case (Some j)
    note f = find_free(1) [OF k(1) Some]
    define b :: u32 where "b = of_nat (BPB * k + j)"
    have b: "b < ?z" "\<not> marked s b" "BBLOCK b (sb s) = ?B" "unat b mod BPB = j" "\<forall>i < j. marked s (of_nat (BPB * k + i))"
      using f unfolding b_def by blast+
    obtain i t u w x m where x: "bread 1 ?B s = Inr (i, t)" "bdata (bufs t ! i) = bview s ?B" "sb t = sb s"
      "log_write i (set_data i (bit_mark (bview s ?B) j) t) = Inr u" "brelse i u = Inr w" "bzero 1 b w = Inr x"
      "alloc_step s b x" "in_trans x m" "m \<le> n + 2"
      using balloc_found [OF Suc.prems(1-4) b(1,2)] unfolding b(3,4) by blast
    have "balloc_loop 1 k (Suc N) s = Inr (b, x)"
      using x Some by (simp add: Let_def b_def del: of_nat_add of_nat_mult)
    moreover have "marked s c" if "c < b" for c
    proof -
      have "unat b \<le> BPB * k + j" unfolding b_def by (metis unat_of_nat mod_less_eq_dividend)
      then have "unat c < BPB * k + j" using that by (simp only: word_less_nat_alt)
      moreover have "c < ?z" using that b(1) by simp
      moreover have "seen s (BPB * k + j)" by (rule seen_more [OF Suc.prems(6)]) (use b(5) in blast)
      ultimately show ?thesis by (simp add: seen_def)
    qed
    ultimately show ?thesis using x(7-9) by blast
  next
    case None
    have rm: "room s ?B" using Suc.prems(2,3) k(2) by (simp add: map_ok_def room_def)
    obtain i t u where t: "bread 1 ?B s = Inr (i, t)" "bdata (bufs t ! i) = bview s ?B" "brelse i t = Inr u" "log_frame s t"
      "in_trans u n" "stepped s u (bview s) (pinned s)"
      using peek_ok [OF Suc.prems(1) rm] by blast
    have r: "balloc_loop 1 k (Suc N) s = balloc_loop 1 (Suc k) N u"
      using t(1-3) None log_frame_fs(1) [OF t(4)] by (simp add: Let_def del: of_nat_add of_nat_mult)
    note v = same_view [OF t(6)] and g = stepped_fs [OF t(6)]
    have "seen s (BPB * k + BPB)"
      by (rule seen_more [OF Suc.prems(6)]) (use find_free(2) [OF k(1) None] in blast)
    then have "seen u (BPB * Suc k)" unfolding seen_def v(1) g(1) by (simp only: mult_Suc_right add.commute)
    moreover have "map_ok u" "card (held u \<union> pinned u) + 1 < NBUF" "Suc k + N = (unat (sb_size (sb u)) + BPB - 1) div BPB"
      using Suc.prems(2,3,5) unfolding v(2) g(1,5,7) by simp_all
    moreover have "int n + 1 < log_cap u" using Suc.prems(4) t(6) by (simp add: log_cap_def stepped_def log_frame_def)
    ultimately show ?thesis using Suc.IH [OF t(5)] unfolding r v g(1) by blast
  qed
qed

lemma bblock_inj:
  assumes "BBLOCK b x = BBLOCK c x" "unat b mod BPB = unat c mod BPB"
  shows "b = c"
proof -
  have "b div of_nat BPB = c div of_nat BPB" using assms(1) by (simp add: BBLOCK_def)
  then have "unat (b div of_nat BPB) = unat (c div of_nat BPB)" by simp
  then have "unat b div BPB = unat c div BPB" by (simp add: unat_div unat_of_nat BPB_def BSIZE_def)
  with assms(2) have "unat b = unat c" by (metis div_mult_mod_eq)
  then show ?thesis by (simp only: word_unat_eq_iff)
qed

lemma map_bits:
  fixes s :: "'a fs_st_scheme"
  assumes "bio_inv s" "BBLOCK b (sb s) < disksize s"
  shows "unat b mod BPB < 8 * length (bview s (BBLOCK b (sb s)))"
  using bview_length [OF assms] by (simp add: BPB_def BSIZE_def)

lemma alloc_marks:
  fixes s :: "'a fs_st_scheme"
  assumes a: "alloc_step s b t" and mp: "map_ok s" and inv: "bio_inv s" and c: "c < sb_size (sb s)"
  shows "marked t c \<longleftrightarrow> marked s c \<or> c = b"
proof -
  let ?B = "BBLOCK b (sb s)"
  have b: "b < sb_size (sb s)" "\<not> marked s b" and st: "sb t = sb s"
    "bview t = (bview s)(?B := bit_mark (bview s ?B) (unat b mod BPB), b := replicate BSIZE 0)"
    using a stepped_fs(1,6) unfolding alloc_step_def by blast+
  have ne: "BBLOCK c (sb s) \<noteq> b" "?B < disksize s" using mp b c by (auto simp: map_ok_def)
  show ?thesis
  proof (cases "BBLOCK c (sb s) = ?B")
    case True
    with ne(1) show ?thesis
      using bit_free_mark [OF map_bits [OF inv ne(2)]] bblock_inj [OF True] by (auto simp: marked_def st)
  next
    case False
    with ne(1) show ?thesis by (auto simp: marked_def st)
  qed
qed

lemma balloc_ok:
  fixes s :: "'a fs_st_scheme"
  assumes tr: "in_trans s n" and mp: "map_ok s" and rest: "card (held s \<union> pinned s) + 1 < NBUF" "int n + 1 < log_cap s"
  shows "(\<exists>b t m. balloc 1 s = Inr (b, t) \<and> b < sb_size (sb s) \<and> \<not> marked s b \<and> (\<forall>c < b. marked s c)
        \<and> (\<forall>c < sb_size (sb s). marked t c \<longleftrightarrow> marked s c \<or> c = b)
        \<and> bview t b = replicate BSIZE 0 \<and> (\<forall>c. c \<noteq> b \<and> c \<noteq> BBLOCK b (sb s) \<longrightarrow> bview t c = bview s c)
        \<and> in_trans t m \<and> m \<le> n + 2 \<and> held t = held s \<and> log_frame s t)
     \<or> balloc 1 s = Inl (Panic ''balloc: out of blocks'') \<and> (\<forall>c < sb_size (sb s). marked s c)"
proof -
  have inv: "bio_inv s" using tr by (simp add: in_trans_def log_open_def)
  have "seen s (BPB * 0)" by (simp add: seen_def)
  then consider b t m where "balloc 1 s = Inr (b, t)" "alloc_step s b t" "in_trans t m" "m \<le> n + 2" "\<forall>c < b. marked s c"
    | "balloc 1 s = Inl (Panic ''balloc: out of blocks'') \<and> (\<forall>c < sb_size (sb s). marked s c)"
    using balloc_loop_ok [OF assms add_0] unfolding balloc_def by blast
  then show ?thesis
  proof cases
    case 1
    have st: "b < sb_size (sb s)" "\<not> marked s b" "held t = held s" "log_frame s t" "bview t b = replicate BSIZE 0"
      "\<forall>c. c \<noteq> b \<and> c \<noteq> BBLOCK b (sb s) \<longrightarrow> bview t c = bview s c"
      using 1(2) by (auto simp: alloc_step_def stepped_def)
    then show ?thesis using 1 alloc_marks [OF 1(2) mp inv] by blast
  qed blast
qed


subsection \<open>Freeing\<close>

lemma readsb_ok:
  fixes s :: "'a log_st_scheme"
  assumes "in_trans s n" "room s 1"
  shows "\<exists>t. readsb 1 s = Inr (superblock_of (bview s 1), t) \<and> in_trans t n \<and> stepped s t (bview s) (pinned s)"
  using peek_ok [OF assms] by (auto simp: readsb_def Let_def)

lemma stepped_more:
  fixes s t :: "'a fs_st_scheme"
  assumes "stepped s t v p" "x = sb s"
  shows "t\<lparr>sb := x\<rparr> = t"
  using stepped_fs(1) [OF assms(1)] assms(2) by (cases t) simp

lemma bfree_ok:
  fixes s :: "'a fs_st_scheme"
  assumes tr: "in_trans s n" and mp: "map_ok s" and card: "card (held s \<union> pinned s) < NBUF" and n: "int n < log_cap s"
    and sup: "superblock_of (bview s 1) = sb s" "1 < disksize s" "1 \<notin> held s" and b: "b < sb_size (sb s)"
  shows "if marked s b then (\<exists>t m. bfree 1 b s = Inr t \<and> (\<forall>c < sb_size (sb s). marked t c \<longleftrightarrow> marked s c \<and> c \<noteq> b)
        \<and> (\<forall>c. c \<noteq> BBLOCK b (sb s) \<longrightarrow> bview t c = bview s c) \<and> in_trans t m \<and> m \<le> n + 1 \<and> held t = held s \<and> log_frame s t)
     else bfree 1 b s = Inl (Panic ''freeing free block'')"
proof -
  let ?B = "BBLOCK b (sb s)" and ?k = "unat b mod BPB"
  have r1: "room s 1" using sup card by (simp add: room_def)
  obtain r where r: "readsb 1 s = Inr (sb s, r)" "in_trans r n" "stepped s r (bview s) (pinned s)"
    using readsb_ok [OF tr r1] sup(1) by auto
  note rs = stepped_fs [OF r(3)]
  have inv: "bio_inv r" "bio_inv s" using r(2) tr by (simp_all add: in_trans_def log_open_def)
  have B: "?B < disksize r" "?B \<notin> log_area (lstart r)" "room r ?B"
    using mp b card by (simp_all add: map_ok_def rs room_def)
  have nr: "int n < log_cap r" using n r(3) by (simp add: log_cap_def stepped_def log_frame_def)
  have len: "length (bit_clear (bview s ?B) ?k) = BSIZE" using bview_length [OF inv(1) B(1)] rs by simp
  obtain i t u w where t: "bread 1 ?B r = Inr (i, t)" "bdata (bufs t ! i) = bview r ?B" "log_frame r t"
    "log_write i (set_data i (bit_clear (bview s ?B) ?k) t) = Inr u" "brelse i u = Inr w" "in_trans w (grow r ?B n)"
    "stepped r w ((bview r)(?B := bit_clear (bview s ?B) ?k)) (insert ?B (pinned r))"
    using rewrite_ok [OF r(2) B(3) nr B(2) len] by blast
  have run: "bfree 1 b s = (if marked s b then Inr w else Inl (Panic ''freeing free block''))"
    using r(1) t(1,2,4,5) rs(1,6) by (simp add: bfree_def Let_def marked_def stepped_more [OF r(3) refl])
  have w: "stepped s w ((bview s)(?B := bit_clear (bview s ?B) ?k)) (insert ?B (pinned s))"
    using stepped_trans [OF r(3) t(7)] rs by simp
  note ws = stepped_fs [OF w]
  have "marked w c \<longleftrightarrow> marked s c \<and> c \<noteq> b" if "c < sb_size (sb s)" for c
    using bit_free_clear [OF map_bits [OF inv(2)], of b] B(1) rs(4) bblock_inj [of c "sb s" b] by (auto simp: marked_def ws)
  moreover have "grow r ?B n \<le> n + 1" by (simp add: grow_def)
  moreover have "log_frame s w" using w by (simp add: stepped_def)
  ultimately show ?thesis using run t(6) ws(5,6) by auto
qed


section \<open>A small file system\<close>

lemma length_words [simp]: "length (concat (map bytes_of_u32 xs)) = 4 * length xs"
  by (induction xs) simp_all

lemma nth_words:
  "i < length xs \<Longrightarrow> c < 4 \<Longrightarrow> concat (map bytes_of_u32 xs) ! (4 * i + c) = bytes_of_u32 (xs ! i) ! c"
proof (induction xs arbitrary: i)
  case (Cons x xs)
  then show ?case by (cases i) (simp_all add: nth_append add.assoc)
qed simp

lemma word_at_words:
  assumes "i < length xs"
  shows "word_at (concat (map bytes_of_u32 xs)) i = xs ! i"
  using nth_words [OF assms, of 0] nth_words [OF assms, of 1] nth_words [OF assms, of 2] nth_words [OF assms, of 3]
  by (simp add: word_at_def bytes_of_u32_def u32_of_bytes_of_u32 numeral_2_eq_2 numeral_3_eq_3)

lemma word_at_left: "4 * k + 3 < length xs \<Longrightarrow> word_at (xs @ ys) k = word_at xs k"
  by (simp add: word_at_def nth_append)

text \<open>
  A disk of 100 blocks: the superblock, a log of 30 blocks from block 2, inodes from block 34, the map
  in block 40 with the first 48 blocks marked.
\<close>

definition fs_disk :: "u32 \<Rightarrow> u8 list" where
  "fs_disk b =
     (if b = 1 then concat (map bytes_of_u32 [100, 50, 8, 30, 2, 34, 40]) @ replicate (BSIZE - 28) 0
      else if b = 40 then replicate 6 255 @ replicate (BSIZE - 6) 0
      else replicate BSIZE 0)"

definition small_fs :: "inode list \<Rightarrow> fs_st" where
  "small_fs is =
     log_st.extend ((boot fs_disk 100)\<lparr>lstart := 2, lsize := 30, ldev := 1, outstanding := 1, lh_n := 0\<rparr>)
       \<lparr>sb = \<lparr>sb_size = 100, sb_nblocks = 50, sb_ninodes = 8, sb_nlog = 30, sb_logstart = 2, sb_inodestart = 34, sb_bmapstart = 40\<rparr>,
        icache_lock = False, inodes = is\<rparr>"

lemma fs_disk_facts:
  "\<forall>b < sz. length (fs_disk b) = BSIZE" "superblock_of (fs_disk 1) = sb (small_fs is)"
proof -
  show "\<forall>b < sz. length (fs_disk b) = BSIZE" by (simp add: fs_disk_def BSIZE_def bytes_of_u32_def)
  define ws :: "u32 list" where "ws = [100, 50, 8, 30, 2, 34, 40]"
  have "fs_disk 1 = concat (map bytes_of_u32 ws) @ replicate (BSIZE - 28) 0" by (simp add: fs_disk_def ws_def)
  moreover have "length ws = 7" by (simp add: ws_def)
  ultimately have "word_at (fs_disk 1) k = ws ! k" if "k < 7" for k
    using that by (simp add: word_at_left word_at_words)
  then show "superblock_of (fs_disk 1) = sb (small_fs is)"
    by (simp add: superblock_of_def small_fs_def log_st.defs) (simp add: ws_def)
qed

lemma extend_facts [simp]:
  fixes s :: log_st
  shows "bio_inv (log_st.extend s x) = bio_inv s" "held (log_st.extend s x) = held s" "pinned (log_st.extend s x) = pinned s"
    "bview (log_st.extend s x) = bview s"
  by (simp_all add: log_st.defs bio_inv_def buf_ok_def held_def pinned_def bview_def [abs_def] cached_def cong: option.case_cong)

lemma boot_view:
  assumes "\<forall>b < sz. length (D b) = BSIZE"
  shows "bview (boot D sz) = D"
proof -
  note b = boot_facts [OF assms]
  have "cached (boot D sz) c = None" for c
    using b(8) by (auto simp: cached_def find_None_iff)
  then show ?thesis using b(4) by (auto simp: bview_def)
qed

lemma log_st_update [simp]:
  fixes s :: log_st
  shows "bio_inv (s\<lparr>lstart := a, lsize := b, ldev := c, outstanding := d, lh_n := e\<rparr>) = bio_inv s"
    "held (s\<lparr>lstart := a, lsize := b, ldev := c, outstanding := d, lh_n := e\<rparr>) = held s"
    "pinned (s\<lparr>lstart := a, lsize := b, ldev := c, outstanding := d, lh_n := e\<rparr>) = pinned s"
    "bview (s\<lparr>lstart := a, lsize := b, ldev := c, outstanding := d, lh_n := e\<rparr>) = bview s"
  by (simp_all add: bio_inv_def buf_ok_def held_def pinned_def bview_def [abs_def] cached_def cong: option.case_cong)

lemma small_fs_facts:
  "bio_inv (small_fs is)" "held (small_fs is) = {}" "pinned (small_fs is) = {}" "bview (small_fs is) = fs_disk"
  "in_trans (small_fs is) 0" "log_cap (small_fs is) = 29" "lstart (small_fs is) = 2" "disksize (small_fs is) = 100"
  "inodes (small_fs is) = is" "\<not> icache_lock (small_fs is)"
proof -
  note b = boot_facts [OF fs_disk_facts(1) [of 100]]
  show inv: "bio_inv (small_fs is)" "held (small_fs is) = {}" "pinned (small_fs is) = {}" "bview (small_fs is) = fs_disk"
    using b(1-3) boot_view [OF fs_disk_facts(1) [of 100]] by (simp_all add: small_fs_def)
  show "log_cap (small_fs is) = 29" by (simp add: log_cap_def small_fs_def log_st.defs LOGSIZE_def MAXOPBLOCKS_def)
  show f: "lstart (small_fs is) = 2" "disksize (small_fs is) = 100" "inodes (small_fs is) = is" "\<not> icache_lock (small_fs is)"
    using b(5) by (simp_all add: small_fs_def log_st.defs)
  have "\<not> log_lock (small_fs is)" "lh_n (small_fs is) = 0" "outstanding (small_fs is) = 1" "ldev (small_fs is) = 1"
    "length (lh_block (small_fs is)) = LOGSIZE"
    using b(6,7) by (simp_all add: small_fs_def log_st.defs)
  then show "in_trans (small_fs is) 0"
    using inv f by (simp add: in_trans_def log_open_def log_geom_def homes_ok_def LOGSIZE_def MAXOPBLOCKS_def)
qed

lemma small_fs_marked:
  assumes "b < 100"
  shows "BBLOCK b (sb (small_fs is)) = 40" "marked (small_fs is) b \<longleftrightarrow> unat b < 48"
proof -
  have u: "unat b < 100" using assms by (simp add: word_less_nat_alt)
  then have s: "unat b = BPB * 0 + unat b" "unat b < BPB" by (simp_all add: BPB_def BSIZE_def)
  show B: "BBLOCK b (sb (small_fs is)) = 40"
    using bblock_split(1) [OF s, of "sb (small_fs is)"] by (simp add: small_fs_def log_st.defs)
  have "fs_disk 40 ! (unat b div 8) = (if unat b < 48 then 255 else 0)"
    using u by (simp add: fs_disk_def nth_append BSIZE_def) linarith
  moreover have "bit (255 :: u8) k" if "k < 8" for k
  proof -
    have m: "(255 :: u8) = - 1" by simp
    show ?thesis unfolding m using that by (simp add: bit_minus_1_iff)
  qed
  ultimately show "marked (small_fs is) b \<longleftrightarrow> unat b < 48"
    using bblock_split(2) [OF s] by (simp add: marked_def B small_fs_facts(4) bit_free_bit)
qed

lemma small_fs_map: "map_ok (small_fs is)"
proof -
  have z: "sb_size (sb (small_fs is)) = 100" by (simp add: small_fs_def log_st.defs)
  have area: "b \<notin> log_area 2" if "b < 100" "\<not> unat b < 32 + 1" for b
  proof
    assume "b \<in> log_area 2"
    then have "unat (b - 2) \<le> 30" using log_area_dist [of b 2] by (simp add: LOGSIZE_def MAXOPBLOCKS_def)
    moreover have "unat (b - 2) = unat b - 2" using that(2) by (intro unat_sub [THEN trans]) (simp_all add: word_le_nat_alt)
    ultimately show False using that(2) by simp
  qed
  have "40 \<notin> log_area 2" using area [of 40] by simp
  moreover have "b \<notin> log_area 2 \<and> b \<noteq> 40" if "b < 100" "\<not> unat b < 48" for b
    using area [of b] that by auto
  ultimately show ?thesis
    unfolding map_ok_def z small_fs_facts(2,7,8) by (auto simp: small_fs_marked)
qed


section \<open>Properties\<close>

text \<open>
  C9: \<open>balloc\<close> in a transaction with room in the log returns the lowest block that is free in the map,
  marks that block and no other, hands it out zeroed and leaves every other block but the map block as
  it was; the blocks written are in the transaction, and it panics only when every block is marked.
\<close>

theorem balloc_lowest_free:
  fixes s :: "'a fs_st_scheme"
  assumes "in_trans s n" "map_ok s" "card (held s \<union> pinned s) + 1 < NBUF" "int n + 1 < log_cap s"
  shows "(\<exists>b t m. balloc 1 s = Inr (b, t) \<and> b < sb_size (sb s) \<and> \<not> marked s b \<and> (\<forall>c < b. marked s c)
        \<and> (\<forall>c < sb_size (sb s). marked t c \<longleftrightarrow> marked s c \<or> c = b)
        \<and> bview t b = replicate BSIZE 0 \<and> (\<forall>c. c \<noteq> b \<and> c \<noteq> BBLOCK b (sb s) \<longrightarrow> bview t c = bview s c)
        \<and> in_trans t m \<and> m \<le> n + 2 \<and> held t = held s \<and> log_frame s t)
     \<or> balloc 1 s = Inl (Panic ''balloc: out of blocks'') \<and> (\<forall>c < sb_size (sb s). marked s c)"
  by (rule balloc_ok [OF assms])

theorem balloc_lowest_free_witness:
  "\<exists>t. balloc 1 (small_fs []) = Inr (48, t) \<and> marked t 48 \<and> \<not> marked t 49 \<and> bview t 48 = replicate BSIZE 0"
proof -
  let ?s = "small_fs []"
  have z: "sb_size (sb ?s) = 100" by (simp add: small_fs_def log_st.defs)
  have h: "card (held ?s \<union> pinned ?s) + 1 < NBUF" "int 0 + 1 < log_cap ?s" by (simp_all add: small_fs_facts NBUF_def)
  have free: "\<not> marked ?s 48" "\<not> marked ?s 49" by (simp_all add: small_fs_marked)
  obtain b t m where t: "balloc 1 ?s = Inr (b, t)" "b < 100" "\<not> marked ?s b" "\<forall>c < b. marked ?s c"
    "\<forall>c < 100. marked t c \<longleftrightarrow> marked ?s c \<or> c = b" "bview t b = replicate BSIZE 0"
    using balloc_lowest_free [OF small_fs_facts(5) small_fs_map h] free(1) unfolding z by (auto; simp)
  have "b = 48"
  proof (rule ccontr)
    assume "b \<noteq> 48"
    then consider "b < 48" | "48 < b" by fastforce
    then show False
    proof cases
      case 1
      then show False using t(2,3) by (simp add: small_fs_marked word_less_nat_alt)
    next
      case 2
      then show False using t(4) free(1) by blast
    qed
  qed
  then show ?thesis using t free by auto
qed

text \<open>
  C24: \<open>bfree\<close> clears the mark of exactly the block it is given, inside the transaction, and freeing a
  block that is already free panics without changing anything.
\<close>

theorem bfree_clears_one:
  fixes s :: "'a fs_st_scheme"
  assumes "in_trans s n" "map_ok s" "card (held s \<union> pinned s) < NBUF" "int n < log_cap s"
    and "superblock_of (bview s 1) = sb s" "1 < disksize s" "1 \<notin> held s" "b < sb_size (sb s)"
  shows "if marked s b then (\<exists>t m. bfree 1 b s = Inr t \<and> (\<forall>c < sb_size (sb s). marked t c \<longleftrightarrow> marked s c \<and> c \<noteq> b)
        \<and> (\<forall>c. c \<noteq> BBLOCK b (sb s) \<longrightarrow> bview t c = bview s c) \<and> in_trans t m \<and> m \<le> n + 1 \<and> held t = held s \<and> log_frame s t)
     else bfree 1 b s = Inl (Panic ''freeing free block'')"
  by (rule bfree_ok [OF assms])

theorem bfree_clears_one_witness:
  "(\<exists>t. bfree 1 47 (small_fs []) = Inr t \<and> \<not> marked t 47 \<and> marked t 46)
     \<and> bfree 1 48 (small_fs []) = Inl (Panic ''freeing free block'')"
proof -
  let ?s = "small_fs []"
  have z: "sb_size (sb ?s) = 100" by (simp add: small_fs_def log_st.defs)
  have h: "card (held ?s \<union> pinned ?s) < NBUF" "int 0 < log_cap ?s" by (simp_all add: small_fs_facts NBUF_def)
  have g: "superblock_of (bview ?s 1) = sb ?s" "1 < disksize ?s" "1 \<notin> held ?s"
    by (simp_all add: small_fs_facts fs_disk_facts(2) [of "[]"])
  note f = bfree_clears_one [OF small_fs_facts(5) small_fs_map h g]
  show ?thesis using f [of 47] f [of 48] unfolding z by (auto simp: small_fs_marked)
qed

end
