(* ===== verification/FsInode.thy ===== *)
theory FsInode
  imports FsBlocks
begin

text \<open>
  Inodes: the layout of their disk copies, writing them back and reading them again
  (\<open>iupdate\<close>, \<open>ilock\<close>), and the cache of inodes in use (\<open>iget\<close>, \<open>idup\<close>).
\<close>

section \<open>Disk inodes\<close>

lemma half_of_bytes: "(ucast (ucast v :: u8) OR push_bit 8 (ucast (ucast (drop_bit 8 v) :: u8)) :: u16) = v"
  by (rule bit_word_eqI) (auto simp: bit_or_iff bit_push_bit_iff bit_ucast_iff bit_drop_bit_eq)

lemma length_splice [simp]: "k + length bs \<le> length d \<Longrightarrow> length (splice d k bs) = length d"
  by (simp add: splice_def)

lemma nth_splice:
  assumes "k + length bs \<le> length d" "i < length d"
  shows "splice d k bs ! i = (if k \<le> i \<and> i < k + length bs then bs ! (i - k) else d ! i)"
proof (cases "i < k")
  case True
  then show ?thesis using assms by (simp add: splice_def nth_append)
next
  case False
  then obtain m where "i = k + m" using nat_le_iff_add [of k i] by auto
  then show ?thesis using assms by (simp add: splice_def nth_append)
qed

lemma length_half [simp]: "length (bytes_of_half v) = 2" by (simp add: bytes_of_half_def)

lemma length_dinode_bytes: "length (daddrs di) = NDIRECT + 1 \<Longrightarrow> length (dinode_bytes di) = 64"
  by (simp add: dinode_bytes_def NDIRECT_def)

lemma half_at_splice:
  assumes "k + length bs \<le> length d" "i + 1 < length d"
  shows "k \<le> i \<Longrightarrow> i + 1 < k + length bs \<Longrightarrow> half_at (splice d k bs) i = half_at bs (i - k)"
    and "i + 1 < k \<or> k + length bs \<le> i \<Longrightarrow> half_at (splice d k bs) i = half_at d i"
  using assms by (auto simp: half_at_def nth_splice Suc_diff_le)

lemma word_at_splice:
  assumes "4 * k + length bs \<le> length d" "4 * i + 3 < length d"
  shows "k \<le> i \<Longrightarrow> 4 * i + 3 < 4 * k + length bs \<Longrightarrow> word_at (splice d (4 * k) bs) i = word_at bs (i - k)"
    and "i < k \<or> 4 * k + length bs \<le> 4 * i \<Longrightarrow> word_at (splice d (4 * k) bs) i = word_at d i"
proof -
  assume le: "k \<le> i" "4 * i + 3 < 4 * k + length bs"
  have "splice d (4 * k) bs ! (4 * i + c) = bs ! (4 * (i - k) + c)" if "c < 4" for c
    using nth_splice [of "4 * k" bs d "4 * i + c"] assms le that by (simp add: diff_mult_distrib2)
  from this [of 0] this [of 1] this [of 2] this [of 3] show "word_at (splice d (4 * k) bs) i = word_at bs (i - k)"
    by (simp add: word_at_def)
next
  assume out: "i < k \<or> 4 * k + length bs \<le> 4 * i"
  have "splice d (4 * k) bs ! (4 * i + c) = d ! (4 * i + c)" if "c < 4" for c
    using nth_splice [of "4 * k" bs d "4 * i + c"] assms out that by (simp split: if_splits) linarith
  from this [of 0] this [of 1] this [of 2] this [of 3] show "word_at (splice d (4 * k) bs) i = word_at d i"
    by (simp add: word_at_def)
qed

lemma half_at_first: "half_at (bytes_of_half v @ xs) 0 = v"
  by (simp add: half_at_def bytes_of_half_def half_of_bytes)

lemma half_at_skip: "length xs = k \<Longrightarrow> half_at (xs @ ys) (k + i) = half_at ys i"
  by (simp add: half_at_def nth_append)

lemma word_at_skip: "length xs = 4 * k \<Longrightarrow> word_at (xs @ ys) (k + i) = word_at ys i"
  by (simp add: word_at_def nth_append add.assoc)

lemma dinode_bytes_fields:
  assumes "length (daddrs di) = NDIRECT + 1"
  shows "half_at (dinode_bytes di) 0 = dtype di" "half_at (dinode_bytes di) 2 = dmajor di" "half_at (dinode_bytes di) 4 = dminor di"
    "half_at (dinode_bytes di) 6 = dnlink di" "word_at (dinode_bytes di) 2 = dsize di"
    "i < NDIRECT + 1 \<Longrightarrow> word_at (dinode_bytes di) (3 + i) = daddrs di ! i"
proof -
  let ?a = "bytes_of_half (dtype di)" and ?b = "bytes_of_half (dmajor di)" and ?c = "bytes_of_half (dminor di)" and
    ?n = "bytes_of_half (dnlink di)" and ?s = "bytes_of_u32 (dsize di)" and ?w = "concat (map bytes_of_u32 (daddrs di))"
  show "half_at (dinode_bytes di) 0 = dtype di" by (simp add: dinode_bytes_def half_at_first)
  show "half_at (dinode_bytes di) 2 = dmajor di"
    using half_at_skip [of ?a 2 _ 0] by (simp add: dinode_bytes_def half_at_first)
  show "half_at (dinode_bytes di) 4 = dminor di"
    using half_at_skip [of "?a @ ?b" 4 _ 0] by (simp add: dinode_bytes_def half_at_first)
  show "half_at (dinode_bytes di) 6 = dnlink di"
    using half_at_skip [of "?a @ ?b @ ?c" 6 _ 0] by (simp add: dinode_bytes_def half_at_first)
  have "word_at (?s @ ?w) 0 = dsize di"
    by (simp add: word_at_def bytes_of_u32_def u32_of_bytes_of_u32 numeral_2_eq_2 numeral_3_eq_3)
  then show "word_at (dinode_bytes di) 2 = dsize di"
    using word_at_skip [of "?a @ ?b @ ?c @ ?n" 2 _ 0] by (simp add: dinode_bytes_def)
  show "word_at (dinode_bytes di) (3 + i) = daddrs di ! i" if "i < NDIRECT + 1"
    using word_at_skip [of "?a @ ?b @ ?c @ ?n @ ?s" 3 ?w i] word_at_words [of i "daddrs di"] that assms
    by (simp add: dinode_bytes_def)
qed

lemma dinode_put:
  assumes d: "length d = BSIZE" and j: "j < IPB" "k < IPB" and a: "length (daddrs di) = NDIRECT + 1"
  shows "dinode_at (put_dinode d j di) k = (if k = j then di else dinode_at d k)"
proof -
  have len: "length (dinode_bytes di) = 64" by (rule length_dinode_bytes [OF a])
  have sp: "64 * j + 64 \<le> length d" "64 * k + 64 \<le> length d" using d j by (simp_all add: BSIZE_def IPB_def)
  show ?thesis
  proof (cases "k = j")
    case True
    have h: "half_at (put_dinode d j di) (64 * j + x) = half_at (dinode_bytes di) x" if "x < 63" for x
      using half_at_splice(1) [of "64 * j" "dinode_bytes di" d "64 * j + x"] that sp len by (simp add: put_dinode_def)
    have w: "word_at (put_dinode d j di) (16 * j + x) = word_at (dinode_bytes di) x" if "x < 16" for x
      using word_at_splice(1) [of "16 * j" "dinode_bytes di" d "16 * j + x"] that sp len by (simp add: put_dinode_def)
    have "map (\<lambda>i. word_at (put_dinode d j di) (16 * j + 3 + i)) [0..<NDIRECT + 1] = daddrs di"
      using a w [of "3 + _"] dinode_bytes_fields(6) [OF a] by (intro nth_equalityI) (simp_all add: add.assoc NDIRECT_def)
    then show ?thesis
      using True h [of 0] h [of 2] h [of 4] h [of 6] w [of 2] dinode_bytes_fields(1-5) [OF a] by (simp add: dinode_at_def)
  next
    case False
    then have kj: "64 * k + 64 \<le> 64 * j \<or> 64 * j + 64 \<le> 64 * k" by linarith
    have h: "half_at (put_dinode d j di) (64 * k + x) = half_at d (64 * k + x)" if "x < 63" for x
      using half_at_splice(2) [of "64 * j" "dinode_bytes di" d "64 * k + x"] that sp len kj by (simp add: put_dinode_def) linarith
    have w: "word_at (put_dinode d j di) (16 * k + x) = word_at d (16 * k + x)" if "x < 16" for x
      using word_at_splice(2) [of "16 * j" "dinode_bytes di" d "16 * k + x"] that sp len kj by (simp add: put_dinode_def) linarith
    show ?thesis
      using False h [of 0] h [of 2] h [of 4] h [of 6] w [of 2] w [of "3 + _"] by (simp add: dinode_at_def add.assoc NDIRECT_def)
  qed
qed


section \<open>Writing an inode back and reading it\<close>

lemma fs_update [simp]:
  fixes s :: "'a fs_st_scheme"
  shows "in_trans (s\<lparr>inodes := is\<rparr>) n = in_trans s n" "in_trans (s\<lparr>icache_lock := l\<rparr>) n = in_trans s n"
    "bview (s\<lparr>inodes := is\<rparr>) = bview s" "bview (s\<lparr>icache_lock := l\<rparr>) = bview s"
    "room (s\<lparr>inodes := is\<rparr>) b = room s b" "room (s\<lparr>icache_lock := l\<rparr>) b = room s b"
    "held (s\<lparr>inodes := is\<rparr>) = held s" "held (s\<lparr>icache_lock := l\<rparr>) = held s"
    "pinned (s\<lparr>inodes := is\<rparr>) = pinned s" "pinned (s\<lparr>icache_lock := l\<rparr>) = pinned s"
    "bio_inv (s\<lparr>inodes := is\<rparr>) = bio_inv s" "holds (s\<lparr>inodes := is\<rparr>) i b = holds s i b"
  by (simp_all add: holds_def in_trans_def log_open_def log_geom_def homes_ok_def bio_inv_def buf_ok_def bview_def [abs_def] cached_def
      room_def held_def pinned_def cong: option.case_cong)

definition to_dinode :: "inode \<Rightarrow> dinode" where
  "to_dinode i = \<lparr>dtype = itype i, dmajor = imajor i, dminor = iminor i, dnlink = inlink i, dsize = isize i, daddrs = iaddrs i\<rparr>"

lemma load_dinode_flags: "(load_dinode di i)\<lparr>iflags := x\<rparr> = load_dinode di (i\<lparr>iflags := x\<rparr>)" "iflags (load_dinode di i) = iflags i"
  "itype (load_dinode di i) = dtype di"
  by (cases i, simp add: load_dinode_def)+

abbreviation home :: "'a fs_st_scheme \<Rightarrow> u32 \<Rightarrow> u32" where "home s no \<equiv> IBLOCK no (sb s)"
abbreviation disk_slot :: "u32 \<Rightarrow> nat" where "disk_slot no \<equiv> unat no mod IPB"

lemma iupdate_ok:
  fixes s :: "'a fs_st_scheme"
  assumes tr: "in_trans s n" and i: "idev (inodes s ! ip) = 1" "length (iaddrs (inodes s ! ip)) = NDIRECT + 1"
    and B: "B = home s (inum (inodes s ! ip))" "room s B" "B \<notin> log_area (lstart s)" and n: "int n < log_cap s"
  shows "\<exists>t. iupdate ip s = Inr t \<and> in_trans t (grow s B n)
     \<and> stepped s t ((bview s)(B := put_dinode (bview s B) (disk_slot (inum (inodes s ! ip))) (to_dinode (inodes s ! ip)))) (insert B (pinned s))"
proof -
  let ?i = "inodes s ! ip"
  let ?d = "put_dinode (bview s B) (disk_slot (inum ?i)) (to_dinode ?i)"
  have s: "bio_inv s" using tr by (simp add: in_trans_def log_open_def)
  have "length (bview s B) = BSIZE" using bview_length [OF s] B(2) by (simp add: room_def)
  moreover have "length (dinode_bytes (to_dinode ?i)) = 64" using i(2) by (intro length_dinode_bytes) (simp add: to_dinode_def)
  moreover have "disk_slot (inum ?i) < 8" by (simp add: IPB_def BSIZE_def)
  ultimately have len: "length ?d = BSIZE" by (simp add: put_dinode_def BSIZE_def)
  obtain k t u w where t: "bread 1 B s = Inr (k, t)" "bdata (bufs t ! k) = bview s B" "log_frame s t"
    "log_write k (set_data k ?d t) = Inr u" "brelse k u = Inr w" "in_trans w (grow s B n)" "stepped s w ((bview s)(B := ?d)) (insert B (pinned s))"
    using rewrite_ok [OF tr B(2) n B(3) len] by blast
  have "iupdate ip s = Inr w"
    using t(1,2,4,5) i(1) B(1) by (simp add: iupdate_def Let_def to_dinode_def)
  then show ?thesis using t(6,7) by blast
qed

lemma ilock_ok:
  fixes s :: "'a fs_st_scheme"
  assumes tr: "in_trans s n" and ip: "ip < length (inodes s)" "idev (inodes s ! ip) = 1" "1 \<le> sint (iref (inodes s ! ip))"
      "iflags (inodes s ! ip) = 0" "\<not> icache_lock s"
    and B: "B = home s (inum (inodes s ! ip))" "room s B"
    and di: "di = dinode_at (bview s B) (disk_slot (inum (inodes s ! ip)))" "dtype di \<noteq> 0"
  shows "\<exists>t. ilock (Some ip) s = Inr t \<and> in_trans t n \<and> bview t = bview s \<and> held t = held s
     \<and> inodes t = (inodes s)[ip := load_dinode di ((inodes s ! ip)\<lparr>iflags := I_BUSY OR I_VALID\<rparr>)]"
proof -
  let ?i = "inodes s ! ip"
  define r where "r = s\<lparr>inodes := (inodes s)[ip := ?i\<lparr>iflags := I_BUSY\<rparr>]\<rparr>"
  have l: "s\<lparr>icache_lock := True, inodes := x, icache_lock := False\<rparr> = s\<lparr>inodes := x\<rparr>" for x
    using ip(5) by (cases s) simp
  have r: "in_trans r n" "room r B" "bview r = bview s" "inodes r ! ip = ?i\<lparr>iflags := I_BUSY\<rparr>" "sb r = sb s" "held r = held s"
    using tr B(2) ip(1) by (simp_all add: r_def)
  have s: "bio_inv r" using r(1) by (simp add: in_trans_def log_open_def)
  obtain k t where t: "bread 1 B r = Inr (k, t)" "bio_inv t" "holds t k B" "held t = insert B (held r)" "pinned t = pinned r"
    "bview t = bview r" "disk t = disk r" "bio_frame r t"
    using bread_ok [OF s] r(2) unfolding room_def by blast
  note tf = log_frame_fs [OF bio_log_frame [OF t(8)]]
  define j where "j = load_dinode di (?i\<lparr>iflags := I_BUSY\<rparr>)"
  define t' where "t' = t\<lparr>inodes := (inodes r)[ip := j]\<rparr>"
  have th: "bio_inv t'" "holds t' k B" using t(2,3) by (simp_all add: t'_def)
  have clean: "B \<in> pinned t' \<or> bview t' B = disk t' B"
    using bview_disk [OF s, of B] r(2) t(5-7) by (auto simp: room_def t'_def)
  obtain u where u: "brelse k t' = Inr u" "bio_inv u" "bview u = bview t'" "held u = held t' - {B}" "pinned u = pinned t'" "bio_frame t' u"
    using brelse_ok [OF th clean] by blast
  note uf = log_frame_fs [OF bio_log_frame [OF u(6)]]
  have it: "in_trans t' n" using in_trans_bio [OF r(1) t(2,8,5)] by (simp add: t'_def)
  have iu: "in_trans u n" by (rule in_trans_bio [OF it u(2,6,5)])
  have dk: "bdata (bufs t ! k) = bview s B" using holds_ok(5) [OF t(2,3)] t(6) r(3) by simp
  define v where "v = upd_inode ip (\<lambda>i. i\<lparr>iflags := iflags i OR I_VALID\<rparr>) u"
  have iv: "inodes v = (inodes s)[ip := load_dinode di (?i\<lparr>iflags := I_BUSY OR I_VALID\<rparr>)]"
    using ip(1) uf(3) by (simp add: v_def upd_inode_def t'_def r_def j_def load_dinode_flags)
  have ut: "upd_inode ip (load_dinode di) t = t'" using ip(1) r(4) tf(3) by (simp add: upd_inode_def t'_def j_def)
  have "ilock_load ip r = Inr v"
    using t(1) dk u(1) ut di iv ip(1,2) r(4,5) B(1)
    by (simp add: ilock_load_def Let_def v_def [symmetric] load_dinode_flags)
  moreover have "s\<lparr>icache_lock := True, inodes := (inodes s)[ip := ?i\<lparr>iflags := I_BUSY\<rparr>], icache_lock := False\<rparr> = r"
    by (simp add: l r_def)
  moreover have "I_BUSY AND I_VALID = 0" by (simp add: I_BUSY_def I_VALID_def)
  ultimately have "ilock (Some ip) s = Inr v"
    using ip(1,3-5) r(4) by (simp add: ilock_def icache_acquire_def icache_release_def upd_inode_def)
  moreover have "held u = held s" using u(4) t(4) r(2,6) by (auto simp: t'_def room_def)
  ultimately show ?thesis
    using iv iu u(3) t(6) r(3) by (intro exI [of _ v]) (simp add: v_def upd_inode_def t'_def)
qed

lemma home_inj:
  assumes "IBLOCK b x = IBLOCK c x" "disk_slot b = disk_slot c"
  shows "b = c"
proof -
  have "b div of_nat IPB = c div of_nat IPB" using assms(1) by (simp add: IBLOCK_def)
  then have "unat (b div of_nat IPB) = unat (c div of_nat IPB)" by simp
  then have "unat b div IPB = unat c div IPB" by (simp add: unat_div unat_of_nat IPB_def BSIZE_def)
  with assms(2) have "unat b = unat c" by (metis div_mult_mod_eq)
  then show ?thesis by (simp only: word_unat_eq_iff)
qed

lemma to_dinode_load: "to_dinode (load_dinode di i) = di"
  by (cases di) (simp add: to_dinode_def load_dinode_def)

lemma inode_write_read:
  fixes s :: "'a fs_st_scheme"
  assumes tr: "in_trans s n" and i: "idev (inodes s ! ip) = 1" "length (iaddrs (inodes s ! ip)) = NDIRECT + 1" "itype (inodes s ! ip) \<noteq> 0"
    and B: "room s (home s (inum (inodes s ! ip)))" "home s (inum (inodes s ! ip)) \<notin> log_area (lstart s)"
    and n: "int n < log_cap s" and lk: "\<not> icache_lock s"
  shows "\<exists>t. iupdate ip s = Inr t \<and> inodes t = inodes s
     \<and> (\<forall>no. no \<noteq> inum (inodes s ! ip) \<longrightarrow>
          dinode_at (bview t (home s no)) (disk_slot no) = dinode_at (bview s (home s no)) (disk_slot no))
     \<and> (\<forall>is jp. jp < length is \<and> idev (is ! jp) = 1 \<and> inum (is ! jp) = inum (inodes s ! ip) \<and> 1 \<le> sint (iref (is ! jp))
          \<and> iflags (is ! jp) = 0 \<longrightarrow>
          (\<exists>u. ilock (Some jp) (t\<lparr>inodes := is\<rparr>) = Inr u \<and> to_dinode (inodes u ! jp) = to_dinode (inodes s ! ip)))"
proof -
  let ?i = "inodes s ! ip"
  let ?B = "home s (inum ?i)"
  obtain t where t: "iupdate ip s = Inr t" "in_trans t (grow s ?B n)"
    "stepped s t ((bview s)(?B := put_dinode (bview s ?B) (disk_slot (inum ?i)) (to_dinode ?i))) (insert ?B (pinned s))"
    using iupdate_ok [OF tr i(1,2) refl B n] by blast
  note f = stepped_fs [OF t(3)]
  have inv: "bio_inv s" using tr by (simp add: in_trans_def log_open_def)
  have slots: "disk_slot no < IPB" for no by (simp add: IPB_def BSIZE_def)
  have len: "length (bview s ?B) = BSIZE" using bview_length [OF inv] B(1) by (simp add: room_def)
  have put: "dinode_at (bview t ?B) k = (if k = disk_slot (inum ?i) then to_dinode ?i else dinode_at (bview s ?B) k)" if "k < IPB" for k
    using dinode_put [OF len slots that, of "to_dinode ?i"] i(2) f(6) by (simp add: to_dinode_def)
  have "dinode_at (bview t (home s no)) (disk_slot no) = dinode_at (bview s (home s no)) (disk_slot no)" if "no \<noteq> inum ?i" for no
    using put [OF slots [of no]] home_inj [of no "sb s" "inum ?i"] that f(6) by (cases "home s no = ?B") auto
  moreover have "\<exists>u. ilock (Some jp) (t\<lparr>inodes := is\<rparr>) = Inr u \<and> to_dinode (inodes u ! jp) = to_dinode ?i"
    if jp: "jp < length is" "idev (is ! jp) = 1" "inum (is ! jp) = inum ?i" "1 \<le> sint (iref (is ! jp))" "iflags (is ! jp) = 0" for "is" jp
  proof -
    let ?t = "t\<lparr>inodes := is\<rparr>"
    have l: "in_trans ?t (grow s ?B n)" "jp < length (inodes ?t)" "idev (inodes ?t ! jp) = 1" "1 \<le> sint (iref (inodes ?t ! jp))"
      "iflags (inodes ?t ! jp) = 0" "\<not> icache_lock ?t" "?B = home ?t (inum (inodes ?t ! jp))"
      using t(2) jp f(1,8) lk by simp_all
    have r: "room ?t ?B" using B(1) f by (simp add: room_def)
    have d: "to_dinode ?i = dinode_at (bview ?t ?B) (disk_slot (inum (inodes ?t ! jp)))" "dtype (to_dinode ?i) \<noteq> 0"
      using i(3) jp(3) put [OF slots [of "inum ?i"]] by (simp_all add: to_dinode_def)
    obtain u where "ilock (Some jp) ?t = Inr u"
      "inodes u = (inodes ?t)[jp := load_dinode (to_dinode ?i) ((inodes ?t ! jp)\<lparr>iflags := I_BUSY OR I_VALID\<rparr>)]"
      using ilock_ok [OF l r d] by blast
    then show ?thesis using jp(1) by (auto simp: to_dinode_load)
  qed
  ultimately show ?thesis using t(1) f(2) by blast
qed


section \<open>The inode cache\<close>

text \<open>No inode has two entries in use, and no count is at its bound.\<close>

definition icache_ok :: "inode list \<Rightarrow> bool" where
  "icache_ok is \<longleftrightarrow> length is = NINODE \<and> (\<forall>i < NINODE. 0 \<le> sint (iref (is ! i)))
     \<and> (\<forall>i < NINODE. \<forall>j < NINODE. iref (is ! i) \<noteq> 0 \<and> iref (is ! j) \<noteq> 0 \<and> idev (is ! i) = idev (is ! j) \<and> inum (is ! i) = inum (is ! j)
          \<longrightarrow> i = j)"

definition in_use :: "inode list \<Rightarrow> u32 \<Rightarrow> u32 \<Rightarrow> nat \<Rightarrow> bool" where
  "in_use is dev no i \<longleftrightarrow> i < NINODE \<and> 0 < sint (iref (is ! i)) \<and> idev (is ! i) = dev \<and> inum (is ! i) = no"

lemma sint_zero: "sint (w :: i32) = 0 \<Longrightarrow> w = 0"
  by (metis scast_eq scast_id of_int_0)

lemma iget_loop_found:
  "fst (iget_loop is dev no i n e) = Some k \<Longrightarrow> i \<le> k \<and> k < i + n \<and> 0 < sint (iref (is ! k)) \<and> idev (is ! k) = dev \<and> inum (is ! k) = no"
  by (induction n arbitrary: i e) (fastforce split: if_splits)+

lemma iget_loop_none:
  "fst (iget_loop is dev no i n e) = None \<Longrightarrow> i \<le> k \<Longrightarrow> k < i + n \<Longrightarrow> \<not> (0 < sint (iref (is ! k)) \<and> idev (is ! k) = dev \<and> inum (is ! k) = no)"
proof (induction n arbitrary: i e)
  case (Suc n)
  then show ?case by (cases "k = i") (auto split: if_splits)
qed simp

lemma iget_loop_empty:
  "fst (iget_loop is dev no i n e) = None \<Longrightarrow> snd (iget_loop is dev no i n e) =
     (case e of Some x \<Rightarrow> Some x | None \<Rightarrow> List.find (\<lambda>k. iref (is ! k) = 0) [i..<i + n])"
proof (induction n arbitrary: i e)
  case 0
  then show ?case by (auto split: option.split)
next
  case (Suc n)
  have "[i..<Suc (i + n)] = i # [Suc i..<Suc (i + n)]" by (simp add: upt_conv_Cons del: upt_Suc)
  then show ?case using Suc by (auto split: if_splits option.splits simp del: upt_Suc)
qed

lemma icache_ok_upd:
  assumes ok: "icache_ok is" and ip: "ip < NINODE" "0 \<le> sint (iref x)"
    and new: "\<forall>i < NINODE. i \<noteq> ip \<longrightarrow> \<not> (iref (is ! i) \<noteq> 0 \<and> idev (is ! i) = idev x \<and> inum (is ! i) = inum x)"
  shows "icache_ok (is[ip := x])"
  unfolding icache_ok_def
proof (intro conjI allI impI)
  note a = ok [unfolded icache_ok_def]
  show "length (is[ip := x]) = NINODE" using a by simp
  show "0 \<le> sint (iref (is[ip := x] ! i))" if "i < NINODE" for i using a ip that by (simp add: nth_list_update)
  show "i = j" if "i < NINODE" "j < NINODE" "iref (is[ip := x] ! i) \<noteq> 0 \<and> iref (is[ip := x] ! j) \<noteq> 0
      \<and> idev (is[ip := x] ! i) = idev (is[ip := x] ! j) \<and> inum (is[ip := x] ! i) = inum (is[ip := x] ! j)" for i j
    using a ip(1) new that by (cases "i = ip"; cases "j = ip") auto
qed

lemma in_use_pos: "icache_ok is \<Longrightarrow> i < NINODE \<Longrightarrow> iref (is ! i) \<noteq> 0 \<Longrightarrow> in_use is (idev (is ! i)) (inum (is ! i)) i"
  using sint_zero [of "iref (is ! i)"] by (fastforce simp: icache_ok_def in_use_def le_less)

lemma iget_ok:
  fixes s :: "'a fs_st_scheme"
  assumes ok: "icache_ok (inodes s)" and lk: "\<not> icache_lock s" and room: "\<And>i. i < NINODE \<Longrightarrow> sint (iref (inodes s ! i)) < 2 ^ 31 - 1"
  shows "(\<exists>ip t. iget dev no s = Inr (ip, t) \<and> in_use (inodes t) dev no ip \<and> icache_ok (inodes t) \<and> \<not> icache_lock t
        \<and> (\<forall>i. i \<noteq> ip \<longrightarrow> inodes t ! i = inodes s ! i)
        \<and> (if in_use (inodes s) dev no ip then sint (iref (inodes t ! ip)) = sint (iref (inodes s ! ip)) + 1
           else iref (inodes s ! ip) = 0 \<and> iref (inodes t ! ip) = 1 \<and> iflags (inodes t ! ip) = 0 \<and> (\<forall>i. \<not> in_use (inodes s) dev no i)))
     \<or> iget dev no s = Inl (Panic ''iget: no inodes'') \<and> (\<forall>i < NINODE. 0 < sint (iref (inodes s ! i)) \<and> \<not> in_use (inodes s) dev no i)"
proof -
  let ?is = "inodes s" and ?r = "iget_loop (inodes s) dev no 0 NINODE None"
  have len: "length ?is = NINODE" using ok by (simp add: icache_ok_def)
  have lu: "s\<lparr>icache_lock := True, inodes := x, icache_lock := False\<rparr> = s\<lparr>inodes := x\<rparr>" for x using lk by (cases s) simp
  show ?thesis
  proof (cases "fst ?r")
    case (Some ip)
    then have ip: "in_use ?is dev no ip" using iget_loop_found [OF Some] by (simp add: in_use_def)
    then have lt: "ip < NINODE" "iref (?is ! ip) \<noteq> 0" by (auto simp: in_use_def)
    define x where "x = (?is ! ip)\<lparr>iref := iref (?is ! ip) + 1\<rparr>"
    have run: "iget dev no s = Inr (ip, s\<lparr>inodes := ?is[ip := x]\<rparr>)"
      using Some lk lu by (cases ?r) (simp add: iget_def icache_acquire_def icache_release_def upd_inode_def x_def)
    have inc: "sint (iref x) = sint (iref (?is ! ip)) + 1" using room [OF lt(1)] by (simp add: sint_succ x_def)
    have x: "0 < sint (iref x)" "idev x = dev" "inum x = no" using inc ip by (simp_all add: in_use_def x_def)
    have "icache_ok (?is[ip := x])"
      by (rule icache_ok_upd [OF ok lt(1)]) (use x ip lt ok in \<open>auto simp: in_use_def icache_ok_def\<close>)
    moreover have "in_use (?is[ip := x]) dev no ip" using x lt len by (simp add: in_use_def)
    ultimately show ?thesis using run inc ip lk len lt by (intro disjI1 exI [of _ ip] exI [of _ "s\<lparr>inodes := ?is[ip := x]\<rparr>"]) simp
  next
    case None
    have no: "\<not> in_use ?is dev no i" for i using iget_loop_none [OF None, of i] by (auto simp: in_use_def)
    have e: "snd ?r = List.find (\<lambda>k. iref (?is ! k) = 0) [0..<NINODE]" using iget_loop_empty [OF None] by simp
    show ?thesis
    proof (cases "snd ?r")
      case (Some ip)
      then have lt: "ip < NINODE" "iref (?is ! ip) = 0" using e by (simp_all add: find_upt)
      let ?x = "(?is ! ip)\<lparr>idev := dev, inum := no, iref := 1, iflags := 0\<rparr>"
      have run: "iget dev no s = Inr (ip, s\<lparr>inodes := ?is[ip := ?x]\<rparr>)"
        using Some None lk lu by (cases ?r) (simp add: iget_def icache_acquire_def icache_release_def upd_inode_def)
      have "icache_ok (?is[ip := ?x])"
        by (rule icache_ok_upd [OF ok lt(1)]) (use no in_use_pos [OF ok] in auto)
      then show ?thesis using run no lk lt len
        by (intro disjI1 exI [of _ ip] exI [of _ "s\<lparr>inodes := ?is[ip := ?x]\<rparr>"]) (simp add: in_use_def)
    next
      case None': None
      then have "0 < sint (iref (?is ! i))" if "i < NINODE" for i
        using e in_use_pos [OF ok that] that by (auto simp: find_None_iff in_use_def)
      moreover have "iget dev no s = Inl (Panic ''iget: no inodes'')"
        using None None' lk by (cases ?r) (simp add: iget_def icache_acquire_def)
      ultimately show ?thesis using no by blast
    qed
  qed
qed


section \<open>Properties\<close>

text \<open>
  C11: what \<open>iupdate\<close> writes, \<open>ilock\<close> reads back. In a transaction with room, \<open>iupdate\<close> succeeds, changes
  the disk copy of no other inode, and from then on locking the same inode through any fresh cache entry,
  whatever the cache holds otherwise, loads exactly the type, device numbers, link count, size and
  block addresses the inode had.
\<close>

theorem iupdate_ilock_roundtrip:
  fixes s :: "'a fs_st_scheme"
  assumes "in_trans s n" "idev (inodes s ! ip) = 1" "length (iaddrs (inodes s ! ip)) = NDIRECT + 1" "itype (inodes s ! ip) \<noteq> 0"
    and "room s (IBLOCK (inum (inodes s ! ip)) (sb s))" "IBLOCK (inum (inodes s ! ip)) (sb s) \<notin> log_area (lstart s)"
    and "int n < log_cap s" "\<not> icache_lock s"
  shows "\<exists>t. iupdate ip s = Inr t \<and> inodes t = inodes s
     \<and> (\<forall>no. no \<noteq> inum (inodes s ! ip) \<longrightarrow> dinode_at (bview t (IBLOCK no (sb s))) (unat no mod IPB)
          = dinode_at (bview s (IBLOCK no (sb s))) (unat no mod IPB))
     \<and> (\<forall>is jp. jp < length is \<and> idev (is ! jp) = 1 \<and> inum (is ! jp) = inum (inodes s ! ip) \<and> 1 \<le> sint (iref (is ! jp))
          \<and> iflags (is ! jp) = 0 \<longrightarrow>
          (\<exists>u. ilock (Some jp) (t\<lparr>inodes := is\<rparr>) = Inr u \<and> to_dinode (inodes u ! jp) = to_dinode (inodes s ! ip)))"
  by (rule inode_write_read [OF assms])

text \<open>A regular file with inode number 3.\<close>

definition file3 :: inode where
  "file3 = \<lparr>idev = 1, inum = 3, iref = 1, iflags = 0, itype = T_FILE, imajor = 0, iminor = 0, inlink = 1, isize = 700,
     iaddrs = 50 # 51 # replicate 11 0\<rparr>"

theorem iupdate_ilock_roundtrip_witness:
  "\<exists>t u. iupdate 0 (small_fs [file3]) = Inr t \<and> ilock (Some 0) (t\<lparr>inodes := [file3\<lparr>isize := 0, iaddrs := []\<rparr>]\<rparr>) = Inr u
     \<and> isize (inodes u ! 0) = 700 \<and> iaddrs (inodes u ! 0) = 50 # 51 # replicate 11 0"
proof -
  let ?s = "small_fs [file3]"
  have i: "inodes ?s ! 0 = file3" by (simp add: small_fs_facts)
  have B: "IBLOCK 3 (sb ?s) = 34" by (simp add: IBLOCK_def small_fs_def log_st.defs IPB_def BSIZE_def)
  have la: "34 \<notin> log_area 2" using log_area_dist [of 34 2] by (auto simp: LOGSIZE_def MAXOPBLOCKS_def)
  have a: "idev (inodes ?s ! 0) = 1" "length (iaddrs (inodes ?s ! 0)) = NDIRECT + 1" "itype (inodes ?s ! 0) \<noteq> 0"
    "room ?s (IBLOCK (inum (inodes ?s ! 0)) (sb ?s))" "IBLOCK (inum (inodes ?s ! 0)) (sb ?s) \<notin> log_area (lstart ?s)" "int 0 < log_cap ?s"
    using B la by (simp_all add: i file3_def NDIRECT_def T_FILE_def room_def small_fs_facts NBUF_def)
  obtain t where t: "iupdate 0 ?s = Inr t" "\<forall>is jp. jp < length is \<and> idev (is ! jp) = 1 \<and> inum (is ! jp) = inum (inodes ?s ! 0)
      \<and> 1 \<le> sint (iref (is ! jp)) \<and> iflags (is ! jp) = 0 \<longrightarrow>
      (\<exists>u. ilock (Some jp) (t\<lparr>inodes := is\<rparr>) = Inr u \<and> to_dinode (inodes u ! jp) = to_dinode (inodes ?s ! 0))"
    using iupdate_ilock_roundtrip [OF small_fs_facts(5) a small_fs_facts(10)] by blast
  obtain u where "ilock (Some 0) (t\<lparr>inodes := [file3\<lparr>isize := 0, iaddrs := []\<rparr>]\<rparr>) = Inr u" "to_dinode (inodes u ! 0) = to_dinode file3"
    using t(2) [rule_format, of 0 "[file3\<lparr>isize := 0, iaddrs := []\<rparr>]"] unfolding i by (auto simp: file3_def)
  then show ?thesis using t(1) by (auto simp: to_dinode_def file3_def)
qed

text \<open>
  C16: the inode cache keeps one entry per inode. \<open>iget\<close> returns an entry for the inode asked for and
  changes no other: the entry in use if there is one, with one reference more, else a free entry with
  one reference and nothing loaded; it panics only when no entry is free and none is for this inode.
  No two entries in use are for the same inode afterwards.
\<close>

theorem iget_unique_entry:
  fixes s :: "'a fs_st_scheme"
  assumes "icache_ok (inodes s)" "\<not> icache_lock s" "\<And>i. i < NINODE \<Longrightarrow> sint (iref (inodes s ! i)) < 2 ^ 31 - 1"
  shows "(\<exists>ip t. iget dev no s = Inr (ip, t) \<and> in_use (inodes t) dev no ip \<and> icache_ok (inodes t) \<and> \<not> icache_lock t
        \<and> (\<forall>i. i \<noteq> ip \<longrightarrow> inodes t ! i = inodes s ! i)
        \<and> (if in_use (inodes s) dev no ip then sint (iref (inodes t ! ip)) = sint (iref (inodes s ! ip)) + 1
           else iref (inodes s ! ip) = 0 \<and> iref (inodes t ! ip) = 1 \<and> iflags (inodes t ! ip) = 0 \<and> (\<forall>i. \<not> in_use (inodes s) dev no i)))
     \<or> iget dev no s = Inl (Panic ''iget: no inodes'') \<and> (\<forall>i < NINODE. 0 < sint (iref (inodes s ! i)) \<and> \<not> in_use (inodes s) dev no i)"
  by (rule iget_ok [OF assms])

theorem iget_unique_entry_witness:
  "\<exists>ip t. iget 1 3 (small_fs (file3 # replicate 49 (file3\<lparr>iref := 0\<rparr>))) = Inr (ip, t) \<and> sint (iref (inodes t ! ip)) = 2"
proof -
  define l where "l = file3 # replicate 49 (file3\<lparr>iref := 0\<rparr>)"
  let ?s = "small_fs l"
  have len: "length l = NINODE" and nth: "\<And>i. i < NINODE \<Longrightarrow> l ! i = (if i = 0 then file3 else file3\<lparr>iref := 0\<rparr>)"
    by (simp_all add: l_def NINODE_def nth_Cons')
  have f: "iref file3 = 1" "idev file3 = 1" "inum file3 = 3" by (simp_all add: file3_def)
  have ok: "icache_ok (inodes ?s)" unfolding small_fs_facts icache_ok_def using nth f len by (auto split: if_splits)
  have bound: "\<And>i. i < NINODE \<Longrightarrow> sint (iref (inodes ?s ! i)) < 2 ^ 31 - 1" using nth f by (simp add: small_fs_facts)
  have zero: "0 < NINODE" by (simp add: NINODE_def)
  have "in_use l 1 3 i \<longleftrightarrow> i = 0" for i using nth [of i] f zero by (auto simp: in_use_def split: if_splits)
  then have use: "in_use (inodes ?s) 1 3 i \<longleftrightarrow> i = 0" for i by (simp add: small_fs_facts)
  have one: "sint (iref (inodes ?s ! 0)) = 1" using nth [OF zero] by (simp add: small_fs_facts f)
  have no_panic: "\<not> (\<forall>i < NINODE. 0 < sint (iref (inodes ?s ! i)) \<and> \<not> in_use (inodes ?s) 1 3 i)" using use zero by blast
  obtain ip t where t: "iget 1 3 ?s = Inr (ip, t)"
    "if in_use (inodes ?s) 1 3 ip then sint (iref (inodes t ! ip)) = sint (iref (inodes ?s ! ip)) + 1
     else iref (inodes ?s ! ip) = 0 \<and> iref (inodes t ! ip) = 1 \<and> iflags (inodes t ! ip) = 0 \<and> (\<forall>i. \<not> in_use (inodes ?s) 1 3 i)"
    using iget_unique_entry [OF ok small_fs_facts(10) bound, of 1 3] no_panic by blast
  have "ip = 0" using t(2) use by (metis (full_types))
  then show ?thesis using t one use unfolding l_def [symmetric] by auto
qed

end
