(* ===== verification/Select.thy ===== *)
theory Select
  imports Klock
begin

text \<open>
  The select lists of \<open>src/select.c\<close> and the descriptor sets of \<open>src/select.h\<close>. A list entry
  \<open>sel[i]\<close> points to the \<open>selid\<close> of a process and is modelled by that process's index; \<open>lk[i]\<close>
  points to the \<open>selectlock\<close> of a process, again by index. The state shared with the scheduler is
  the select locks and the channels that have been woken.
\<close>

section \<open>Definitions\<close>

definition NSELPROC :: nat where "NSELPROC = 16"

record selproc =
  sel :: "nat option list"
  sellk :: "nat list"
  selcount :: i32

record sel_st =
  sel_locks :: "bool list"
  sel_woken :: "nat list"
  chan_woken :: "string list"

definition initselproc :: "selproc \<Rightarrow> selproc" where
  "initselproc s = fold (\<lambda>i s. s\<lparr>sel := (sel s)[i := None]\<rparr>) [0..<NSELPROC] (s\<lparr>selcount := 0\<rparr>)"

definition clearselid_step :: "nat \<Rightarrow> nat \<Rightarrow> selproc \<Rightarrow> selproc" where
  "clearselid_step p i s =
     (if sel s ! i = Some p then s\<lparr>sel := (sel s)[i := None], selcount := selcount s - 1\<rparr> else s)"

definition clearselid :: "selproc \<Rightarrow> nat \<Rightarrow> selproc" where
  "clearselid s p = fold (clearselid_step p) [0..<NSELPROC] s"

definition addselid :: "selproc \<Rightarrow> nat \<Rightarrow> nat \<Rightarrow> selproc" where
  "addselid s p lk =
     (case List.find (\<lambda>i. sel s ! i = None) [0..<NSELPROC] of
        None \<Rightarrow> s
      | Some i \<Rightarrow> s\<lparr>sel := (sel s)[i := Some p], sellk := (sellk s)[i := lk], selcount := selcount s + 1\<rparr>)"

definition wakeupselect_step :: "selproc \<Rightarrow> nat \<Rightarrow> 'a sel_st_scheme \<Rightarrow> 'a sel_st_scheme res" where
  "wakeupselect_step sp i s =
     (case sel sp ! i of None \<Rightarrow> Inr s | Some p \<Rightarrow>
      let k = sellk sp ! i in
      bind_res (lock_acquire (sel_locks s ! k)) (\<lambda>l.
      let s = s\<lparr>sel_locks := (sel_locks s)[k := l], sel_woken := sel_woken s @ [p]\<rparr> in
      bind_res (lock_release (sel_locks s ! k)) (\<lambda>l.
      Inr (s\<lparr>sel_locks := (sel_locks s)[k := l]\<rparr>))))"

definition wakeupselect :: "selproc \<Rightarrow> 'a sel_st_scheme \<Rightarrow> 'a sel_st_scheme res" where
  "wakeupselect sp s = for_res [0..<NSELPROC] (wakeupselect_step sp) s"

text \<open>Descriptor sets: \<open>1 << fd\<close> is a shift of an \<open>int\<close>.\<close>

definition fd_set :: "nat \<Rightarrow> i32 \<Rightarrow> i32" where "fd_set fd st = st OR push_bit fd 1"
definition fd_isset :: "nat \<Rightarrow> i32 \<Rightarrow> i32" where "fd_isset fd st = st AND push_bit fd 1"
definition fd_clr :: "nat \<Rightarrow> i32 \<Rightarrow> i32" where "fd_clr fd st = st AND NOT (push_bit fd 1)"
definition fd_zero :: "i32 \<Rightarrow> i32" where "fd_zero st = 0"


section \<open>The lists\<close>

definition selproc_ok :: "selproc \<Rightarrow> bool" where
  "selproc_ok s \<longleftrightarrow> length (sel s) = NSELPROC \<and> length (sellk s) = NSELPROC"

definition waiting :: "selproc \<Rightarrow> nat set" where
  "waiting s = {p. Some p \<in> set (sel s)}"

definition locks_free :: "selproc \<Rightarrow> 'a sel_st_scheme \<Rightarrow> bool" where
  "locks_free sp s \<longleftrightarrow> (\<forall>i < NSELPROC. sel sp ! i \<noteq> None \<longrightarrow> sellk sp ! i < length (sel_locks s) \<and> \<not> sel_locks s ! (sellk sp ! i))"

lemma fold_clear: "n \<le> length (sel s) \<Longrightarrow>
  sel (fold (\<lambda>i s. s\<lparr>sel := (sel s)[i := None]\<rparr>) [0..<n] s) = replicate n None @ drop n (sel s)
  \<and> sellk (fold (\<lambda>i s. s\<lparr>sel := (sel s)[i := None]\<rparr>) [0..<n] s) = sellk s
  \<and> selcount (fold (\<lambda>i s. s\<lparr>sel := (sel s)[i := None]\<rparr>) [0..<n] s) = selcount s"
proof (induction n)
  case (Suc n)
  then have "drop n (sel s) = sel s ! n # drop (Suc n) (sel s)" by (simp add: Cons_nth_drop_Suc)
  with Suc show ?case by (simp add: list_update_append replicate_append_same)
qed simp

lemma initselproc_ok:
  assumes "selproc_ok s"
  shows "selproc_ok (initselproc s)" "waiting (initselproc s) = {}" "selcount (initselproc s) = 0"
  using assms fold_clear [of NSELPROC "s\<lparr>selcount := 0\<rparr>"]
  by (simp_all add: initselproc_def selproc_ok_def waiting_def set_replicate_conv_if)

lemma fold_clearselid: "n \<le> length (sel s) \<Longrightarrow>
  sel (fold (clearselid_step p) [0..<n] s) = map (\<lambda>x. if x = Some p then None else x) (take n (sel s)) @ drop n (sel s)
  \<and> sellk (fold (clearselid_step p) [0..<n] s) = sellk s"
proof (induction n)
  case (Suc n)
  then have d: "drop n (sel s) = sel s ! n # drop (Suc n) (sel s)" "take (Suc n) (sel s) = take n (sel s) @ [sel s ! n]"
    by (simp_all add: Cons_nth_drop_Suc take_Suc_conv_app_nth)
  with Suc show ?case
    by (simp add: clearselid_step_def list_update_append nth_append min_def)
qed simp

lemma clearselid_ok:
  assumes "selproc_ok s"
  shows "selproc_ok (clearselid s p)" "waiting (clearselid s p) = waiting s - {p}"
  using assms fold_clearselid [of NSELPROC s p] by (auto simp: clearselid_def selproc_ok_def waiting_def)

lemma addselid_ok:
  assumes "selproc_ok s"
  shows "selproc_ok (addselid s p lk)"
    "None \<in> set (sel s) \<Longrightarrow> waiting (addselid s p lk) = insert p (waiting s)"
    "None \<notin> set (sel s) \<Longrightarrow> addselid s p lk = s"
proof -
  show "selproc_ok (addselid s p lk)" using assms by (simp add: addselid_def selproc_ok_def split: option.split)
  have len: "length (sel s) = NSELPROC" using assms by (simp add: selproc_ok_def)
  show "None \<notin> set (sel s) \<Longrightarrow> addselid s p lk = s"
  proof -
    assume "None \<notin> set (sel s)"
    then have "List.find (\<lambda>i. sel s ! i = None) [0..<NSELPROC] = None"
      using len by (fastforce simp: find_None_iff in_set_conv_nth)
    then show "addselid s p lk = s" by (simp add: addselid_def)
  qed
  assume "None \<in> set (sel s)"
  then obtain j where "j < NSELPROC" "sel s ! j = None" using len by (metis in_set_conv_nth)
  then obtain i where i: "List.find (\<lambda>i. sel s ! i = None) [0..<NSELPROC] = Some i"
    by (cases "List.find (\<lambda>i. sel s ! i = None) [0..<NSELPROC]") (auto simp: find_None_iff)
  then have "i < length (sel s)" "sel s ! i = None" using len by (auto simp: find_Some_iff)
  then have old: "set (sel s) = insert None (set (take i (sel s)) \<union> set (drop (Suc i) (sel s)))"
    and new: "set ((sel s)[i := Some p]) = insert (Some p) (set (take i (sel s)) \<union> set (drop (Suc i) (sel s)))"
    by (metis id_take_nth_drop Un_insert_right list.simps(15) set_append, simp add: upd_conv_take_nth_drop)
  have "sel (addselid s p lk) = (sel s)[i := Some p]" using i by (simp add: addselid_def)
  then show "waiting (addselid s p lk) = insert p (waiting s)" unfolding waiting_def by (auto simp: old new)
qed

text \<open>Waking: every process in the list, and the locks are free again.\<close>

lemma wakeupselect_upto:
  assumes "locks_free sp s" "n \<le> NSELPROC"
  shows "for_res [0..<n] (wakeupselect_step sp) s = Inr (s\<lparr>sel_woken := sel_woken s @ concat (map (\<lambda>i. case sel sp ! i of None \<Rightarrow> [] | Some p \<Rightarrow> [p]) [0..<n])\<rparr>)"
  using assms(2)
proof (induction n)
  case (Suc n)
  have "wakeupselect_step sp n (s\<lparr>sel_woken := w\<rparr>) = Inr (s\<lparr>sel_woken := w @ (case sel sp ! n of None \<Rightarrow> [] | Some p \<Rightarrow> [p])\<rparr>)" for w
  proof (cases "sel sp ! n")
    case (Some p)
    then have k: "sellk sp ! n < length (sel_locks s)" "\<not> sel_locks s ! (sellk sp ! n)"
      using assms(1) Suc.prems by (auto simp: locks_free_def)
    then have "(sel_locks s)[sellk sp ! n := False] = sel_locks s" by (metis list_update_id)
    then have "s\<lparr>sel_woken := x, sel_locks := (sel_locks s)[sellk sp ! n := False]\<rparr> = s\<lparr>sel_woken := x\<rparr>" for x by simp
    then show ?thesis using k Some by (simp add: wakeupselect_step_def Let_def)
  qed (simp add: wakeupselect_step_def)
  then show ?case using Suc by (simp add: for_res_append)
qed simp

lemma wakeupselect_ok:
  assumes "locks_free sp s"
  shows "wakeupselect sp s = Inr (s\<lparr>sel_woken := sel_woken s @ map the (filter (\<lambda>x. x \<noteq> None) (map (\<lambda>i. sel sp ! i) [0..<NSELPROC]))\<rparr>)"
proof -
  have "concat (map (\<lambda>i. case sel sp ! i of None \<Rightarrow> [] | Some p \<Rightarrow> [p]) is) = map the (filter (\<lambda>x. x \<noteq> None) (map (\<lambda>i. sel sp ! i) is))" for "is"
    by (induction "is") (auto split: option.split)
  then show ?thesis using wakeupselect_upto [OF assms order_refl] by (simp add: wakeupselect_def)
qed

end
