(* ===== verification/Pipe.thy ===== *)
theory Pipe
  imports Select Ring
begin

text \<open>
  Pipes, from \<open>src/pipe.c\<close>. A pipe is a ring of 512 bytes with two running counters. The bytes a caller
  passes or receives are lists. A call that sleeps gives up the pipe's lock and is resumed when its
  channel is woken: the result \<open>Asleep i\<close> carries the loop index \<open>i\<close>, and \<open>pipewrite_resume\<close>
  continues from there; resuming a read is reading again. Allocation and release of the pipe's page are in \<open>File\<close>.
\<close>

section \<open>Definitions\<close>

definition PIPESIZE :: nat where "PIPESIZE = 512"

record pipe =
  pp_lock :: bool
  pp_data :: "u8 list"
  nread :: u32
  nwrite :: u32
  readopen :: i32
  writeopen :: i32
  selprocread :: selproc
  selprocwrite :: selproc
  pp_encrypted :: u8
  pp_key :: u32
  pp_counter :: u32

record pipe_st = sel_st +
  pp :: pipe

datatype outcome = Returned i32 | Asleep nat

definition pipe_slot :: "u32 \<Rightarrow> nat" where "pipe_slot k = unat k mod PIPESIZE"

definition pipe_acquire :: "'a pipe_st_scheme \<Rightarrow> 'a pipe_st_scheme res" where
  "pipe_acquire s = bind_res (lock_acquire (pp_lock (pp s))) (\<lambda>l. Inr (s\<lparr>pp := (pp s)\<lparr>pp_lock := l\<rparr>\<rparr>))"

definition pipe_release :: "'a pipe_st_scheme \<Rightarrow> 'a pipe_st_scheme res" where
  "pipe_release s = bind_res (lock_release (pp_lock (pp s))) (\<lambda>l. Inr (s\<lparr>pp := (pp s)\<lparr>pp_lock := l\<rparr>\<rparr>))"

definition wake_chan :: "string \<Rightarrow> 'a sel_st_scheme \<Rightarrow> 'a sel_st_scheme" where
  "wake_chan c s = s\<lparr>chan_woken := chan_woken s @ [c]\<rparr>"

text \<open>The fields that \<open>pipealloc\<close> sets in the page it got; the rest of the page is as it was.\<close>

definition pipe_init :: "pipe \<Rightarrow> pipe" where
  "pipe_init p = p\<lparr>readopen := 1, writeopen := 1, nwrite := 0, nread := 0, selprocread := initselproc (selprocread p),
     selprocwrite := initselproc (selprocwrite p), pp_lock := False\<rparr>"

text \<open>The result tells whether the page is freed.\<close>

definition pipeclose :: "bool \<Rightarrow> 'a pipe_st_scheme \<Rightarrow> (bool \<times> 'a pipe_st_scheme) res" where
  "pipeclose writable s =
     bind_res (pipe_acquire s) (\<lambda>s.
     bind_res (if writable then
                 bind_res (wakeupselect (selprocread (pp s)) (s\<lparr>pp := (pp s)\<lparr>writeopen := 0\<rparr>\<rparr>)) (\<lambda>s. Inr (wake_chan ''nread'' s))
               else
                 bind_res (wakeupselect (selprocwrite (pp s)) (s\<lparr>pp := (pp s)\<lparr>readopen := 0\<rparr>\<rparr>)) (\<lambda>s. Inr (wake_chan ''nwrite'' s))) (\<lambda>s.
     let gone = (readopen (pp s) = 0 \<and> writeopen (pp s) = 0) in
     bind_res (pipe_release s) (\<lambda>s. Inr (gone, s))))"

text \<open>
  The copy loop of \<open>pipewrite\<close>, for the bytes \<open>i\<close> to \<open>n\<close>. The second result is the number of bytes
  accepted so far.
\<close>

primrec pipewrite_loop :: "bool \<Rightarrow> u8 list \<Rightarrow> nat \<Rightarrow> nat \<Rightarrow> 'a pipe_st_scheme \<Rightarrow> ((outcome \<times> nat) \<times> 'a pipe_st_scheme) res" where
  "pipewrite_loop killed addr i 0 s =
     bind_res (wakeupselect (selprocread (pp s)) s) (\<lambda>s.
     bind_res (pipe_release (wake_chan ''nread'' s)) (\<lambda>s.
     Inr ((Returned (of_nat i), i), s)))"
| "pipewrite_loop killed addr i (Suc m) s =
     (if nwrite (pp s) = nread (pp s) + of_nat PIPESIZE then
        (if readopen (pp s) = 0 \<or> killed then bind_res (pipe_release s) (\<lambda>s. Inr ((Returned (- 1), i), s))
         else
           bind_res (wakeupselect (selprocread (pp s)) s) (\<lambda>s.
           bind_res (pipe_release (wake_chan ''nread'' s)) (\<lambda>s.
           Inr ((Asleep i, i), s))))
      else
        (let p = pp s;
           p = p\<lparr>pp_data := (pp_data p)[pipe_slot (nwrite p) := addr ! i], nwrite := nwrite p + 1\<rparr>
         in pipewrite_loop killed addr (Suc i) m (s\<lparr>pp := p\<rparr>)))"

definition pipewrite_resume :: "bool \<Rightarrow> u8 list \<Rightarrow> i32 \<Rightarrow> nat \<Rightarrow> 'a pipe_st_scheme \<Rightarrow> ((outcome \<times> nat) \<times> 'a pipe_st_scheme) res" where
  "pipewrite_resume killed addr n i s = bind_res (pipe_acquire s) (pipewrite_loop killed addr i (nat (sint n) - i))"

text \<open>For a negative \<open>n\<close> the loop does not run and \<open>n\<close> is returned.\<close>

definition pipewrite :: "bool \<Rightarrow> u8 list \<Rightarrow> i32 \<Rightarrow> 'a pipe_st_scheme \<Rightarrow> ((outcome \<times> nat) \<times> 'a pipe_st_scheme) res" where
  "pipewrite killed addr n s =
     bind_res (pipewrite_resume killed addr n 0 s) (\<lambda>((r, i), s).
     Inr ((if sint n < 0 then Returned n else r, i), s))"

primrec piperead_loop :: "nat \<Rightarrow> u8 list \<Rightarrow> pipe \<Rightarrow> u8 list \<times> pipe" where
  "piperead_loop 0 acc p = (acc, p)"
| "piperead_loop (Suc m) acc p =
     (if nread p = nwrite p then (acc, p)
      else piperead_loop m (acc @ [pp_data p ! pipe_slot (nread p)]) (p\<lparr>nread := nread p + 1\<rparr>))"

definition piperead :: "bool \<Rightarrow> i32 \<Rightarrow> 'a pipe_st_scheme \<Rightarrow> ((outcome \<times> u8 list) \<times> 'a pipe_st_scheme) res" where
  "piperead killed n s =
     bind_res (pipe_acquire s) (\<lambda>s.
     if nread (pp s) = nwrite (pp s) \<and> writeopen (pp s) \<noteq> 0 then
       (if killed then bind_res (pipe_release s) (\<lambda>s. Inr ((Returned (- 1), []), s))
        else bind_res (pipe_release s) (\<lambda>s. Inr ((Asleep 0, []), s)))
     else
       (case piperead_loop (nat (sint n)) [] (pp s) of (bs, p) \<Rightarrow>
        bind_res (wakeupselect (selprocwrite p) (s\<lparr>pp := p\<rparr>)) (\<lambda>s.
        bind_res (pipe_release (wake_chan ''nwrite'' s)) (\<lambda>s.
        Inr ((Returned (of_nat (length bs)), bs), s)))))"

definition pipewriteable :: "bool \<Rightarrow> pipe \<Rightarrow> i32" where
  "pipewriteable killed p = (if readopen p = 0 \<or> killed then - 1 else of_bool (nwrite p \<noteq> nread p + of_nat PIPESIZE))"

definition pipereadable :: "bool \<Rightarrow> pipe \<Rightarrow> i32" where
  "pipereadable killed p = (if killed then - 1 else of_bool (nread p \<noteq> nwrite p \<or> writeopen p = 0))"

definition pipeselect :: "pipe \<Rightarrow> nat \<Rightarrow> i32 \<Rightarrow> nat \<Rightarrow> i32 \<times> pipe" where
  "pipeselect p who v lk =
     (0, if v = 5 then
           (if sint (selcount (selprocread p)) < int NSELPROC then p\<lparr>selprocread := addselid (selprocread p) who lk\<rparr> else p)
         else
           (if sint (selcount (selprocwrite p)) < int NSELPROC then p\<lparr>selprocwrite := addselid (selprocwrite p) who lk\<rparr> else p))"

definition pipeclrsel :: "pipe \<Rightarrow> nat \<Rightarrow> i32 \<Rightarrow> i32 \<times> pipe" where
  "pipeclrsel p who v =
     (0, if v = 5 then p\<lparr>selprocread := clearselid (selprocread p) who\<rparr>
         else p\<lparr>selprocwrite := clearselid (selprocwrite p) who\<rparr>)"


section \<open>The ring\<close>

interpretation pipe_ring: ring_index PIPESIZE pipe_slot "\<lambda>_. True"
proof
  show "0 < PIPESIZE" by (simp add: PIPESIZE_def)
  have "(k mod 2 ^ 32) mod 512 = k mod 512" for k :: nat by (rule mod_mod_cancel) simp
  then show "pipe_slot (of_nat k) = k mod PIPESIZE" for k by (simp add: pipe_slot_def PIPESIZE_def unat_of_nat)
qed

text \<open>\<open>st\<close> is everything written so far, of which \<open>r\<close> bytes have been read.\<close>

definition pipe_rep :: "u8 list \<Rightarrow> nat \<Rightarrow> pipe \<Rightarrow> bool" where
  "pipe_rep st r p \<longleftrightarrow> ring_rep PIPESIZE st (pp_data p) \<and> nwrite p = of_nat (length st) \<and> nread p = of_nat r
     \<and> r \<le> length st \<and> length st \<le> r + PIPESIZE"

lemma of_nat_window: "a \<le> b \<Longrightarrow> b \<le> a + PIPESIZE \<Longrightarrow> (of_nat a :: u32) = of_nat b \<longleftrightarrow> a = b"
proof
  assume ab: "a \<le> b" "b \<le> a + PIPESIZE" and eq: "(of_nat a :: u32) = of_nat b"
  have "(of_nat (b - a) :: u32) = of_nat b - of_nat a" using ab(1) by (simp add: of_nat_diff)
  then have "(of_nat (b - a) :: u32) = 0" using eq by simp
  moreover have "unat (of_nat (b - a) :: u32) = b - a" using ab(2) by (simp add: unat_of_nat PIPESIZE_def)
  ultimately show "a = b" using ab(1) by simp
qed simp

lemma pipe_full: "pipe_rep st r p \<Longrightarrow> nwrite p = nread p + of_nat PIPESIZE \<longleftrightarrow> length st = r + PIPESIZE"
  using of_nat_window [of "length st" "r + PIPESIZE"] by (auto simp: pipe_rep_def)

lemma pipe_empty: "pipe_rep st r p \<Longrightarrow> nread p = nwrite p \<longleftrightarrow> r = length st"
  using of_nat_window [of r "length st"] by (auto simp: pipe_rep_def)

lemma pipe_put:
  assumes "pipe_rep st r p" "length st < r + PIPESIZE"
  shows "pipe_rep (st @ [b]) r (p\<lparr>pp_data := (pp_data p)[pipe_slot (nwrite p) := b], nwrite := nwrite p + 1\<rparr>)"
  using assms pipe_ring.ring_put [of st "pp_data p" b] by (simp add: pipe_rep_def add.commute)

lemma pipe_get:
  assumes "pipe_rep st r p" "r < length st"
  shows "pp_data p ! pipe_slot (nread p) = st ! r" "pipe_rep st (Suc r) (p\<lparr>nread := nread p + 1\<rparr>)"
  using assms pipe_ring.ring_get [of st "pp_data p" r] by (simp_all add: pipe_rep_def add.commute)

lemma piperead_loop_ok:
  assumes "pipe_rep st r p"
  shows "\<exists>p'. piperead_loop m acc p = (acc @ take m (drop r st), p') \<and> pipe_rep st (r + length (take m (drop r st))) p'
     \<and> p' = p\<lparr>nread := nread p'\<rparr>"
  using assms
proof (induction m arbitrary: r acc p)
  case (Suc m)
  show ?case
  proof (cases "r < length st")
    case True
    note g = pipe_get [OF Suc.prems True]
    obtain p' where p': "piperead_loop m (acc @ [st ! r]) (p\<lparr>nread := nread p + 1\<rparr>) = ((acc @ [st ! r]) @ take m (drop (Suc r) st), p')"
      "pipe_rep st (Suc r + length (take m (drop (Suc r) st))) p'" "p' = p\<lparr>nread := nread p + 1, nread := nread p'\<rparr>"
      using Suc.IH [OF g(2)] by blast
    have "take (Suc m) (drop r st) = st ! r # take m (drop (Suc r) st)" using True by (simp add: Cons_nth_drop_Suc [symmetric])
    then show ?thesis using p' g(1) pipe_empty [OF Suc.prems] True by simp
  next
    case False
    then show ?thesis using Suc.prems pipe_empty [OF Suc.prems] by (simp add: pipe_rep_def)
  qed
qed auto

lemma wakeupselect_frame: "wakeupselect sp s = Inr t \<Longrightarrow> sel_st.more t = sel_st.more s \<and> chan_woken t = chan_woken s"
proof -
  have step: "wakeupselect_step sp i s = Inr t \<Longrightarrow> sel_st.more t = sel_st.more s \<and> chan_woken t = chan_woken s" for i s t
    by (cases s) (auto simp: wakeupselect_step_def Let_def lock_acquire_def lock_release_def split: option.splits if_splits)
  show "wakeupselect sp s = Inr t \<Longrightarrow> sel_st.more t = sel_st.more s \<and> chan_woken t = chan_woken s"
    unfolding wakeupselect_def
    by (erule for_res_invariant [where P = "\<lambda>t. sel_st.more t = sel_st.more s \<and> chan_woken t = chan_woken s"]) (auto dest: step)
qed

lemma wakeupselect_pp:
  fixes s :: "'a pipe_st_scheme"
  shows "wakeupselect sp s = Inr t \<Longrightarrow> pp t = pp s"
  by (drule wakeupselect_frame, cases s, cases t) simp

lemma rep_lock [simp]: "pipe_rep st r (p\<lparr>pp_lock := l\<rparr>) = pipe_rep st r p" "pipe_rep st r (p\<lparr>readopen := a\<rparr>) = pipe_rep st r p"
  "pipe_rep st r (p\<lparr>writeopen := a\<rparr>) = pipe_rep st r p" "pipe_rep st r (p\<lparr>selprocread := x\<rparr>) = pipe_rep st r p"
  "pipe_rep st r (p\<lparr>selprocwrite := x\<rparr>) = pipe_rep st r p"
  by (simp_all add: pipe_rep_def)

lemma wake_chan_pp [simp]: "pp (wake_chan c s) = pp s" by (simp add: wake_chan_def)

lemma pipe_lock_rep:
  "pipe_acquire s = Inr t \<Longrightarrow> pipe_rep st r (pp t) = pipe_rep st r (pp s)"
  "pipe_release s = Inr t \<Longrightarrow> pipe_rep st r (pp t) = pipe_rep st r (pp s)"
  by (auto simp: pipe_acquire_def pipe_release_def lock_acquire_def lock_release_def split: if_splits)


section \<open>Writing and reading\<close>

lemma pipewrite_loop_rep:
  assumes "pipewrite_loop killed addr i m s = Inr ((out, k), t)" "pipe_rep st r (pp s)" "i + m \<le> length addr"
  shows "i \<le> k \<and> k \<le> i + m \<and> pipe_rep (st @ take (k - i) (drop i addr)) r (pp t)"
  using assms
proof (induction m arbitrary: i st s)
  case 0
  then show ?case by (auto simp: bind_res_eq_Inr pipe_lock_rep dest!: wakeupselect_pp)
next
  case (Suc m)
  show ?case
  proof (cases "nwrite (pp s) = nread (pp s) + of_nat PIPESIZE")
    case True
    then show ?thesis using Suc.prems by (auto simp: bind_res_eq_Inr pipe_lock_rep split: if_splits dest!: wakeupselect_pp)
  next
    case False
    define p where "p = (pp s)\<lparr>pp_data := (pp_data (pp s))[pipe_slot (nwrite (pp s)) := addr ! i], nwrite := nwrite (pp s) + 1\<rparr>"
    have "length st < r + PIPESIZE" using False pipe_full [OF Suc.prems(2)] Suc.prems(2) by (auto simp: pipe_rep_def)
    then have p: "pipe_rep (st @ [addr ! i]) r (pp (s\<lparr>pp := p\<rparr>))" using pipe_put [OF Suc.prems(2)] by (simp add: p_def)
    have run: "pipewrite_loop killed addr (Suc i) m (s\<lparr>pp := p\<rparr>) = Inr ((out, k), t)"
      using Suc.prems(1) False by (simp add: Let_def p_def)
    have ih: "Suc i \<le> k" "k \<le> Suc i + m" "pipe_rep ((st @ [addr ! i]) @ take (k - Suc i) (drop (Suc i) addr)) r (pp t)"
      using Suc.IH [OF run p] Suc.prems(3) by auto
    have "take (k - i) (drop i addr) = addr ! i # take (k - Suc i) (drop (Suc i) addr)"
      using ih(1) Suc.prems(3) Suc_diff_Suc [of i k, symmetric] by (simp add: Cons_nth_drop_Suc [symmetric])
    then show ?thesis using ih by simp
  qed
qed

lemma piperead_rep:
  assumes "piperead killed n s = Inr ((out, bs), t)" "pipe_rep st r (pp s)"
  shows "\<exists>m. bs = take m (drop r st) \<and> pipe_rep st (r + length bs) (pp t)"
proof -
  obtain u where u: "pipe_acquire s = Inr u" "pipe_rep st r (pp u)"
    using assms by (auto simp: piperead_def bind_res_eq_Inr pipe_lock_rep)
  show ?thesis
  proof (cases "nread (pp u) = nwrite (pp u) \<and> writeopen (pp u) \<noteq> 0")
    case True
    then have "bs = []" "pipe_rep st r (pp t)" using assms(1) u by (auto simp: piperead_def bind_res_eq_Inr pipe_lock_rep split: if_splits)
    then show ?thesis by (intro exI [of _ 0]) simp
  next
    case False
    obtain p' where p': "piperead_loop (nat (sint n)) [] (pp u) = (take (nat (sint n)) (drop r st), p')"
      "pipe_rep st (r + length (take (nat (sint n)) (drop r st))) p'"
      using piperead_loop_ok [OF u(2), of "nat (sint n)" "[]"] by auto
    have "bs = take (nat (sint n)) (drop r st) \<and> pipe_rep st (r + length bs) (pp t)"
      using assms(1) u(1) False p' by (auto simp: piperead_def bind_res_eq_Inr pipe_lock_rep dest!: wakeupselect_pp)
    then show ?thesis by blast
  qed
qed

text \<open>
  The life of a pipe, with the bytes accepted (\<open>w\<close>) and delivered (\<open>r\<close>) so far. Between its operations
  the select locks and the woken channels change at will.
\<close>

inductive pipe_trace :: "u8 list \<Rightarrow> u8 list \<Rightarrow> pipe_st \<Rightarrow> bool" where
  tr_start: "length (pp_data p) = PIPESIZE \<Longrightarrow> pp s = pipe_init p \<Longrightarrow> pipe_trace [] [] s"
| tr_write: "pipe_trace w r s \<Longrightarrow> i \<le> nat (sint n) \<Longrightarrow> nat (sint n) \<le> length addr \<Longrightarrow>
    pipewrite_resume killed addr n i s = Inr ((out, k), t) \<Longrightarrow> pipe_trace (w @ take (k - i) (drop i addr)) r t"
| tr_read: "pipe_trace w r s \<Longrightarrow> piperead killed n s = Inr ((out, bs), t) \<Longrightarrow> pipe_trace w (r @ bs) t"
| tr_close: "pipe_trace w r s \<Longrightarrow> pipeclose writable s = Inr (gone, t) \<Longrightarrow> pipe_trace w r t"
| tr_select: "pipe_trace w r s \<Longrightarrow> pipeselect (pp s) who v lk = (x, p) \<Longrightarrow> pipe_trace w r (s\<lparr>pp := p\<rparr>)"
| tr_clrsel: "pipe_trace w r s \<Longrightarrow> pipeclrsel (pp s) who v = (x, p) \<Longrightarrow> pipe_trace w r (s\<lparr>pp := p\<rparr>)"
| tr_other: "pipe_trace w r s \<Longrightarrow> pp t = pp s \<Longrightarrow> pipe_trace w r t"

lemma pipe_trace_rep: "pipe_trace w r s \<Longrightarrow> pipe_rep w (length r) (pp s) \<and> take (length r) w = r"
proof (induction rule: pipe_trace.induct)
  case (tr_start p s)
  then show ?case by (simp add: pipe_init_def pipe_rep_def ring_rep_Nil)
next
  case (tr_write w r s i n addr killed out k t)
  obtain u where u: "pipe_acquire s = Inr u" "pipewrite_loop killed addr i (nat (sint n) - i) u = Inr ((out, k), t)"
    using tr_write(4) by (auto simp: pipewrite_resume_def bind_res_eq_Inr)
  have "pipe_rep w (length r) (pp u)" using tr_write(5) u(1) by (simp add: pipe_lock_rep)
  then have "pipe_rep (w @ take (k - i) (drop i addr)) (length r) (pp t)"
    using pipewrite_loop_rep [OF u(2)] tr_write(2,3) by simp
  moreover have "length r \<le> length w" using tr_write(5) by (simp add: pipe_rep_def)
  ultimately show ?case using tr_write(5) by simp
next
  case (tr_read w r s killed n out bs t)
  then obtain m where m: "bs = take m (drop (length r) w)" "pipe_rep w (length r + length bs) (pp t)"
    using piperead_rep by blast
  have "take (length r + length bs) w = take (length r) w @ take (length bs) (drop (length r) w)" by (rule take_add)
  then show ?case using tr_read m by (simp add: min_def)
next
  case (tr_close w r s writable gone t)
  then show ?case
    by (auto simp: pipeclose_def bind_res_eq_Inr pipe_lock_rep Let_def split: if_splits dest!: wakeupselect_pp)
qed (auto simp: pipeselect_def pipeclrsel_def split: if_splits)


section \<open>Progress\<close>

text \<open>What a write does when the lock and the select locks are free: it takes what fits.\<close>

definition pipe_idle :: "'a pipe_st_scheme \<Rightarrow> bool" where
  "pipe_idle s \<longleftrightarrow> \<not> pp_lock (pp s) \<and> locks_free (selprocread (pp s)) s \<and> locks_free (selprocwrite (pp s)) s"

lemma locks_free_pp [simp]: "locks_free x (s\<lparr>pp := p\<rparr>) = locks_free x s" "locks_free x (wake_chan c s) = locks_free x s"
  by (simp_all add: locks_free_def wake_chan_def)

text \<open>The parts of the state an operation leaves alone, with the lock given back.\<close>

definition pipe_kept :: "'a pipe_st_scheme \<Rightarrow> 'a pipe_st_scheme \<Rightarrow> bool" where
  "pipe_kept s t \<longleftrightarrow> \<not> pp_lock (pp t) \<and> sel_locks t = sel_locks s \<and> selprocread (pp t) = selprocread (pp s)
     \<and> selprocwrite (pp t) = selprocwrite (pp s) \<and> readopen (pp t) = readopen (pp s) \<and> writeopen (pp t) = writeopen (pp s)"

lemma pipe_kept_idle: "pipe_idle s \<Longrightarrow> pipe_kept s t \<Longrightarrow> pipe_idle t"
  by (simp add: pipe_idle_def pipe_kept_def locks_free_def)

definition write_outcome :: "bool \<Rightarrow> pipe \<Rightarrow> nat \<Rightarrow> nat \<Rightarrow> nat \<Rightarrow> outcome" where
  "write_outcome killed p i m f =
     (if m \<le> f then Returned (of_nat (i + m)) else if readopen p = 0 \<or> killed then Returned (- 1) else Asleep (i + f))"

lemma pipewrite_loop_total:
  fixes s :: "'a pipe_st_scheme"
  assumes "pipe_rep st r (pp s)" "pp_lock (pp s)" "locks_free (selprocread (pp s)) s"
  shows "\<exists>t. pipewrite_loop killed addr i m s = Inr ((write_outcome killed (pp s) i m (r + PIPESIZE - length st), i + min m (r + PIPESIZE - length st)), t)
     \<and> pipe_kept s t \<and> (readopen (pp s) \<noteq> 0 \<and> \<not> killed \<longrightarrow> ''nread'' \<in> set (chan_woken t))"
  using assms
proof (induction m arbitrary: i st s)
  case 0
  then show ?case by (simp add: wakeupselect_ok pipe_release_def wake_chan_def pipe_kept_def write_outcome_def)
next
  case (Suc m)
  show ?case
  proof (cases "length st = r + PIPESIZE")
    case True
    then show ?thesis
      using Suc.prems pipe_full [OF Suc.prems(1)]
      by (auto simp: wakeupselect_ok pipe_release_def wake_chan_def pipe_kept_def write_outcome_def)
  next
    case False
    define p where "p = (pp s)\<lparr>pp_data := (pp_data (pp s))[pipe_slot (nwrite (pp s)) := addr ! i], nwrite := nwrite (pp s) + 1\<rparr>"
    have lt: "length st < r + PIPESIZE" using False Suc.prems(1) by (simp add: pipe_rep_def)
    have p: "pipe_rep (st @ [addr ! i]) r (pp (s\<lparr>pp := p\<rparr>))" using pipe_put [OF Suc.prems(1) lt] by (simp add: p_def)
    have run: "pipewrite_loop killed addr i (Suc m) s = pipewrite_loop killed addr (Suc i) m (s\<lparr>pp := p\<rparr>)"
      using False pipe_full [OF Suc.prems(1)] by (simp add: Let_def p_def)
    define f where "f = r + PIPESIZE - Suc (length st)"
    have f: "r + PIPESIZE - length st = Suc f" using lt by (simp add: f_def)
    have ps: "pp_lock p" "selprocread p = selprocread (pp s)" "readopen p = readopen (pp s)" "writeopen p = writeopen (pp s)"
      "selprocwrite p = selprocwrite (pp s)"
      using Suc.prems(2) by (simp_all add: p_def)
    have fl: "r + PIPESIZE - length (st @ [addr ! i]) = f" by (simp add: f_def)
    obtain t where t: "pipewrite_loop killed addr (Suc i) m (s\<lparr>pp := p\<rparr>) = Inr ((write_outcome killed p (Suc i) m f, Suc i + min m f), t)"
      "pipe_kept (s\<lparr>pp := p\<rparr>) t" "readopen (pp s) \<noteq> 0 \<and> \<not> killed \<longrightarrow> ''nread'' \<in> set (chan_woken t)"
      using Suc.IH [OF p, of "Suc i"] Suc.prems(3) ps unfolding fl by auto
    have "pipe_kept s t" using t(2) ps by (simp add: pipe_kept_def)
    moreover have "write_outcome killed p (Suc i) m f = write_outcome killed (pp s) i (Suc m) (Suc f)"
      using ps(3) by (simp add: write_outcome_def)
    ultimately show ?thesis using t(1,3) unfolding run f by (intro exI [of _ t]) simp
  qed
qed

lemma pipewrite_total:
  fixes s :: "'a pipe_st_scheme"
  assumes rep: "pipe_rep st r (pp s)" and idle: "pipe_idle s" and i: "i \<le> nat (sint n)" "nat (sint n) \<le> length addr"
  defines "f \<equiv> r + PIPESIZE - length st" and "m \<equiv> nat (sint n) - i"
  shows "\<exists>t. pipewrite_resume killed addr n i s = Inr ((write_outcome killed (pp s) i m f, i + min m f), t)
     \<and> pipe_rep (st @ take (min m f) (drop i addr)) r (pp t) \<and> pipe_kept s t
     \<and> (readopen (pp s) \<noteq> 0 \<and> \<not> killed \<longrightarrow> ''nread'' \<in> set (chan_woken t))"
proof -
  define u where "u = s\<lparr>pp := (pp s)\<lparr>pp_lock := True\<rparr>\<rparr>"
  have u: "pipe_rep st r (pp u)" "pp_lock (pp u)" "locks_free (selprocread (pp u)) u"
    using rep idle by (simp_all add: u_def pipe_idle_def)
  obtain t where t: "pipewrite_loop killed addr i m u = Inr ((write_outcome killed (pp u) i m f, i + min m f), t)" "pipe_kept u t"
    "readopen (pp u) \<noteq> 0 \<and> \<not> killed \<longrightarrow> ''nread'' \<in> set (chan_woken t)"
    using pipewrite_loop_total [OF u] unfolding f_def by blast
  have "pipe_rep (st @ take (min m f) (drop i addr)) r (pp t)"
    using pipewrite_loop_rep [OF t(1) u(1)] i by (simp add: m_def)
  moreover have "pipewrite_resume killed addr n i s = pipewrite_loop killed addr i m u"
    using idle by (simp add: pipewrite_resume_def pipe_acquire_def pipe_idle_def u_def m_def)
  ultimately show ?thesis using t by (auto simp: u_def pipe_kept_def write_outcome_def)
qed

lemma piperead_total:
  fixes s :: "'a pipe_st_scheme"
  assumes rep: "pipe_rep st r (pp s)" and idle: "pipe_idle s" and go: "r < length st \<or> writeopen (pp s) = 0"
    and bs: "bs = take (nat (sint n)) (drop r st)"
  shows "\<exists>t. piperead killed n s = Inr ((Returned (of_nat (length bs)), bs), t) \<and> pipe_rep st (r + length bs) (pp t) \<and> pipe_kept s t
     \<and> ''nwrite'' \<in> set (chan_woken t)"
proof -
  define u where "u = s\<lparr>pp := (pp s)\<lparr>pp_lock := True\<rparr>\<rparr>"
  have u: "pipe_rep st r (pp u)" "pp_lock (pp u)" "locks_free (selprocwrite (pp u)) u" "pipe_acquire s = Inr u"
    using rep idle by (simp_all add: u_def pipe_idle_def pipe_acquire_def)
  have ne: "\<not> (nread (pp u) = nwrite (pp u) \<and> writeopen (pp u) \<noteq> 0)"
    using go pipe_empty [OF u(1)] by (auto simp: u_def)
  obtain p' where p': "piperead_loop (nat (sint n)) [] (pp u) = (bs, p')" "pipe_rep st (r + length bs) p'" "p' = (pp u)\<lparr>nread := nread p'\<rparr>"
    using piperead_loop_ok [OF u(1), of "nat (sint n)" "[]"] by (auto simp: bs)
  have ps: "pp_lock p'" "selprocread p' = selprocread (pp s)" "selprocwrite p' = selprocwrite (pp s)" "readopen p' = readopen (pp s)"
    "writeopen p' = writeopen (pp s)"
    by (subst p'(3), simp add: u_def)+
  have "locks_free (selprocwrite p') (u\<lparr>pp := p'\<rparr>)" using u(3) ps by (simp add: u_def)
  then show ?thesis
    using u(4) ne p'(1,2) ps by (auto simp: piperead_def wakeupselect_ok pipe_release_def wake_chan_def pipe_kept_def) (auto simp: u_def)
qed


section \<open>Properties\<close>

text \<open>
  C5: a pipe is a first-in first-out channel. Over any sequence of writes, resumed writes, reads,
  closes and select calls, with any interleaving by other processes, the bytes delivered so far are
  exactly the first of the bytes accepted so far, in order, none lost, repeated or invented; at most
  512 are in transit, and the tests the code uses for an empty and a full pipe are right even after
  the 32-bit counters have wrapped around.
\<close>

theorem pipe_fifo:
  assumes "pipe_trace w r s"
  shows "\<exists>q. w = r @ q \<and> length q \<le> PIPESIZE \<and> (nread (pp s) = nwrite (pp s) \<longleftrightarrow> q = [])
     \<and> (nwrite (pp s) = nread (pp s) + of_nat PIPESIZE \<longleftrightarrow> length q = PIPESIZE)"
proof -
  have rep: "pipe_rep w (length r) (pp s)" and r: "take (length r) w = r" using pipe_trace_rep [OF assms] by auto
  have le: "length r \<le> length w" "length w \<le> length r + PIPESIZE" using rep by (simp_all add: pipe_rep_def)
  obtain q where q: "w = r @ q" using append_take_drop_id [of "length r" w] unfolding r by metis
  show ?thesis using pipe_empty [OF rep] pipe_full [OF rep] le by (intro exI [of _ q]) (simp add: q)
qed

definition empty_sel :: selproc where
  "empty_sel = \<lparr>sel = replicate NSELPROC None, sellk = replicate NSELPROC 0, selcount = 0\<rparr>"

definition raw_pipe :: pipe where
  "raw_pipe = \<lparr>pp_lock = True, pp_data = replicate PIPESIZE 0, nread = 9, nwrite = 7, readopen = 0, writeopen = 0,
     selprocread = empty_sel, selprocwrite = empty_sel, pp_encrypted = 0, pp_key = 0, pp_counter = 0\<rparr>"

definition new_pipe :: pipe_st where
  "new_pipe = \<lparr>sel_locks = [], sel_woken = [], chan_woken = [], pp = pipe_init raw_pipe\<rparr>"

lemma new_pipe_facts: "pipe_rep [] 0 (pp new_pipe)" "pipe_idle new_pipe" "pipe_trace [] [] new_pipe" "readopen (pp new_pipe) = 1"
  "writeopen (pp new_pipe) = 1"
proof -
  have "selproc_ok empty_sel" by (simp add: empty_sel_def selproc_ok_def)
  note w = initselproc_ok [OF this]
  have "sel (initselproc empty_sel) ! i = None" if "i < NSELPROC" for i
    using w(1,2) that by (auto simp: selproc_ok_def waiting_def) (metis not_Some_eq nth_mem)
  then have "locks_free (initselproc empty_sel) new_pipe" by (simp add: locks_free_def)
  then show "pipe_idle new_pipe" by (simp add: pipe_idle_def new_pipe_def pipe_init_def raw_pipe_def)
  show "pipe_trace [] [] new_pipe" by (rule tr_start [of raw_pipe]) (simp_all add: raw_pipe_def new_pipe_def)
  then show "pipe_rep [] 0 (pp new_pipe)" using pipe_trace_rep by force
  show "readopen (pp new_pipe) = 1" "writeopen (pp new_pipe) = 1" by (simp_all add: new_pipe_def pipe_init_def)
qed

theorem pipe_fifo_witness:
  "\<exists>s. pipe_trace [1, 2, 3] [1, 2] s \<and> nread (pp s) \<noteq> nwrite (pp s)"
proof -
  note n = new_pipe_facts
  obtain t where t: "pipewrite_resume False [1, 2, 3] 3 0 new_pipe = Inr ((write_outcome False (pp new_pipe) 0 3 512, 3), t)"
    "pipe_rep [1, 2, 3] 0 (pp t)" "pipe_kept new_pipe t"
    using pipewrite_total [OF n(1,2), of 0 3 "[1, 2, 3]" False] by (auto simp: PIPESIZE_def)
  have tr: "pipe_trace [1, 2, 3] [] t" using tr_write [OF n(3) _ _ t(1)] by simp
  have idle: "pipe_idle t" by (rule pipe_kept_idle [OF n(2) t(3)])
  obtain u where u: "piperead False 2 t = Inr ((Returned 2, [1, 2]), u)"
    using piperead_total [OF t(2) idle _ refl, where n = 2 and killed = False] by (auto simp: numeral_2_eq_2)
  have "pipe_trace [1, 2, 3] [1, 2] u" using tr_read [OF tr u] by simp
  with pipe_fifo [OF this] show ?thesis by auto
qed

text \<open>
  C15: a blocked end of a pipe is woken and makes progress. If a writer sleeps because the pipe is full and a
  reader asks for at least one byte, the reader gets bytes, the writer's channel is woken, and the
  resumed write accepts at least one more byte. If a reader sleeps because the pipe is empty and open
  and a writer writes at least one byte, the reader's channel is woken and reading again returns at
  least one byte.
\<close>

theorem pipe_unblocks:
  fixes s :: "'a pipe_st_scheme"
  assumes rep: "pipe_rep st r (pp s)" and idle: "pipe_idle s" and op: "readopen (pp s) \<noteq> 0" "writeopen (pp s) \<noteq> 0"
    and n: "0 < sint n" "i < nat (sint n)" "nat (sint n) \<le> length addr" and m: "0 < sint m"
  shows "(length st = r + PIPESIZE \<longrightarrow>
       (\<exists>t. pipewrite_resume False addr n i s = Inr ((Asleep i, i), t)) \<and>
       (\<exists>bs t out k u. piperead False m s = Inr ((Returned (of_nat (length bs)), bs), t) \<and> bs \<noteq> [] \<and> ''nwrite'' \<in> set (chan_woken t)
          \<and> pipewrite_resume False addr n i t = Inr ((out, k), u) \<and> i < k))
     \<and> (r = length st \<longrightarrow>
       (\<exists>t. piperead False m s = Inr ((Asleep 0, []), t)) \<and>
       (\<exists>out k t bs u. pipewrite_resume False addr n i s = Inr ((out, k), t) \<and> i < k \<and> ''nread'' \<in> set (chan_woken t)
          \<and> piperead False m t = Inr ((Returned (of_nat (length bs)), bs), u) \<and> bs \<noteq> []))"
proof (intro conjI impI)
  note w = pipewrite_total [OF rep idle less_imp_le [OF n(2)] n(3), of False]
  show "\<exists>t. pipewrite_resume False addr n i s = Inr ((Asleep i, i), t)" if "length st = r + PIPESIZE"
    using w that op(1) n(2) by (auto simp: write_outcome_def)
  show "\<exists>t. piperead False m s = Inr ((Asleep 0, []), t)" if "r = length st"
    using that pipe_empty [OF rep] idle op(2) by (simp add: piperead_def pipe_acquire_def pipe_release_def pipe_idle_def)
  show "\<exists>bs t out k u. piperead False m s = Inr ((Returned (of_nat (length bs)), bs), t) \<and> bs \<noteq> [] \<and> ''nwrite'' \<in> set (chan_woken t)
      \<and> pipewrite_resume False addr n i t = Inr ((out, k), u) \<and> i < k" if full: "length st = r + PIPESIZE"
  proof -
    let ?bs = "take (nat (sint m)) (drop r st)"
    have lt: "r < length st" using full by (simp add: PIPESIZE_def)
    obtain t where t: "piperead False m s = Inr ((Returned (of_nat (length ?bs)), ?bs), t)" "pipe_rep st (r + length ?bs) (pp t)"
      "pipe_kept s t" "''nwrite'' \<in> set (chan_woken t)"
      using piperead_total [OF rep idle _ refl] lt by blast
    have ne: "?bs \<noteq> []" using lt m by simp
    then have "0 < length ?bs" by simp
    then have "i < i + min (nat (sint n) - i) (r + length ?bs + PIPESIZE - length st)" using n(2) full by (simp add: min_def)
    then show ?thesis
      using t(1,4) ne pipewrite_total [OF t(2) pipe_kept_idle [OF idle t(3)] less_imp_le [OF n(2)] n(3), of False] by blast
  qed
  show "\<exists>out k t bs u. pipewrite_resume False addr n i s = Inr ((out, k), t) \<and> i < k \<and> ''nread'' \<in> set (chan_woken t)
      \<and> piperead False m t = Inr ((Returned (of_nat (length bs)), bs), u) \<and> bs \<noteq> []" if none: "r = length st"
  proof -
    let ?f = "min (nat (sint n) - i) PIPESIZE"
    have f: "0 < ?f" using n(2) by (simp add: PIPESIZE_def)
    obtain out t where t: "pipewrite_resume False addr n i s = Inr ((out, i + ?f), t)"
      "pipe_rep (st @ take ?f (drop i addr)) r (pp t)" "pipe_kept s t" "''nread'' \<in> set (chan_woken t)"
      using w none op(1) by auto
    have lt: "r < length (st @ take ?f (drop i addr))" using none f n by simp
    let ?bs = "take (nat (sint m)) (drop r (st @ take ?f (drop i addr)))"
    have ne: "?bs \<noteq> []" using lt m none by simp
    obtain u where "piperead False m t = Inr ((Returned (of_nat (length ?bs)), ?bs), u)"
      using piperead_total [OF t(2) pipe_kept_idle [OF idle t(3)] _ refl, where n = m and killed = False] lt by blast
    moreover have "i < i + ?f" using f by simp
    ultimately show ?thesis using t(1,4) ne by blast
  qed
qed

theorem pipe_unblocks_witness:
  "\<exists>t bs u out k. pipewrite_resume False [7, 8] 2 0 new_pipe = Inr ((out, k), t) \<and> 0 < k
     \<and> piperead False 5 t = Inr ((Returned (of_nat (length bs)), bs), u) \<and> bs \<noteq> []"
  using pipe_unblocks [OF new_pipe_facts(1,2), of 2 0 "[7, 8]" 5] new_pipe_facts(4,5) by simp blast

end
