(* ===== verification/File.thy ===== *)
theory File
  imports Fs Pipe Prng
begin

text \<open>
  Open files, from \<open>src/file.c\<close>, with the allocation of pipes (\<open>pipealloc\<close> of \<open>src/pipe.c\<close>). A file is an
  index into \<open>ftable.file\<close>. Pipes live in pages of the page allocator and are found by the address of
  their page. Every eleventh read or write feeds the entropy pools. The state of the crypto side
  of the kernel is the field \<open>kst\<close>; the killed flag of the calling process is an argument.
\<close>

section \<open>Definitions\<close>

definition NFILE :: nat where "NFILE = 100"

datatype ftype = FD_NONE | FD_PIPE | FD_INODE

record kfile =
  ftyp :: ftype
  fref :: i32
  freadable :: u8
  fwritable :: u8
  fpipe :: u32
  fip :: nat
  foff :: u32

record file_st = fs_st +
  ftable_lock :: bool
  files :: "kfile list"
  sels :: sel_st
  pipes :: "u32 \<Rightarrow> pipe"
  kst :: prng_st
  read_pool :: u32
  read_operations :: u32
  write_pool :: u32
  write_operations :: u32

definition upd_file :: "nat \<Rightarrow> (kfile \<Rightarrow> kfile) \<Rightarrow> 'a file_st_scheme \<Rightarrow> 'a file_st_scheme" where
  "upd_file f g s = s\<lparr>files := (files s)[f := g (files s ! f)]\<rparr>"

definition ftable_acquire :: "'a file_st_scheme \<Rightarrow> 'a file_st_scheme res" where
  "ftable_acquire s = bind_res (lock_acquire (ftable_lock s)) (\<lambda>l. Inr (s\<lparr>ftable_lock := l\<rparr>))"

definition ftable_release :: "'a file_st_scheme \<Rightarrow> 'a file_st_scheme res" where
  "ftable_release s = bind_res (lock_release (ftable_lock s)) (\<lambda>l. Inr (s\<lparr>ftable_lock := l\<rparr>))"

definition on_kst :: "(prng_st \<Rightarrow> prng_st res) \<Rightarrow> 'a file_st_scheme \<Rightarrow> 'a file_st_scheme res" where
  "on_kst f s = bind_res (f (kst s)) (\<lambda>k. Inr (s\<lparr>kst := k\<rparr>))"

text \<open>An operation on the pipe at address \<open>a\<close>.\<close>

definition on_pipe :: "u32 \<Rightarrow> (pipe_st \<Rightarrow> ('r \<times> pipe_st) res) \<Rightarrow> 'a file_st_scheme \<Rightarrow> ('r \<times> 'a file_st_scheme) res" where
  "on_pipe a f s =
     bind_res (f \<lparr>sel_locks = sel_locks (sels s), sel_woken = sel_woken (sels s), chan_woken = chan_woken (sels s), pp = pipes s a\<rparr>)
       (\<lambda>(r, t). Inr (r, s\<lparr>sels := \<lparr>sel_locks = sel_locks t, sel_woken = sel_woken t, chan_woken = chan_woken t\<rparr>,
                           pipes := (pipes s)(a := pp t)\<rparr>))"

definition fileinit :: "'a file_st_scheme \<Rightarrow> 'a file_st_scheme" where
  "fileinit s = s\<lparr>ftable_lock := False\<rparr>"

definition filealloc :: "'a file_st_scheme \<Rightarrow> (nat option \<times> 'a file_st_scheme) res" where
  "filealloc s =
     bind_res (ftable_acquire s) (\<lambda>s.
     case List.find (\<lambda>f. fref (files s ! f) = 0) [0..<NFILE] of
       Some f \<Rightarrow> bind_res (ftable_release (upd_file f (\<lambda>x. x\<lparr>fref := 1\<rparr>) s)) (\<lambda>s. Inr (Some f, s))
     | None \<Rightarrow> bind_res (ftable_release s) (\<lambda>s. Inr (None, s)))"

definition filedup :: "nat \<Rightarrow> 'a file_st_scheme \<Rightarrow> (nat \<times> 'a file_st_scheme) res" where
  "filedup f s =
     bind_res (ftable_acquire s) (\<lambda>s.
     if sint (fref (files s ! f)) < 1 then Inl (Panic ''filedup'')
     else bind_res (ftable_release (upd_file f (\<lambda>x. x\<lparr>fref := fref x + 1\<rparr>) s)) (\<lambda>s. Inr (f, s)))"

definition fileclose :: "nat \<Rightarrow> 'a file_st_scheme \<Rightarrow> 'a file_st_scheme res" where
  "fileclose f s =
     bind_res (ftable_acquire s) (\<lambda>s.
     if sint (fref (files s ! f)) < 1 then Inl (Panic ''fileclose'')
     else
       (let s = upd_file f (\<lambda>x. x\<lparr>fref := fref x - 1\<rparr>) s in
        if sint (fref (files s ! f)) > 0 then ftable_release s
        else
          (let ff = files s ! f in
           bind_res (ftable_release (upd_file f (\<lambda>x. x\<lparr>fref := 0, ftyp := FD_NONE\<rparr>) s)) (\<lambda>s.
           case ftyp ff of
             FD_PIPE \<Rightarrow>
               bind_res (on_pipe (fpipe ff) (pipeclose (fwritable ff \<noteq> 0)) s) (\<lambda>(gone, s).
               if gone then on_kst (kfree (fpipe ff)) s else Inr s)
           | FD_INODE \<Rightarrow>
               bind_res (begin_op s) (\<lambda>s.
               bind_res (iput (fip ff) s) (\<lambda>s.
               end_op s))
           | FD_NONE \<Rightarrow> Inr s))))"

definition filestat :: "nat \<Rightarrow> 'a file_st_scheme \<Rightarrow> ((i32 \<times> stat option) \<times> 'a file_st_scheme) res" where
  "filestat f s =
     (if ftyp (files s ! f) = FD_INODE then
        (let ip = fip (files s ! f) in
         bind_res (ilock (Some ip) s) (\<lambda>s.
         let st = stati (inodes s ! ip) in
         bind_res (iunlock (Some ip) s) (\<lambda>s. Inr ((0, Some st), s))))
      else Inr ((- 1, None), s))"

text \<open>
  The entropy taken from a read or write: the bytes of the caller's buffer (of a read: what it held
  before) and the clock.
\<close>

definition io_event :: "i32 \<Rightarrow> i32 \<Rightarrow> u32 \<Rightarrow> u8 list \<Rightarrow> i32 \<Rightarrow> prng_st \<Rightarrow> prng_st res" where
  "io_event data_src time_src pool buf n k =
     bind_res (acquire_ticks k) (\<lambda>k.
     let pn = pool mod of_nat MAX_POOLS in
     bind_res (addRandomEvent data_src pn (Some (\<lambda>i. buf ! i)) n k) (\<lambda>k.
     bind_res (addRandomEvent time_src pn (Some (\<lambda>i. bytes_of_u32 (ticks k) ! i)) 4 k) (\<lambda>k.
     release_ticks k)))"

definition read_event :: "u8 list \<Rightarrow> i32 \<Rightarrow> 'a file_st_scheme \<Rightarrow> 'a file_st_scheme res" where
  "read_event buf n s =
     (let s = s\<lparr>read_operations := read_operations s + 1\<rparr> in
      if read_operations s > 10 then
        bind_res (on_kst (io_event READ_DATA READ_TIMING (read_pool s) buf n) s) (\<lambda>s.
        Inr (s\<lparr>read_pool := read_pool s + 1, read_operations := 0\<rparr>))
      else Inr s)"

definition write_event :: "u8 list \<Rightarrow> i32 \<Rightarrow> 'a file_st_scheme \<Rightarrow> 'a file_st_scheme res" where
  "write_event buf n s =
     (let s = s\<lparr>write_operations := write_operations s + 1\<rparr> in
      if write_operations s > 10 then
        bind_res (on_kst (io_event WRITE_DATA WRITE_TIMING (write_pool s) buf n) s) (\<lambda>s.
        Inr (s\<lparr>write_pool := write_pool s + 1, write_operations := 0\<rparr>))
      else Inr s)"

definition fileread :: "('a file_st_scheme devfns) list \<Rightarrow> bool \<Rightarrow> nat \<Rightarrow> u8 list \<Rightarrow> i32 \<Rightarrow> 'a file_st_scheme
    \<Rightarrow> ((outcome \<times> u8 list) \<times> 'a file_st_scheme) res" where
  "fileread devsw killed f buf n s =
     bind_res (read_event buf n s) (\<lambda>s.
     let x = files s ! f in
     if freadable x = 0 then Inr ((Returned (- 1), []), s)
     else case ftyp x of
       FD_PIPE \<Rightarrow> on_pipe (fpipe x) (piperead killed n) s
     | FD_INODE \<Rightarrow>
         bind_res (ilock (Some (fip x)) s) (\<lambda>s.
         bind_res (readi devsw (fip x) (foff x) n s) (\<lambda>((r, bs), s).
         let s = (if sint r > 0 then upd_file f (\<lambda>x. x\<lparr>foff := foff x + r\<rparr>) s else s) in
         bind_res (iunlock (Some (fip x)) s) (\<lambda>s. Inr ((Returned r, bs), s))))
     | FD_NONE \<Rightarrow> Inl (Panic ''fileread''))"

definition max_write :: nat where "max_write = ((LOGSIZE - 1 - 1 - 2) div 2) * 512"

text \<open>The loop of \<open>filewrite\<close> on an inode, from index \<open>i\<close>; the result is the index where it stops.\<close>

function filewrite_loop :: "('a file_st_scheme devfns) list \<Rightarrow> nat \<Rightarrow> u8 list \<Rightarrow> nat \<Rightarrow> nat \<Rightarrow> 'a file_st_scheme
    \<Rightarrow> (nat \<times> 'a file_st_scheme) res" where
  "filewrite_loop devsw f src n i s =
     (if i < n then
        (let n1 = min (n - i) max_write; ip = fip (files s ! f) in
         bind_res (begin_op s) (\<lambda>s.
         bind_res (ilock (Some ip) s) (\<lambda>s.
         bind_res (writei devsw ip (drop i src) (foff (files s ! f)) (of_nat n1) s) (\<lambda>(r, s).
         let s = (if sint r > 0 then upd_file f (\<lambda>x. x\<lparr>foff := foff x + r\<rparr>) s else s) in
         bind_res (iunlock (Some ip) s) (\<lambda>s.
         bind_res (end_op s) (\<lambda>s.
         if sint r < 0 then Inr (i, s)
         else if r \<noteq> of_nat n1 then Inl (Panic ''short filewrite'')
         else filewrite_loop devsw f src n (i + n1) s))))))
      else Inr (i, s))"
  by pat_completeness auto
termination
  by (relation "measure (\<lambda>(devsw, f, src, n, i, s). n - i)") (auto simp: max_write_def LOGSIZE_def MAXOPBLOCKS_def)

definition filewrite :: "('a file_st_scheme devfns) list \<Rightarrow> bool \<Rightarrow> nat \<Rightarrow> u8 list \<Rightarrow> i32 \<Rightarrow> 'a file_st_scheme
    \<Rightarrow> ((outcome \<times> nat) \<times> 'a file_st_scheme) res" where
  "filewrite devsw killed f src n s =
     bind_res (write_event src n s) (\<lambda>s.
     let x = files s ! f in
     if fwritable x = 0 then Inr ((Returned (- 1), 0), s)
     else case ftyp x of
       FD_PIPE \<Rightarrow> on_pipe (fpipe x) (pipewrite killed src n) s
     | FD_INODE \<Rightarrow>
         bind_res (filewrite_loop devsw f src (nat (sint n)) 0 s) (\<lambda>(i, s).
         Inr ((Returned (if int i = sint n then n else - 1), i), s))
     | FD_NONE \<Rightarrow> Inl (Panic ''filewrite''))"

definition filewriteable :: "('a file_st_scheme devfns) list \<Rightarrow> bool \<Rightarrow> nat \<Rightarrow> 'a file_st_scheme \<Rightarrow> i32" where
  "filewriteable devsw killed f s =
     (case ftyp (files s ! f) of
        FD_PIPE \<Rightarrow> pipewriteable killed (pipes s (fpipe (files s ! f)))
      | FD_INODE \<Rightarrow> writeablei devsw (fip (files s ! f)) s
      | FD_NONE \<Rightarrow> - 1)"

definition filereadable :: "('a file_st_scheme devfns) list \<Rightarrow> bool \<Rightarrow> nat \<Rightarrow> 'a file_st_scheme \<Rightarrow> i32" where
  "filereadable devsw killed f s =
     (case ftyp (files s ! f) of
        FD_PIPE \<Rightarrow> pipereadable killed (pipes s (fpipe (files s ! f)))
      | FD_INODE \<Rightarrow> readablei devsw (fip (files s ! f)) s
      | FD_NONE \<Rightarrow> - 1)"

definition fileselect :: "('a file_st_scheme devfns) list \<Rightarrow> nat \<Rightarrow> nat \<Rightarrow> i32 \<Rightarrow> nat \<Rightarrow> 'a file_st_scheme \<Rightarrow> (i32 \<times> 'a file_st_scheme) res" where
  "fileselect devsw f who v lk s =
     (case ftyp (files s ! f) of
        FD_PIPE \<Rightarrow>
          (let a = fpipe (files s ! f); (r, p) = pipeselect (pipes s a) who v lk in Inr (r, s\<lparr>pipes := (pipes s)(a := p)\<rparr>))
      | FD_INODE \<Rightarrow> selecti devsw (fip (files s ! f)) who v lk s
      | FD_NONE \<Rightarrow> Inr (- 1, s))"

definition fileclrsel :: "('a file_st_scheme devfns) list \<Rightarrow> nat \<Rightarrow> nat \<Rightarrow> i32 \<Rightarrow> 'a file_st_scheme \<Rightarrow> (i32 \<times> 'a file_st_scheme) res" where
  "fileclrsel devsw f who v s =
     (case ftyp (files s ! f) of
        FD_PIPE \<Rightarrow>
          (let a = fpipe (files s ! f); (r, p) = pipeclrsel (pipes s a) who v in Inr (r, s\<lparr>pipes := (pipes s)(a := p)\<rparr>))
      | FD_INODE \<Rightarrow> clrseli devsw (fip (files s ! f)) who v s
      | FD_NONE \<Rightarrow> Inr (- 1, s))"


subsection \<open>Allocating a pipe\<close>

definition close_opt :: "nat option \<Rightarrow> 'a file_st_scheme \<Rightarrow> 'a file_st_scheme res" where
  "close_opt fo s = (case fo of None \<Rightarrow> Inr s | Some f \<Rightarrow> fileclose f s)"

definition pipealloc_bad :: "nat option \<Rightarrow> nat option \<Rightarrow> 'a file_st_scheme \<Rightarrow> ((nat \<times> nat) option \<times> 'a file_st_scheme) res" where
  "pipealloc_bad f0 f1 s =
     bind_res (close_opt f0 s) (\<lambda>s.
     bind_res (close_opt f1 s) (\<lambda>s.
     Inr (None, s)))"

text \<open>\<open>Some (f0, f1)\<close> is a return of 0 with the two files, \<open>None\<close> a return of -1.\<close>

definition pipealloc :: "'a file_st_scheme \<Rightarrow> ((nat \<times> nat) option \<times> 'a file_st_scheme) res" where
  "pipealloc s =
     bind_res (filealloc s) (\<lambda>(f0, s).
     case f0 of None \<Rightarrow> pipealloc_bad None None s | Some a \<Rightarrow>
     bind_res (filealloc s) (\<lambda>(f1, s).
     case f1 of None \<Rightarrow> pipealloc_bad (Some a) None s | Some b \<Rightarrow>
     bind_res (kalloc (kst s)) (\<lambda>(p, k).
     let s = s\<lparr>kst := k\<rparr> in
     if p = 0 then pipealloc_bad (Some a) (Some b) s
     else
       (let s = s\<lparr>pipes := (pipes s)(p := pipe_init (pipes s p))\<rparr>;
          s = upd_file a (\<lambda>x. x\<lparr>ftyp := FD_PIPE, freadable := 1, fwritable := 0, fpipe := p\<rparr>) s;
          s = upd_file b (\<lambda>x. x\<lparr>ftyp := FD_PIPE, freadable := 0, fwritable := 1, fpipe := p\<rparr>) s
        in Inr (Some (a, b), s)))))"

end
