(* ===== verification/Kbd.thy ===== *)
theory Kbd
  imports Prelude
begin

text \<open>
  The keyboard decoder of \<open>src/kbd.c\<close> with the tables of \<open>src/kbd.h\<close>: scan codes to characters, with the
  shift, control and lock keys. What the status and data ports give is an argument.
\<close>

section \<open>Definitions\<close>

definition KBS_DIB :: u8 where "KBS_DIB = 0x01"
definition SHIFT :: u32 where "SHIFT = 1"
definition CTL :: u32 where "CTL = 2"
definition ALT :: u32 where "ALT = 4"
definition CAPSLOCK :: u32 where "CAPSLOCK = 8"
definition NUMLOCK :: u32 where "NUMLOCK = 16"
definition SCROLLLOCK :: u32 where "SCROLLLOCK = 32"
definition E0ESC :: u32 where "E0ESC = 64"

definition codes :: "string \<Rightarrow> u8 list" where "codes cs = map of_char cs"
definition ctl_codes :: "string \<Rightarrow> u8 list" where "ctl_codes cs = map (\<lambda>c. of_char c - 64) cs"

text \<open>A table given by its first entries and by designated ones; the others are 0.\<close>

definition table :: "u8 list \<Rightarrow> (nat \<times> u8) list \<Rightarrow> nat \<Rightarrow> u8" where
  "table row ext i = (case map_of ext i of Some c \<Rightarrow> c | None \<Rightarrow> if i < length row then row ! i else 0)"

definition shiftcode :: "nat \<Rightarrow> u32" where
  "shiftcode i = (case map_of [(0x1D, CTL), (0x2A, SHIFT), (0x36, SHIFT), (0x38, ALT), (0x9D, CTL), (0xB8, ALT)] i of
     Some c \<Rightarrow> c | None \<Rightarrow> 0)"

definition togglecode :: "nat \<Rightarrow> u32" where
  "togglecode i = (case map_of [(0x3A, CAPSLOCK), (0x45, NUMLOCK), (0x46, SCROLLLOCK)] i of Some c \<Rightarrow> c | None \<Rightarrow> 0)"

definition special_keys :: "(nat \<times> u8) list" where
  "special_keys = [(0xC8, 0xE2), (0xD0, 0xE3), (0xC9, 0xE6), (0xD1, 0xE7), (0xCB, 0xE4), (0xCD, 0xE5)] @
     [(0x97, 0xE0), (0xCF, 0xE1), (0xD2, 0xE8), (0xD3, 0xE9)]"

definition keypad :: "u8 list" where
  "keypad = [0, 32] @ replicate 13 0 @ codes ''789-456+1230.'' @ replicate 4 0"

definition normalmap :: "nat \<Rightarrow> u8" where
  "normalmap =
     table ([0, 0x1B] @ codes ''1234567890-='' @ [8, 9] @ codes ''qwertyuiop[]'' @ [10, 0] @ codes ''asdfghjkl;'' @
         [39, 96, 0, 92] @ codes ''zxcvbnm,./'' @ [0, 42] @ keypad)
       ([(0x9C, 10), (0xB5, 47)] @ special_keys)"

definition shiftmap :: "nat \<Rightarrow> u8" where
  "shiftmap =
     table ([0, 27] @ codes ''!@#$%^&*()_+'' @ [8, 9] @ codes ''QWERTYUIOP{}'' @ [10, 0] @ codes ''ASDFGHJKL:'' @
         [34, 126, 0, 124] @ codes ''ZXCVBNM<>?'' @ [0, 42] @ keypad)
       ([(0x9C, 10), (0xB5, 47)] @ special_keys)"

definition ctlmap :: "nat \<Rightarrow> u8" where
  "ctlmap =
     table (replicate 16 0 @ ctl_codes ''QWERTYUIOP'' @ [0, 0, 13, 0] @ ctl_codes ''ASDFGHJKL'' @ [0, 0, 0, 0, 28] @
         ctl_codes ''ZXCVBNM'' @ [0, 0, 239, 0, 0])
       ([(0x9C, 13), (0xB5, 239)] @ special_keys)"

definition charcode :: "u32 \<Rightarrow> nat \<Rightarrow> u8" where
  "charcode k = (if k = 0 then normalmap else if k = 1 then shiftmap else ctlmap)"

text \<open>One call of \<open>kbdgetc\<close>: the character (or 0, or -1) and the new modifier state.\<close>

definition kbdgetc :: "u8 \<Rightarrow> u8 \<Rightarrow> u32 \<Rightarrow> i32 \<times> u32" where
  "kbdgetc st dat shift =
     (if st AND KBS_DIB = 0 then (- 1, shift)
      else
        (let data = (ucast dat :: u32) in
         if data = 0xE0 then (0, shift OR E0ESC)
         else if data AND 0x80 \<noteq> 0 then
           (let data = (if shift AND E0ESC \<noteq> 0 then data else data AND 0x7F)
            in (0, shift AND NOT (shiftcode (unat data) OR E0ESC)))
         else
           (let (data, shift) = (if shift AND E0ESC \<noteq> 0 then (data OR 0x80, shift AND NOT E0ESC) else (data, shift));
              shift = shift OR shiftcode (unat data);
              shift = shift XOR togglecode (unat data);
              c = (ucast (charcode (shift AND (CTL OR SHIFT)) (unat data)) :: u32);
              c = (if shift AND CAPSLOCK \<noteq> 0 then
                     (if 97 \<le> c \<and> c \<le> 122 then c - 32 else if 65 \<le> c \<and> c \<le> 90 then c + 32 else c)
                   else c)
            in (c, shift))))"

text \<open>The characters of one interrupt: until the port is empty.\<close>

fun kbd_chars :: "(u8 \<times> u8) list \<Rightarrow> u32 \<Rightarrow> i32 list \<times> u32" where
  "kbd_chars [] shift = ([], shift)"
| "kbd_chars ((st, dat) # ports) shift =
     (case kbdgetc st dat shift of (c, shift) \<Rightarrow>
        if sint c < 0 then ([], shift) else (case kbd_chars ports shift of (cs, shift) \<Rightarrow> (c # cs, shift)))"

end
