(* ===== verification/Console.thy ===== *)
theory Console
  imports File Kbd
begin

text \<open>
  The console of \<open>src/console.c\<close>: formatted kernel output, the
  screen, the input line with its editing, and the device functions entered in \<open>devsw\<close>. Bytes sent to the
  serial port are appended to \<open>uart_out\<close>; the cursor registers of the display hold the value last written to
  them. The characters an interrupt handler gets from \<open>getc\<close> until it answers -1 are a list.
  After a panic no code of this CPU runs, so the flag \<open>panicked\<close>, which stops the output of the other CPUs, is not in the state.
\<close>

section \<open>Definitions\<close>

definition INPUT_BUF :: nat where "INPUT_BUF = 128"
definition BACKSPACE :: i32 where "BACKSPACE = 0x100"

record cons_st = file_st +
  cons_lock :: bool
  locking :: i32
  uart_out :: "u8 list"
  crt :: "u16 list"
  cursor :: i32
  ibuf :: "u8 list"
  in_r :: u32
  in_w :: u32
  in_e :: u32
  in_selread :: selproc
  dev_selread :: selproc
  keyboard_press_pool :: u32
  procdumps :: nat

definition cons_acquire :: "'a cons_st_scheme \<Rightarrow> 'a cons_st_scheme res" where
  "cons_acquire s = bind_res (lock_acquire (cons_lock s)) (\<lambda>l. Inr (s\<lparr>cons_lock := l\<rparr>))"

definition cons_release :: "'a cons_st_scheme \<Rightarrow> 'a cons_st_scheme res" where
  "cons_release s = bind_res (lock_release (cons_lock s)) (\<lambda>l. Inr (s\<lparr>cons_lock := l\<rparr>))"

subsection \<open>Output\<close>

text \<open>The cursor registers hold sixteen bits.\<close>

definition cgaputc :: "i32 \<Rightarrow> 'a cons_st_scheme \<Rightarrow> 'a cons_st_scheme res" where
  "cgaputc c s =
     (let pos = sint (cursor s AND 0xffff);
        (pos, cells) = (if c = 10 then (pos + (80 - pos mod 80), crt s)
                        else if c = BACKSPACE then (if pos > 0 then pos - 1 else pos, crt s)
                        else (pos + 1, (crt s)[nat pos := ucast (c AND 0xff) OR 0x0700]))
      in if pos < 0 \<or> pos > 25 * 80 then Inl (Panic ''pos under/overflow'')
         else
           (let (pos, cells) =
              (if pos div 80 \<ge> 24 then
                 (let moved = take (23 * 80) (drop 80 cells) @ drop (23 * 80) cells; q = nat (pos - 80)
                  in (pos - 80, take q moved @ replicate (24 * 80 - q) 0 @ drop (max q (24 * 80)) moved))
               else (pos, cells))
            in Inr (s\<lparr>cursor := of_int pos AND 0xffff, crt := cells[nat pos := 0x0720]\<rparr>)))"

definition consputc :: "i32 \<Rightarrow> 'a cons_st_scheme \<Rightarrow> 'a cons_st_scheme res" where
  "consputc c s = cgaputc c (s\<lparr>uart_out := uart_out s @ (if c = BACKSPACE then [8, 32, 8] else [ucast c])\<rparr>)"

definition digit :: "nat \<Rightarrow> u8" where
  "digit d = (if d < 10 then of_nat (48 + d) else of_nat (87 + d))"

text \<open>The digits of \<open>x\<close>, least significant first.\<close>

function digits_of :: "nat \<Rightarrow> nat \<Rightarrow> u8 list" where
  "digits_of base x = digit (x mod base) # (if x div base = 0 \<or> base < 2 then [] else digits_of base (x div base))"
  by pat_completeness auto
termination
proof (relation "measure (\<lambda>(base, x). x)")
  show "((base, x div base), base, x) \<in> measure (\<lambda>(base, x). x)" if "\<not> (x div base = 0 \<or> base < 2)" for base x :: nat
    using that by (cases "x = 0") auto
qed simp

declare digits_of.simps [simp del]

definition print_text :: "i32 \<Rightarrow> nat \<Rightarrow> bool \<Rightarrow> u8 list" where
  "print_text xx base sign =
     (let neg = sign \<and> sint xx < 0; x = unat (if neg then - xx else xx)
      in rev (digits_of base x @ (if neg then [45] else [])))"

primrec puts_list :: "u8 list \<Rightarrow> 'a cons_st_scheme \<Rightarrow> 'a cons_st_scheme res" where
  "puts_list [] s = Inr s"
| "puts_list (c # cs) s = bind_res (consputc (ucast c) s) (puts_list cs)"

definition printint :: "i32 \<Rightarrow> nat \<Rightarrow> bool \<Rightarrow> 'a cons_st_scheme \<Rightarrow> 'a cons_st_scheme res" where
  "printint xx base sign s = puts_list (print_text xx base sign) s"

text \<open>
  The format loop: \<open>args\<close> are the words after the format on the stack, \<open>str\<close> gives the string at an
  address. Taking an argument that was not passed is a fault.
\<close>

fun cprintf_loop :: "(u32 \<Rightarrow> u8 list) \<Rightarrow> u8 list \<Rightarrow> u32 list \<Rightarrow> 'a cons_st_scheme \<Rightarrow> 'a cons_st_scheme res" where
  "cprintf_loop str [] args s = Inr s"
| "cprintf_loop str [c] args s = (if c \<noteq> 37 then consputc (ucast c) s else Inr s)"
| "cprintf_loop str (c # d # fmt) args s =
     (if c \<noteq> 37 then bind_res (consputc (ucast c) s) (cprintf_loop str (d # fmt) args)
      else if d = 100 then
        (case args of [] \<Rightarrow> Inl (Fault ''cprintf'') | a # args \<Rightarrow> bind_res (printint a 10 True s) (cprintf_loop str fmt args))
      else if d = 120 \<or> d = 112 then
        (case args of [] \<Rightarrow> Inl (Fault ''cprintf'') | a # args \<Rightarrow> bind_res (printint a 16 False s) (cprintf_loop str fmt args))
      else if d = 115 then
        (case args of [] \<Rightarrow> Inl (Fault ''cprintf'') | a # args \<Rightarrow>
           bind_res (puts_list (if a = 0 then [40, 110, 117, 108, 108, 41] else str a) s) (cprintf_loop str fmt args))
      else if d = 37 then bind_res (consputc 37 s) (cprintf_loop str fmt args)
      else bind_res (consputc 37 s) (\<lambda>s. bind_res (consputc (ucast d) s) (cprintf_loop str fmt args)))"

definition cprintf :: "(u32 \<Rightarrow> u8 list) \<Rightarrow> u8 list option \<Rightarrow> u32 list \<Rightarrow> 'a cons_st_scheme \<Rightarrow> 'a cons_st_scheme res" where
  "cprintf str fmt args s =
     (let lk = (locking s \<noteq> 0) in
      bind_res (if lk then cons_acquire s else Inr s) (\<lambda>s.
      case fmt of None \<Rightarrow> Inl (Panic ''null fmt'') | Some fmt \<Rightarrow>
      bind_res (cprintf_loop str fmt args s) (\<lambda>s.
      if lk then cons_release s else Inr s)))"


subsection \<open>Input\<close>

definition cslot :: "u32 \<Rightarrow> nat" where "cslot k = unat k mod INPUT_BUF"

definition on_sels :: "(sel_st \<Rightarrow> sel_st res) \<Rightarrow> 'a cons_st_scheme \<Rightarrow> 'a cons_st_scheme res" where
  "on_sels f s = bind_res (f (sels s)) (\<lambda>x. Inr (s\<lparr>sels := x\<rparr>))"

text \<open>Control-U: the loop removes characters back to the last line end.\<close>

function kill_line :: "'a cons_st_scheme \<Rightarrow> 'a cons_st_scheme res" where
  "kill_line s =
     (if in_e s \<noteq> in_w s \<and> ibuf s ! cslot (in_e s - 1) \<noteq> 10
      then bind_res (consputc BACKSPACE (s\<lparr>in_e := in_e s - 1\<rparr>)) kill_line else Inr s)"
  by pat_completeness auto
termination
proof (relation "measure (\<lambda>s. unat (in_e s - in_w s))")
  fix s x :: "'a cons_st_scheme"
  assume e: "in_e s \<noteq> in_w s \<and> ibuf s ! cslot (in_e s - 1) \<noteq> 10" and x: "consputc BACKSPACE (s\<lparr>in_e := in_e s - 1\<rparr>) = Inr x"
  have "in_e x = in_e s - 1" "in_w x = in_w s"
    using x by (auto simp: consputc_def cgaputc_def Let_def split: prod.splits if_splits)
  moreover have "unat (in_e s - 1 - in_w s) < unat (in_e s - in_w s)"
  proof -
    have "in_e s - 1 - in_w s = (in_e s - in_w s) - 1" by simp
    moreover have "in_e s - in_w s \<noteq> 0" using e by simp
    ultimately show ?thesis using unat_gt_0 unat_minus_one by (metis diff_less zero_less_one)
  qed
  ultimately show "(x, s) \<in> measure (\<lambda>s. unat (in_e s - in_w s))" by simp
qed simp

text \<open>One character of the loop of \<open>consoleintr\<close>; the flag asks for a process listing.\<close>

definition console_char :: "i32 \<Rightarrow> bool \<times> 'a cons_st_scheme \<Rightarrow> (bool \<times> 'a cons_st_scheme) res" where
  "console_char c ds =
     (let (dump, s) = ds in
      bind_res
        (if c = 16 then Inr (True, c, s)
         else if c = 21 then bind_res (kill_line s) (\<lambda>s. Inr (dump, c, s))
         else if c = 8 \<or> c = 0x7f then
           (if in_e s \<noteq> in_w s then bind_res (consputc BACKSPACE (s\<lparr>in_e := in_e s - 1\<rparr>)) (\<lambda>s. Inr (dump, c, s))
            else Inr (dump, c, s))
         else if c \<noteq> 0 \<and> in_e s - in_r s < of_nat INPUT_BUF then
           (let c = (if c = 13 then 10 else c);
              s = s\<lparr>ibuf := (ibuf s)[cslot (in_e s) := ucast c], in_e := in_e s + 1\<rparr> in
            bind_res (consputc c s) (\<lambda>s.
            if c = 10 \<or> c = 4 \<or> in_e s = in_r s + of_nat INPUT_BUF then
              (let s = s\<lparr>in_w := in_e s, sels := wake_chan ''input.r'' (sels s)\<rparr> in
               bind_res (on_sels (wakeupselect (in_selread s)) s) (\<lambda>s. Inr (dump, c, s)))
            else Inr (dump, c, s)))
         else Inr (dump, c, s)) (\<lambda>(dump, c, s).
      bind_res (on_kst (addRandomEvent KEYBOARD_PRESS (keyboard_press_pool s mod of_nat MAX_POOLS) (Some (\<lambda>i. bytes_of_u32 c ! i)) 4) s) (\<lambda>s.
      Inr (dump, s\<lparr>keyboard_press_pool := keyboard_press_pool s + 1\<rparr>))))"

definition consoleintr :: "i32 list \<Rightarrow> 'a cons_st_scheme \<Rightarrow> 'a cons_st_scheme res" where
  "consoleintr cs s =
     bind_res (cons_acquire s) (\<lambda>s.
     bind_res (for_res cs console_char (False, s)) (\<lambda>(dump, s).
     bind_res (cons_release s) (\<lambda>s.
     Inr (if dump then s\<lparr>procdumps := procdumps s + 1\<rparr> else s))))"

text \<open>
  The loop of \<open>consoleread\<close> with \<open>n\<close> bytes to go. \<open>None\<close> means the process was killed or has gone to sleep,
  told apart by the outcome; the lock is given back in both cases.
\<close>

primrec consoleread_loop :: "bool \<Rightarrow> nat \<Rightarrow> nat \<Rightarrow> u8 list \<Rightarrow> 'a cons_st_scheme \<Rightarrow> ((outcome option \<times> u8 list) \<times> 'a cons_st_scheme) res" where
  "consoleread_loop killed tgt 0 acc s = Inr ((None, acc), s)"
| "consoleread_loop killed tgt (Suc n) acc s =
     (if in_r s = in_w s then
        (if killed then Inr ((Some (Returned (- 1)), acc), s) else Inr ((Some (Asleep (Suc n)), acc), s))
      else
        (let c = ibuf s ! cslot (in_r s); s = s\<lparr>in_r := in_r s + 1\<rparr> in
         if c = 4 then Inr ((None, acc), if Suc n < tgt then s\<lparr>in_r := in_r s - 1\<rparr> else s)
         else if c = 10 then Inr ((None, acc @ [c]), s)
         else consoleread_loop killed tgt n (acc @ [c]) s))"

definition consoleread_resume :: "bool \<Rightarrow> nat \<Rightarrow> nat \<Rightarrow> nat \<Rightarrow> u8 list \<Rightarrow> 'a cons_st_scheme \<Rightarrow> ((outcome \<times> u8 list) \<times> 'a cons_st_scheme) res" where
  "consoleread_resume killed ip tgt n acc s =
     bind_res (cons_acquire s) (\<lambda>s.
     bind_res (consoleread_loop killed tgt n acc s) (\<lambda>((r, acc), s).
     bind_res (cons_release s) (\<lambda>s.
     case r of
       Some (Asleep m) \<Rightarrow> Inr ((Asleep m, acc), s)
     | Some (Returned v) \<Rightarrow> bind_res (ilock (Some ip) s) (\<lambda>s. Inr ((Returned v, acc), s))
     | None \<Rightarrow> bind_res (ilock (Some ip) s) (\<lambda>s. Inr ((Returned (of_nat (length acc)), acc), s)))))"

text \<open>A negative \<open>n\<close> skips the loop and returns \<open>target - n = 0\<close>.\<close>

definition consoleread :: "bool \<Rightarrow> nat \<Rightarrow> i32 \<Rightarrow> 'a cons_st_scheme \<Rightarrow> ((outcome \<times> u8 list) \<times> 'a cons_st_scheme) res" where
  "consoleread killed ip n s =
     bind_res (iunlock (Some ip) s) (consoleread_resume killed ip (nat (sint n)) (nat (sint n)) [])"

definition consolewrite :: "nat \<Rightarrow> u8 list \<Rightarrow> i32 \<Rightarrow> 'a cons_st_scheme \<Rightarrow> (i32 \<times> 'a cons_st_scheme) res" where
  "consolewrite ip src n s =
     bind_res (iunlock (Some ip) s) (\<lambda>s.
     bind_res (cons_acquire s) (\<lambda>s.
     bind_res (puts_list (take (nat (sint n)) src) s) (\<lambda>s.
     bind_res (cons_release s) (\<lambda>s.
     bind_res (ilock (Some ip) s) (\<lambda>s.
     Inr (n, s))))))"

definition consolewriteable :: "nat \<Rightarrow> 'a cons_st_scheme \<Rightarrow> i32" where
  "consolewriteable ip s = 1"

definition consolereadable :: "bool \<Rightarrow> nat \<Rightarrow> 'a cons_st_scheme \<Rightarrow> i32" where
  "consolereadable killed ip s = (if killed then - 1 else of_bool (in_r s \<noteq> in_w s))"

definition consoleselect :: "nat \<Rightarrow> nat \<Rightarrow> i32 \<Rightarrow> nat \<Rightarrow> 'a cons_st_scheme \<Rightarrow> (i32 \<times> 'a cons_st_scheme) res" where
  "consoleselect ip who v lk s = Inr (0, s\<lparr>in_selread := addselid (in_selread s) who lk\<rparr>)"

definition consoleclrsel :: "nat \<Rightarrow> nat \<Rightarrow> i32 \<Rightarrow> 'a cons_st_scheme \<Rightarrow> (i32 \<times> 'a cons_st_scheme) res" where
  "consoleclrsel ip who v s = Inr (0, s\<lparr>in_selread := clearselid (in_selread s) who\<rparr>)"

definition kbdintr :: "(u8 \<times> u8) list \<Rightarrow> u32 \<Rightarrow> 'a cons_st_scheme \<Rightarrow> (u32 \<times> 'a cons_st_scheme) res" where
  "kbdintr ports shift s =
     (case kbd_chars ports shift of (cs, shift) \<Rightarrow> bind_res (consoleintr cs s) (\<lambda>s. Inr (shift, s)))"

text \<open>The row of \<open>devsw\<close> for the console; a read that would sleep ends the run.\<close>

definition console_dev :: "bool \<Rightarrow> ('a cons_st_scheme) devfns" where
  "console_dev killed =
     \<lparr>dev_read = Some (\<lambda>ip n s. bind_res (consoleread killed ip n s) (\<lambda>((r, bs), s).
         case r of Returned v \<Rightarrow> Inr ((v, bs), s) | Asleep _ \<Rightarrow> Inl Sleeps)),
      dev_write = Some consolewrite, dev_writeable = Some consolewriteable, dev_readable = Some (consolereadable killed),
      dev_select = Some consoleselect, dev_clrsel = Some consoleclrsel\<rparr>"

text \<open>
  The list of waiting readers that is initialised is the one in \<open>devsw\<close>, not \<open>input.selprocread\<close>, which
  the select functions use. Enabling the interrupt is not modelled.
\<close>

definition consoleinit :: "bool \<Rightarrow> (('a cons_st_scheme) devfns) list \<Rightarrow> 'a cons_st_scheme \<Rightarrow> (('a cons_st_scheme) devfns) list \<times> 'a cons_st_scheme" where
  "consoleinit killed devsw s =
     (devsw[1 := console_dev killed], s\<lparr>cons_lock := False, dev_selread := initselproc (dev_selread s), locking := 1\<rparr>)"


section \<open>Printed numbers\<close>

text \<open>Reading a number back: the digits with an optional minus sign.\<close>

definition undigit :: "u8 \<Rightarrow> nat" where
  "undigit c = (if unat c < 58 then unat c - 48 else unat c - 87)"

definition read_nat :: "nat \<Rightarrow> u8 list \<Rightarrow> nat" where
  "read_nat base ds = foldl (\<lambda>v c. v * base + undigit c) 0 ds"

definition read_num :: "nat \<Rightarrow> u8 list \<Rightarrow> int" where
  "read_num base txt = (if txt \<noteq> [] \<and> hd txt = 45 then - int (read_nat base (tl txt)) else int (read_nat base txt))"

lemma undigit_digit:
  assumes "d < 16"
  shows "undigit (digit d) = d" "digit d \<noteq> 45"
proof -
  have "unat (of_nat (48 + d) :: u8) = 48 + d" "unat (of_nat (87 + d) :: u8) = 87 + d"
    using assms unat_of_nat [where 'a = 8, of "48 + d"] unat_of_nat [where 'a = 8, of "87 + d"] by simp_all
  then have u: "unat (digit d) = (if d < 10 then 48 + d else 87 + d)" by (simp add: digit_def)
  then show "undigit (digit d) = d" by (auto simp: undigit_def)
  show "digit d \<noteq> 45"
  proof
    assume "digit d = 45"
    then have "unat (digit d) = 45" by simp
    with u show False by (auto split: if_splits)
  qed
qed

lemma digits_value:
  assumes "2 \<le> base" "base \<le> 16"
  shows "read_nat base (rev (digits_of base x)) = x \<and> (\<forall>c \<in> set (digits_of base x). c \<noteq> 45) \<and> digits_of base x \<noteq> []"
proof (induction x rule: less_induct)
  case (less x)
  have "x mod base < base" using assms(1) by simp
  then have d: "x mod base < 16" using assms(2) by simp
  show ?case
  proof (cases "x div base = 0")
    case True
    then have "x mod base = x" using assms by (simp add: div_eq_0_iff)
    with True d show ?thesis by (subst (1 2 3) digits_of.simps) (simp add: read_nat_def undigit_digit)
  next
    case False
    have "x div base < x" using False assms by (cases "x = 0") auto
    note ih = less [OF this]
    have e: "digits_of base x = digit (x mod base) # digits_of base (x div base)"
      using False assms by (subst digits_of.simps) simp
    have "read_nat base (rev (digits_of base x)) = x div base * base + x mod base"
      using ih d by (simp add: e read_nat_def undigit_digit)
    then show ?thesis using ih d by (auto simp: e undigit_digit)
  qed
qed

lemma digits_length:
  assumes "2 \<le> base" "x < base ^ Suc n"
  shows "length (digits_of base x) \<le> Suc n"
  using assms(2)
proof (induction n arbitrary: x)
  case 0
  then show ?case by (subst digits_of.simps) (simp add: div_eq_0_iff)
next
  case (Suc n)
  have "x div base < base ^ Suc n" using Suc.prems assms(1) by (simp add: less_mult_imp_div_less mult.commute)
  with Suc.IH show ?case by (subst digits_of.simps) auto
qed

lemma sint_cases: "sint (w :: i32) = (if uint w < 2 ^ 31 then uint w else uint w - 2 ^ 32)"
proof -
  have s: "sint w = (uint w + 2 ^ 31) mod 2 ^ 32 - 2 ^ 31"
    by (simp add: sint_uint signed_take_bit_eq_take_bit_shift take_bit_eq_mod)
  have b: "0 \<le> uint w" "uint w < 2 ^ 32" using uint_bounded [of w] by simp_all
  show ?thesis
  proof (cases "uint w < 2 ^ 31")
    case True
    with b(1) have "(uint w + 2 ^ 31) mod 2 ^ 32 = uint w + 2 ^ 31" by (intro mod_pos_pos_trivial) simp_all
    with s True show ?thesis by simp
  next
    case False
    have "(uint w + 2 ^ 31) mod 2 ^ 32 = ((uint w - 2 ^ 31) + 2 ^ 32) mod 2 ^ 32" by (simp add: add.commute)
    also have "\<dots> = (uint w - 2 ^ 31) mod 2 ^ 32" by (rule mod_add_self2)
    also have "\<dots> = uint w - 2 ^ 31" using b False by (intro mod_pos_pos_trivial) simp_all
    finally show ?thesis using s False by simp
  qed
qed

lemma uint_neg_pos: "w \<noteq> 0 \<Longrightarrow> uint (- w :: i32) = 2 ^ 32 - uint w"
proof -
  assume "w \<noteq> 0"
  then have "uint w \<noteq> 0" by (simp add: uint_0_iff)
  then have "0 < uint w" "uint w < 2 ^ 32" using uint_bounded [of w] uint_ge_0 [of w] by (linarith, simp)
  moreover have "uint (- w) = (- uint w) mod 2 ^ 32" by (simp add: uint_word_ariths)
  ultimately show ?thesis by (simp add: zmod_zminus1_eq_if)
qed

text \<open>
  C40: the kernel's number printing is right for every 32-bit value. What \<open>printint\<close> prints reads back as
  the number: signed decimal gives the signed value, including the most negative number, unsigned
  gives the unsigned value; and the text never exceeds the sixteen bytes of the local buffer.
\<close>

theorem print_text_roundtrip:
  assumes "base = 10 \<or> base = 16"
  shows "read_num base (print_text xx base sign) = (if sign then sint xx else uint xx) \<and> length (print_text xx base sign) \<le> 11"
proof -
  define neg where "neg = (sign \<and> sint xx < 0)"
  define x where "x = unat (if neg then - xx else xx)"
  have base: "2 \<le> base" "base \<le> 16" using assms by auto
  note v = digits_value [OF base, of x]
  have tx: "print_text xx base sign = (if neg then [45] else []) @ rev (digits_of base x)"
    by (simp add: print_text_def Let_def neg_def x_def)
  have hd: "hd (rev (digits_of base x)) \<noteq> 45" using v by (simp add: hd_rev)
  have "x < 2 ^ 32" unfolding x_def by (rule unat_less_exp32)
  then have "x < base ^ Suc 9" using assms by auto
  then have len: "length (digits_of base x) \<le> 10" using digits_length [OF base(1), of x 9] by simp
  have val: "(if neg then - int x else int x) = (if sign then sint xx else uint xx)"
  proof (cases neg)
    case True
    then have n: "xx \<noteq> 0" "sign" "sint xx < 0" by (auto simp: neg_def)
    have "int x = uint (- xx)" using True by (simp add: x_def)
    then show ?thesis using True n sint_cases [of xx] uint_neg_pos [OF n(1)] by (auto split: if_splits)
  next
    case False
    then show ?thesis using sint_cases [of xx] uint_ge_0 [of xx] uint_bounded [of xx] by (auto simp: neg_def x_def split: if_splits)
  qed
  show ?thesis using v hd len val by (auto simp: tx read_num_def)
qed

theorem print_text_roundtrip_witness:
  "read_num 10 (print_text (- 2147483648) 10 True) = - 2147483648 \<and> length (print_text (- 2147483648) 10 True) \<le> 11"
  using print_text_roundtrip [of 10 "- 2147483648" True] by simp

end
