(* ===== verification/Vm.thy ===== *)
theory Vm
  imports Kalloc
begin

text \<open>
  Page tables, from \<open>src/vm.c\<close>: two levels of tables that live in pages of the page allocator and are read
  and written in the kernel's memory. The address \<open>data\<close> that the linker gives is the argument \<open>kdata\<close>.
  Loops over addresses count in \<open>nat\<close>: sizes are at most \<open>KERNBASE\<close>, so an address does not wrap.
  The buffer that \<open>copyout\<close> copies is the list of its bytes: it is kernel memory outside the frames of the user.
  Segment registers, the task state and the page-table register are not modelled, nor is the printing of messages.
\<close>

section \<open>Definitions\<close>

definition EXTMEM :: u32 where "EXTMEM = 0x100000"
definition DEVSPACE :: u32 where "DEVSPACE = 0xFE000000"
definition KERNLINK :: u32 where "KERNLINK = KERNBASE + EXTMEM"

definition PDX :: "u32 \<Rightarrow> u32" where "PDX va = drop_bit 22 va AND 0x3FF"
definition PTX :: "u32 \<Rightarrow> u32" where "PTX va = drop_bit 12 va AND 0x3FF"
definition NPDENTRIES :: nat where "NPDENTRIES = 1024"
definition NPTENTRIES :: nat where "NPTENTRIES = 1024"
definition PTE_P :: u32 where "PTE_P = 0x001"
definition PTE_W :: u32 where "PTE_W = 0x002"
definition PTE_U :: u32 where "PTE_U = 0x004"
definition PTE_ADDR :: "u32 \<Rightarrow> u32" where "PTE_ADDR pte = pte AND NOT 0xFFF"
definition PTE_FLAGS :: "u32 \<Rightarrow> u32" where "PTE_FLAGS pte = pte AND 0xFFF"

abbreviation rd32 :: "'a kmem_st_scheme \<Rightarrow> u32 \<Rightarrow> u32" where "rd32 s a \<equiv> load32 (mem s) a"
abbreviation wr32 :: "u32 \<Rightarrow> u32 \<Rightarrow> 'a kmem_st_scheme \<Rightarrow> 'a kmem_st_scheme" where
  "wr32 a v s \<equiv> s\<lparr>mem := store32 (mem s) a v\<rparr>"

text \<open>The address of the page table entry, or 0.\<close>

definition walkpgdir :: "u32 \<Rightarrow> u32 \<Rightarrow> bool \<Rightarrow> 'a kmem_st_scheme \<Rightarrow> (u32 \<times> 'a kmem_st_scheme) res" where
  "walkpgdir pgdir va alloc s =
     (let pde = pgdir + 4 * PDX va in
      if rd32 s pde AND PTE_P \<noteq> 0 then Inr (P2V (PTE_ADDR (rd32 s pde)) + 4 * PTX va, s)
      else if \<not> alloc then Inr (0, s)
      else
        bind_res (kalloc s) (\<lambda>(pgtab, s).
        if pgtab = 0 then Inr (0, s)
        else
          (let s = s\<lparr>mem := memset (mem s) pgtab 0 (of_nat PGSIZE)\<rparr>;
             s = wr32 pde (V2P pgtab OR PTE_P OR PTE_W OR PTE_U) s
           in Inr (pgtab + 4 * PTX va, s))))"

text \<open>The loop of \<open>mappages\<close>: this page and \<open>n\<close> more.\<close>

primrec mappages_loop :: "u32 \<Rightarrow> u32 \<Rightarrow> u32 \<Rightarrow> u32 \<Rightarrow> nat \<Rightarrow> 'a kmem_st_scheme \<Rightarrow> (i32 \<times> 'a kmem_st_scheme) res" where
  "mappages_loop pgdir a pa perm 0 s =
     bind_res (walkpgdir pgdir a True s) (\<lambda>(pte, s).
     if pte = 0 then Inr (- 1, s)
     else if rd32 s pte AND PTE_P \<noteq> 0 then Inl (Panic ''remap'')
     else Inr (0, wr32 pte (pa OR perm OR PTE_P) s))"
| "mappages_loop pgdir a pa perm (Suc n) s =
     bind_res (walkpgdir pgdir a True s) (\<lambda>(pte, s).
     if pte = 0 then Inr (- 1, s)
     else if rd32 s pte AND PTE_P \<noteq> 0 then Inl (Panic ''remap'')
     else mappages_loop pgdir (a + of_nat PGSIZE) (pa + of_nat PGSIZE) perm n (wr32 pte (pa OR perm OR PTE_P) s))"

definition mappages :: "u32 \<Rightarrow> u32 \<Rightarrow> u32 \<Rightarrow> u32 \<Rightarrow> u32 \<Rightarrow> 'a kmem_st_scheme \<Rightarrow> (i32 \<times> 'a kmem_st_scheme) res" where
  "mappages pgdir va sz pa perm s =
     (let a = PGROUNDDOWN va; last = PGROUNDDOWN (va + sz - 1)
      in mappages_loop pgdir a pa perm (unat (last - a) div PGSIZE) s)"

definition kmap :: "u32 \<Rightarrow> (u32 \<times> u32 \<times> u32 \<times> u32) list" where
  "kmap kdata = [(KERNBASE, 0, EXTMEM, PTE_W), (KERNLINK, V2P KERNLINK, V2P kdata, 0), (kdata, V2P kdata, PHYSTOP, PTE_W),
     (DEVSPACE, DEVSPACE, 0, PTE_W)]"

primrec setupkvm_loop :: "u32 \<Rightarrow> (u32 \<times> u32 \<times> u32 \<times> u32) list \<Rightarrow> 'a kmem_st_scheme \<Rightarrow> (u32 \<times> 'a kmem_st_scheme) res" where
  "setupkvm_loop pgdir [] s = Inr (pgdir, s)"
| "setupkvm_loop pgdir (k # ks) s =
     (case k of (virt, ps, pe, perm) \<Rightarrow>
        bind_res (mappages pgdir virt (pe - ps) ps perm s) (\<lambda>(r, s).
        if sint r < 0 then Inr (0, s) else setupkvm_loop pgdir ks s))"

definition setupkvm :: "u32 \<Rightarrow> 'a kmem_st_scheme \<Rightarrow> (u32 \<times> 'a kmem_st_scheme) res" where
  "setupkvm kdata s =
     bind_res (kalloc s) (\<lambda>(pgdir, s).
     if pgdir = 0 then Inr (0, s)
     else
       (let s = s\<lparr>mem := memset (mem s) pgdir 0 (of_nat PGSIZE)\<rparr> in
        if P2V PHYSTOP > DEVSPACE then Inl (Panic ''PHYSTOP too high'')
        else setupkvm_loop pgdir (kmap kdata) s))"

text \<open>The memory of \<open>init\<close> is given by its bytes.\<close>

definition inituvm :: "u32 \<Rightarrow> u8 list \<Rightarrow> u32 \<Rightarrow> 'a kmem_st_scheme \<Rightarrow> 'a kmem_st_scheme res" where
  "inituvm pgdir init sz s =
     (if sz \<ge> of_nat PGSIZE then Inl (Panic ''inituvm: more than a page'')
      else
        bind_res (kalloc s) (\<lambda>(m, s).
        let s = s\<lparr>mem := memset (mem s) m 0 (of_nat PGSIZE)\<rparr> in
        bind_res (mappages pgdir 0 (of_nat PGSIZE) (V2P m) (PTE_W OR PTE_U) s) (\<lambda>(_, s).
        Inr (s\<lparr>mem := store_bytes (mem s) m (take (unat sz) init)\<rparr>))))"

function deallocuvm_loop :: "u32 \<Rightarrow> nat \<Rightarrow> nat \<Rightarrow> 'a kmem_st_scheme \<Rightarrow> 'a kmem_st_scheme res" where
  "deallocuvm_loop pgdir a oldsz s =
     (if a < oldsz then
        bind_res (walkpgdir pgdir (of_nat a) False s) (\<lambda>(pte, s).
        if pte = 0 then deallocuvm_loop pgdir (a + NPTENTRIES * PGSIZE) oldsz s
        else if rd32 s pte AND PTE_P \<noteq> 0 then
          (let pa = PTE_ADDR (rd32 s pte) in
           if pa = 0 then Inl (Panic ''kfree'')
           else bind_res (kfree (P2V pa) s) (\<lambda>s. deallocuvm_loop pgdir (a + PGSIZE) oldsz (wr32 pte 0 s)))
        else deallocuvm_loop pgdir (a + PGSIZE) oldsz s)
      else Inr s)"
  by pat_completeness auto
termination
  by (relation "measure (\<lambda>(pgdir, a, oldsz, s). oldsz - a)") (auto simp: PGSIZE_def NPTENTRIES_def)

definition deallocuvm :: "u32 \<Rightarrow> u32 \<Rightarrow> u32 \<Rightarrow> 'a kmem_st_scheme \<Rightarrow> (u32 \<times> 'a kmem_st_scheme) res" where
  "deallocuvm pgdir oldsz newsz s =
     (if newsz \<ge> oldsz then Inr (oldsz, s)
      else bind_res (deallocuvm_loop pgdir (unat (PGROUNDUP newsz)) (unat oldsz) s) (\<lambda>s. Inr (newsz, s)))"

function allocuvm_loop :: "u32 \<Rightarrow> nat \<Rightarrow> u32 \<Rightarrow> u32 \<Rightarrow> 'a kmem_st_scheme \<Rightarrow> (u32 \<times> 'a kmem_st_scheme) res" where
  "allocuvm_loop pgdir a oldsz newsz s =
     (if a < unat newsz then
        bind_res (kalloc s) (\<lambda>(m, s).
        if m = 0 then bind_res (deallocuvm pgdir newsz oldsz s) (\<lambda>(_, s). Inr (0, s))
        else
          (let s = s\<lparr>mem := memset (mem s) m 0 (of_nat PGSIZE)\<rparr> in
           bind_res (mappages pgdir (of_nat a) (of_nat PGSIZE) (V2P m) (PTE_W OR PTE_U) s) (\<lambda>(r, s).
           if sint r < 0 then
             bind_res (deallocuvm pgdir newsz oldsz s) (\<lambda>(_, s).
             bind_res (kfree m s) (\<lambda>s. Inr (0, s)))
           else allocuvm_loop pgdir (a + PGSIZE) oldsz newsz s)))
      else Inr (newsz, s))"
  by pat_completeness auto
termination
  by (relation "measure (\<lambda>(pgdir, a, oldsz, newsz, s). unat newsz - a)") (auto simp: PGSIZE_def)

definition allocuvm :: "u32 \<Rightarrow> u32 \<Rightarrow> u32 \<Rightarrow> 'a kmem_st_scheme \<Rightarrow> (u32 \<times> 'a kmem_st_scheme) res" where
  "allocuvm pgdir oldsz newsz s =
     (if newsz \<ge> KERNBASE then Inr (0, s)
      else if newsz < oldsz then Inr (oldsz, s)
      else allocuvm_loop pgdir (unat (PGROUNDUP oldsz)) oldsz newsz s)"

definition freevm_step :: "u32 \<Rightarrow> nat \<Rightarrow> 'a kmem_st_scheme \<Rightarrow> 'a kmem_st_scheme res" where
  "freevm_step pgdir i s =
     (let e = rd32 s (pgdir + 4 * of_nat i) in
      if e AND PTE_P \<noteq> 0 then kfree (P2V (PTE_ADDR e)) s else Inr s)"

definition freevm :: "u32 \<Rightarrow> 'a kmem_st_scheme \<Rightarrow> 'a kmem_st_scheme res" where
  "freevm pgdir s =
     (if pgdir = 0 then Inl (Panic ''freevm: no pgdir'')
      else
        bind_res (deallocuvm pgdir KERNBASE 0 s) (\<lambda>(_, s).
        bind_res (for_res [0..<NPDENTRIES] (freevm_step pgdir) s) (\<lambda>s.
        kfree pgdir s)))"

definition clearpteu :: "u32 \<Rightarrow> u32 \<Rightarrow> 'a kmem_st_scheme \<Rightarrow> 'a kmem_st_scheme res" where
  "clearpteu pgdir uva s =
     bind_res (walkpgdir pgdir uva False s) (\<lambda>(pte, s).
     if pte = 0 then Inl (Panic ''clearpteu'') else Inr (wr32 pte (rd32 s pte AND NOT PTE_U) s))"

function copyuvm_loop :: "u32 \<Rightarrow> u32 \<Rightarrow> nat \<Rightarrow> nat \<Rightarrow> 'a kmem_st_scheme \<Rightarrow> (u32 \<times> 'a kmem_st_scheme) res" where
  "copyuvm_loop pgdir d i sz s =
     (if i < sz then
        bind_res (walkpgdir pgdir (of_nat i) False s) (\<lambda>(pte, s).
        if pte = 0 then Inl (Panic ''copyuvm: pte should exist'')
        else if rd32 s pte AND PTE_P = 0 then Inl (Panic ''copyuvm: page not present'')
        else
          (let pa = PTE_ADDR (rd32 s pte); flags = PTE_FLAGS (rd32 s pte) in
           bind_res (kalloc s) (\<lambda>(m, s).
           if m = 0 then bind_res (freevm d s) (\<lambda>s. Inr (0, s))
           else
             (let s = s\<lparr>mem := memmove (mem s) m (P2V pa) (of_nat PGSIZE)\<rparr> in
              bind_res (mappages d (of_nat i) (of_nat PGSIZE) (V2P m) flags s) (\<lambda>(r, s).
              if sint r < 0 then bind_res (freevm d s) (\<lambda>s. Inr (0, s))
              else copyuvm_loop pgdir d (i + PGSIZE) sz s)))))
      else Inr (d, s))"
  by pat_completeness auto
termination
  by (relation "measure (\<lambda>(pgdir, d, i, sz, s). sz - i)") (auto simp: PGSIZE_def)

definition copyuvm :: "u32 \<Rightarrow> u32 \<Rightarrow> u32 \<Rightarrow> 'a kmem_st_scheme \<Rightarrow> (u32 \<times> 'a kmem_st_scheme) res" where
  "copyuvm kdata pgdir sz s =
     bind_res (setupkvm kdata s) (\<lambda>(d, s).
     if d = 0 then Inr (0, s) else copyuvm_loop pgdir d 0 (unat sz) s)"

text \<open>\<open>uva2ka\<close> reads the entry without a test for the null pointer \<open>walkpgdir\<close> may return.\<close>

definition uva2ka :: "u32 \<Rightarrow> u32 \<Rightarrow> 'a kmem_st_scheme \<Rightarrow> u32 res" where
  "uva2ka pgdir uva s =
     bind_res (walkpgdir pgdir uva False s) (\<lambda>(pte, s).
     if pte = 0 then Inl (Fault ''uva2ka'')
     else if rd32 s pte AND PTE_P = 0 then Inr 0
     else if rd32 s pte AND PTE_U = 0 then Inr 0
     else Inr (P2V (PTE_ADDR (rd32 s pte))))"

text \<open>The bytes to copy are a list.\<close>

lemma page_offset: "unat (va - PGROUNDDOWN va) < PGSIZE"
proof -
  have "unat (PGROUNDDOWN va) \<le> unat va" by (simp add: unat_PGROUNDDOWN)
  then have "unat (va - PGROUNDDOWN va) = unat va - unat (PGROUNDDOWN va)" by (simp add: unat_sub word_le_nat_alt)
  also have "\<dots> = unat va mod PGSIZE" by (simp add: unat_PGROUNDDOWN PGSIZE_def minus_div_mult_eq_mod)
  also have "\<dots> < PGSIZE" by (simp add: PGSIZE_def)
  finally show ?thesis .
qed

function copyout :: "u32 \<Rightarrow> u32 \<Rightarrow> u8 list \<Rightarrow> 'a kmem_st_scheme \<Rightarrow> (i32 \<times> 'a kmem_st_scheme) res" where
  "copyout pgdir va buf s =
     (if buf \<noteq> [] then
        (let va0 = PGROUNDDOWN va in
         bind_res (uva2ka pgdir va0 s) (\<lambda>pa0.
         if pa0 = 0 then Inr (- 1, s)
         else
           (let n = min (PGSIZE - unat (va - va0)) (length buf) in
            copyout pgdir (va0 + of_nat PGSIZE) (drop n buf) (s\<lparr>mem := store_bytes (mem s) (pa0 + (va - va0)) (take n buf)\<rparr>))))
      else Inr (0, s))"
  by pat_completeness auto
termination
proof (relation "measure (\<lambda>(pgdir, va, buf, s). length buf)")
  fix pgdir va x xa :: u32 and buf :: "u8 list" and xb :: nat and s :: "'a kmem_st_scheme"
  assume "buf \<noteq> []" "x = PGROUNDDOWN va" "xb = min (PGSIZE - unat (va - x)) (length buf)"
  then show "((pgdir, x + of_nat PGSIZE, drop xb buf, s\<lparr>mem := store_bytes (mem s) (xa + (va - x)) (take xb buf)\<rparr>), pgdir, va, buf, s)
      \<in> measure (\<lambda>(pgdir, va, buf, s). length buf)"
    using page_offset [of va] by simp
qed simp


section \<open>User pages\<close>

text \<open>The frame of the user page at \<open>v\<close>, by the two levels of the table.\<close>

definition upage :: "memory \<Rightarrow> u32 \<Rightarrow> u32 \<Rightarrow> u32 option" where
  "upage m pgdir v =
     (let e = load32 m (pgdir + 4 * PDX v); a = P2V (PTE_ADDR e) + 4 * PTX v; w = load32 m a in
      if e AND PTE_P = 0 \<or> a = 0 \<or> w AND PTE_P = 0 \<or> w AND PTE_U = 0 then None else Some (P2V (PTE_ADDR w)))"

text \<open>No part of the table is in a user page, and no two user pages share a frame.\<close>

definition tables_apart :: "memory \<Rightarrow> u32 \<Rightarrow> bool" where
  "tables_apart m pgdir \<longleftrightarrow> (\<forall>v p w x. upage m pgdir v = Some p \<and> in_range p PGSIZE x \<longrightarrow> \<not> in_range (pgdir + 4 * PDX w) 4 x
     \<and> (load32 m (pgdir + 4 * PDX w) AND PTE_P \<noteq> 0 \<longrightarrow> \<not> in_range (P2V (PTE_ADDR (load32 m (pgdir + 4 * PDX w))) + 4 * PTX w) 4 x))"

definition frames_distinct :: "memory \<Rightarrow> u32 \<Rightarrow> bool" where
  "frames_distinct m pgdir \<longleftrightarrow> (\<forall>v w p. upage m pgdir v = Some p \<and> upage m pgdir w = Some p \<and> PGROUNDDOWN v = v \<and> PGROUNDDOWN w = w
     \<longrightarrow> v = w)"

definition agree_off :: "memory \<Rightarrow> memory \<Rightarrow> u32 \<Rightarrow> bool" where
  "agree_off m m' pgdir \<longleftrightarrow> (\<forall>x. m' x \<noteq> m x \<longrightarrow> (\<exists>v p. upage m pgdir v = Some p \<and> in_range p PGSIZE x))"

lemma upage_agree:
  assumes ap: "tables_apart m pgdir" and ag: "agree_off m m' pgdir"
  shows "upage m' pgdir = upage m pgdir" "tables_apart m' pgdir"
proof -
  have e: "load32 m' (pgdir + 4 * PDX w) = load32 m (pgdir + 4 * PDX w)" for w
  proof (rule load32_cong)
    fix x assume "in_range (pgdir + 4 * PDX w) 4 x"
    then show "m' x = m x" using ap ag unfolding tables_apart_def agree_off_def by blast
  qed
  have a: "load32 m' (P2V (PTE_ADDR (load32 m (pgdir + 4 * PDX w))) + 4 * PTX w) = load32 m (P2V (PTE_ADDR (load32 m (pgdir + 4 * PDX w))) + 4 * PTX w)"
    if "load32 m (pgdir + 4 * PDX w) AND PTE_P \<noteq> 0" for w
  proof (rule load32_cong)
    fix x assume "in_range (P2V (PTE_ADDR (load32 m (pgdir + 4 * PDX w))) + 4 * PTX w) 4 x"
    then show "m' x = m x" using ap ag that unfolding tables_apart_def agree_off_def by blast
  qed
  show u: "upage m' pgdir = upage m pgdir"
    by (rule ext) (auto simp: upage_def Let_def e a)
  show "tables_apart m' pgdir" unfolding tables_apart_def u e using ap unfolding tables_apart_def by blast
qed

lemma uva2ka_upage:
  "uva2ka pgdir v s = Inr p \<Longrightarrow> p \<noteq> 0 \<Longrightarrow> upage (mem s) pgdir v = Some p"
  by (auto simp: uva2ka_def upage_def walkpgdir_def Let_def split: if_splits)

lemma frame_aligned:
  assumes "upage m pgdir v = Some p"
  shows "page_aligned p"
proof -
  obtain w where p: "p = P2V (PTE_ADDR w)" using assms by (auto simp: upage_def Let_def split: if_splits)
  have "unat (PTE_ADDR w) = unat w div 4096 * 4096" by (simp add: PTE_ADDR_def unat_page_mask)
  then have "unat (PTE_ADDR w) mod 4096 = 0" by simp
  moreover have "unat p mod 4096 = (unat (PTE_ADDR w) + 2147483648) mod 2 ^ 32 mod 4096"
    by (simp add: p P2V_def KERNBASE_def unat_word_ariths)
  moreover have "(a :: nat) mod 2 ^ 32 mod 4096 = a mod 4096" for a
    by (rule mod_mod_cancel) simp
  ultimately show ?thesis using mod_add_left_eq [of "unat (PTE_ADDR w)" 4096 2147483648] by simp
qed

text \<open>The kernel's address of the user byte at \<open>w\<close>, and that byte.\<close>

definition uaddr :: "memory \<Rightarrow> u32 \<Rightarrow> u32 \<Rightarrow> u32 option" where
  "uaddr m pgdir w = map_option (\<lambda>p. p + (w - PGROUNDDOWN w)) (upage m pgdir (PGROUNDDOWN w))"

definition user_byte :: "memory \<Rightarrow> u32 \<Rightarrow> u32 \<Rightarrow> u8 option" where
  "user_byte m pgdir w = map_option m (uaddr m pgdir w)"

lemma page_of_offset:
  assumes "unat (va - PGROUNDDOWN va) + i < PGSIZE"
  shows "PGROUNDDOWN (va + of_nat i) = PGROUNDDOWN va"
proof -
  have le: "unat (PGROUNDDOWN va) \<le> unat va" by (simp add: unat_PGROUNDDOWN)
  then have "unat (va - PGROUNDDOWN va) = unat va - unat (PGROUNDDOWN va)" by (simp add: unat_sub word_le_nat_alt)
  then have i: "unat va + i < unat (PGROUNDDOWN va) + 4096" using assms le by (simp add: PGSIZE_def)
  have "page_aligned (PGROUNDDOWN va)" by (simp add: unat_PGROUNDDOWN)
  from page_room [OF this] i have w: "unat va + i < 2 ^ 32" by simp
  then have "unat (va + of_nat i) = unat va + i" by (simp add: unat_word_ariths unat_of_nat)
  moreover have "(unat va + i) div 4096 = unat va div 4096"
    using i by (simp add: unat_PGROUNDDOWN)
  ultimately show ?thesis by (simp add: word_unat_eq_iff unat_PGROUNDDOWN)
qed

lemma PGROUNDDOWN_idem [simp]: "PGROUNDDOWN (PGROUNDDOWN v) = PGROUNDDOWN v"
  by (simp add: word_unat_eq_iff unat_PGROUNDDOWN)

lemma uaddr_in_page: "uaddr m pgdir w = Some x \<Longrightarrow> \<exists>p. upage m pgdir (PGROUNDDOWN w) = Some p \<and> in_range p PGSIZE x \<and> x = p + (w - PGROUNDDOWN w)"
  using page_offset [of w] by (auto simp: uaddr_def in_range_def)

lemma uaddr_inj:
  assumes d: "frames_distinct m pgdir" and v: "uaddr m pgdir v = Some x" and w: "uaddr m pgdir w = Some x"
  shows "v = w"
proof -
  obtain p where p: "upage m pgdir (PGROUNDDOWN v) = Some p" "in_range p PGSIZE x" "x = p + (v - PGROUNDDOWN v)"
    using uaddr_in_page [OF v] by blast
  obtain q where q: "upage m pgdir (PGROUNDDOWN w) = Some q" "in_range q PGSIZE x" "x = q + (w - PGROUNDDOWN w)"
    using uaddr_in_page [OF w] by blast
  have pq: "p = q"
    using page_overlap_eq [OF frame_aligned [OF p(1)] frame_aligned [OF q(1)]] p(2) q(2) by (simp add: PGSIZE_def)
  then have "PGROUNDDOWN v = PGROUNDDOWN w"
    using d [unfolded frames_distinct_def, THEN spec, of "PGROUNDDOWN v", THEN spec, of "PGROUNDDOWN w", THEN spec, of p] p(1) q(1) by simp
  moreover have "v - PGROUNDDOWN v = w - PGROUNDDOWN w" using p(3) q(3) unfolding pq by (metis add_left_cancel)
  ultimately show ?thesis by (metis diff_eq_eq add_diff_cancel_right')
qed

text \<open>One round of the loop writes the bytes of one page.\<close>

lemma copyout_chunk:
  assumes p: "upage m pgdir (PGROUNDDOWN va) = Some p" and n: "unat (va - PGROUNDDOWN va) + n \<le> PGSIZE" and i: "i < n"
  shows "uaddr m pgdir (va + of_nat i) = Some (p + (va - PGROUNDDOWN va) + of_nat i)"
  using page_of_offset [of va i] p n i by (simp add: uaddr_def)

lemma store_chunk:
  assumes p: "upage m pgdir (PGROUNDDOWN va) = Some p" and n: "unat (va - PGROUNDDOWN va) + length bs \<le> PGSIZE"
    and x: "store_bytes m (p + (va - PGROUNDDOWN va)) bs x \<noteq> m x"
  shows "\<exists>i<length bs. uaddr m pgdir (va + of_nat i) = Some x"
proof -
  define i where "i = unat (x - (p + (va - PGROUNDDOWN va)))"
  have i: "i < length bs" using x by (auto simp: store_bytes_def in_range_def i_def split: if_splits)
  have "uaddr m pgdir (va + of_nat i) = Some x"
    using copyout_chunk [OF p n i] by (simp add: i_def)
  then show ?thesis using i by blast
qed

definition copied :: "memory \<Rightarrow> memory \<Rightarrow> u32 \<Rightarrow> u32 \<Rightarrow> u8 list \<Rightarrow> bool" where
  "copied m m' pgdir va buf \<longleftrightarrow> (\<forall>i<length buf. \<exists>x. uaddr m pgdir (va + of_nat i) = Some x \<and> m' x = buf ! i)"

definition only_range :: "memory \<Rightarrow> memory \<Rightarrow> u32 \<Rightarrow> u32 \<Rightarrow> nat \<Rightarrow> bool" where
  "only_range m m' pgdir va n \<longleftrightarrow> (\<forall>x. m' x \<noteq> m x \<longrightarrow> (\<exists>i<n. uaddr m pgdir (va + of_nat i) = Some x))"

lemma only_range_agree: "only_range m m' pgdir va n \<Longrightarrow> agree_off m m' pgdir"
  unfolding only_range_def agree_off_def using uaddr_in_page by blast

lemma of_nat_inj32:
  assumes "(of_nat a :: u32) = of_nat b" "a < 2 ^ 32" "b < 2 ^ 32"
  shows "a = b"
proof -
  have "unat (of_nat a :: u32) = a" "unat (of_nat b :: u32) = b" using assms(2,3) by (simp_all add: unat_of_nat)
  then show ?thesis using assms(1) by metis
qed

lemma copied_join:
  assumes d: "frames_distinct m pgdir" and len: "length buf \<le> 2 ^ 32" and n: "n \<le> length buf"
    and a: "copied m m1 pgdir va (take n buf)" and u: "only_range m1 m2 pgdir (va + of_nat n) (length buf - n)"
    and eq: "upage m1 pgdir = upage m pgdir" and b: "copied m1 m2 pgdir (va + of_nat n) (drop n buf)"
  shows "copied m m2 pgdir va buf"
  unfolding copied_def
proof (intro allI impI)
  fix i assume i: "i < length buf"
  have ua: "uaddr m1 pgdir = uaddr m pgdir" using eq by (simp add: uaddr_def fun_eq_iff)
  show "\<exists>x. uaddr m pgdir (va + of_nat i) = Some x \<and> m2 x = buf ! i"
  proof (cases "i < n")
    case True
    then obtain x where x: "uaddr m pgdir (va + of_nat i) = Some x" "m1 x = buf ! i"
      using a n by (auto simp: copied_def)
    have "m2 x = m1 x"
    proof (rule ccontr)
      assume "m2 x \<noteq> m1 x"
      then obtain j where j: "j < length buf - n" "uaddr m pgdir (va + of_nat n + of_nat j) = Some x"
        using u ua by (auto simp: only_range_def)
      have "(of_nat i :: u32) = of_nat (n + j)" using uaddr_inj [OF d x(1) j(2)] by (simp add: add.assoc)
      moreover have "i < 2 ^ 32" "n + j < 2 ^ 32" using i j(1) len by simp_all
      ultimately have "i = n + j" by (rule of_nat_inj32)
      then show False using True by simp
    qed
    then show ?thesis using x by auto
  next
    case False
    then obtain x where "uaddr m pgdir (va + of_nat n + of_nat (i - n)) = Some x" "m2 x = drop n buf ! (i - n)"
      using b i ua unfolding copied_def by (metis diff_less_mono length_drop linorder_not_less)
    moreover have "va + of_nat n + of_nat (i - n) = va + of_nat i"
      using False by (simp add: add.assoc of_nat_add [symmetric] del: of_nat_add)
    ultimately show ?thesis using False i by auto
  qed
qed

lemma only_range_join:
  assumes a: "only_range m m1 pgdir va n" and n: "n \<le> k" and eq: "upage m1 pgdir = upage m pgdir"
    and b: "only_range m1 m2 pgdir (va + of_nat n) (k - n)"
  shows "only_range m m2 pgdir va k"
  unfolding only_range_def
proof (intro allI impI)
  fix x assume x: "m2 x \<noteq> m x"
  have ua: "uaddr m1 pgdir = uaddr m pgdir" using eq by (simp add: uaddr_def fun_eq_iff)
  show "\<exists>i<k. uaddr m pgdir (va + of_nat i) = Some x"
  proof (cases "m1 x = m x")
    case True
    then have "m2 x \<noteq> m1 x" using x by simp
    then obtain j where "j < k - n" "uaddr m pgdir (va + of_nat n + of_nat j) = Some x"
      using b ua unfolding only_range_def by metis
    then have "n + j < k" "uaddr m pgdir (va + of_nat (n + j)) = Some x" by (simp_all add: add.assoc)
    then show ?thesis by blast
  next
    case False
    then show ?thesis using a n unfolding only_range_def by (meson less_le_trans)
  qed
qed

lemma copyout_round:
  assumes p: "upage m pgdir (PGROUNDDOWN va) = Some p" and ap: "tables_apart m pgdir"
    and n: "unat (va - PGROUNDDOWN va) + length bs \<le> PGSIZE"
    and m1: "m1 = store_bytes m (p + (va - PGROUNDDOWN va)) bs"
  shows "only_range m m1 pgdir va (length bs)" "copied m m1 pgdir va bs" "upage m1 pgdir = upage m pgdir" "tables_apart m1 pgdir"
proof -
  show o: "only_range m m1 pgdir va (length bs)"
    unfolding only_range_def m1 using store_chunk [OF p n] by blast
  have "m1 (p + (va - PGROUNDDOWN va) + of_nat i) = bs ! i" if "i < length bs" for i
    unfolding m1 using that n by (intro store_bytes_in) (simp_all add: PGSIZE_def)
  then show "copied m m1 pgdir va bs"
    unfolding copied_def using copyout_chunk [OF p n] by blast
  show "upage m1 pgdir = upage m pgdir" "tables_apart m1 pgdir"
    using upage_agree [OF ap only_range_agree [OF o]] .
qed

declare copyout.simps [simp del]

lemma copyout_writes:
  "copyout pgdir va buf s = Inr (r, t) \<Longrightarrow> tables_apart (mem s) pgdir \<Longrightarrow> frames_distinct (mem s) pgdir
    \<Longrightarrow> unat va + length buf \<le> 2 ^ 32
    \<Longrightarrow> only_range (mem s) (mem t) pgdir va (length buf) \<and> (r = 0 \<longrightarrow> copied (mem s) (mem t) pgdir va buf)"
proof (induction pgdir va buf s rule: copyout.induct)
  case (1 pgdir va buf s)
  let ?va0 = "PGROUNDDOWN va"
  show ?case
  proof (cases "buf = []")
    case True
    then show ?thesis using "1.prems"(1) by (auto simp: copyout.simps only_range_def copied_def)
  next
    case False
    obtain p where p: "uva2ka pgdir ?va0 s = Inr p"
      using "1.prems"(1) False by (auto simp: copyout.simps [of pgdir va] bind_res_def Let_def split: sum.splits)
    show ?thesis
    proof (cases "p = 0")
      case True
      then show ?thesis using "1.prems"(1) False p by (auto simp: copyout.simps [of pgdir va] only_range_def)
    next
      case nz: False
      define n where "n = min (PGSIZE - unat (va - ?va0)) (length buf)"
      define s1 where "s1 = s\<lparr>mem := store_bytes (mem s) (p + (va - ?va0)) (take n buf)\<rparr>"
      have n: "length (take n buf) = n" "n \<le> length buf" "unat (va - ?va0) + length (take n buf) \<le> PGSIZE"
        using page_offset [of va] by (simp_all add: n_def)
      have rest: "copyout pgdir (?va0 + of_nat PGSIZE) (drop n buf) s1 = Inr (r, t)"
        using "1.prems"(1) False p nz by (simp add: copyout.simps [of pgdir va] Let_def n_def s1_def)
      have m1: "mem s1 = store_bytes (mem s) (p + (va - ?va0)) (take n buf)" by (simp add: s1_def)
      note rd = copyout_round [OF uva2ka_upage [OF p nz] "1.prems"(2) n(3) m1]
      show ?thesis
      proof (cases "n = length buf")
        case True
        then show ?thesis using rest rd(1,2) by (simp add: copyout.simps)
      next
        case lt: False
        then have ne: "n = PGSIZE - unat (va - ?va0)" by (simp add: n_def min_def split: if_splits)
        then have "n + unat (va - ?va0) = PGSIZE" using page_offset [of va] by simp
        then have "of_nat (n + unat (va - ?va0)) = (of_nat PGSIZE :: u32)" by (rule arg_cong)
        then have va1: "?va0 + of_nat PGSIZE = va + of_nat n" by (auto simp: algebra_simps)
        have "unat (va + of_nat n) = unat va + n"
          using "1.prems"(4) lt n(2) by (simp add: unat_word_ariths unat_of_nat)
        then have fit: "unat (?va0 + of_nat PGSIZE) + length (drop n buf) \<le> 2 ^ 32" using "1.prems"(4) n(2) by (simp add: va1)
        have fd: "frames_distinct (mem s1) pgdir" using "1.prems"(3) rd(3) by (simp add: frames_distinct_def)
        have ih: "only_range (mem s1) (mem t) pgdir (?va0 + of_nat PGSIZE) (length (drop n buf))
            \<and> (r = 0 \<longrightarrow> copied (mem s1) (mem t) pgdir (?va0 + of_nat PGSIZE) (drop n buf))"
          using "1.IH" [OF False refl p nz n_def] rest rd(4) fd fit unfolding s1_def by blast
        then show ?thesis
          using only_range_join [OF rd(1) _ rd(3)] copied_join [OF "1.prems"(3) _ n(2) rd(2) _ rd(3)] "1.prems"(4) n
          unfolding va1 by simp
      qed
    qed
  qed
qed

lemma range_index:
  fixes va w :: u32
  assumes "unat va + n \<le> 2 ^ 32"
  shows "(\<exists>i<n. w = va + of_nat i) \<longleftrightarrow> unat va \<le> unat w \<and> unat w < unat va + n"
proof -
  have "(\<exists>i<n. w = va + of_nat i) \<longleftrightarrow> in_range va n w"
    using in_range_offset_nat [of _ n va] assms by (force simp: in_range_def intro: exI [of _ "unat (w - va)"])
  then show ?thesis using in_range_unat [OF assms] by simp
qed

lemma copyout_bytes:
  assumes "copyout pgdir va buf s = Inr (r, t)" and "tables_apart (mem s) pgdir" and "frames_distinct (mem s) pgdir"
    and "unat va + length buf \<le> 2 ^ 32"
  shows "(r = 0 \<longrightarrow> user_byte (mem t) pgdir w =
            (if unat va \<le> unat w \<and> unat w < unat va + length buf then Some (buf ! (unat w - unat va)) else user_byte (mem s) pgdir w))
    \<and> ((\<forall>v. uaddr (mem s) pgdir v \<noteq> Some x) \<longrightarrow> mem t x = mem s x)"
proof -
  have o: "only_range (mem s) (mem t) pgdir va (length buf)" and c: "r = 0 \<Longrightarrow> copied (mem s) (mem t) pgdir va buf"
    using copyout_writes [OF assms] by blast+
  have ua: "uaddr (mem t) pgdir = uaddr (mem s) pgdir"
    using upage_agree(1) [OF assms(2) only_range_agree [OF o]] by (simp add: uaddr_def fun_eq_iff)
  have "user_byte (mem t) pgdir w = Some (buf ! (unat w - unat va))"
    if r: "r = 0" and w: "unat va \<le> unat w \<and> unat w < unat va + length buf"
  proof -
    have "w = va + of_nat (unat w - unat va)"
      using w by (simp add: word_unat_eq_iff unat_word_ariths unat_of_nat)
    moreover have "unat w - unat va < length buf" using w by linarith
    moreover from this obtain y where "uaddr (mem s) pgdir (va + of_nat (unat w - unat va)) = Some y" "mem t y = buf ! (unat w - unat va)"
      using c [OF r] unfolding copied_def by blast
    ultimately show ?thesis by (simp add: user_byte_def ua)
  qed
  moreover have "user_byte (mem t) pgdir w = user_byte (mem s) pgdir w"
    if w: "\<not> (unat va \<le> unat w \<and> unat w < unat va + length buf)"
  proof (cases "uaddr (mem s) pgdir w")
    case (Some y)
    have "mem t y = mem s y"
      using o w uaddr_inj [OF assms(3) Some] unfolding only_range_def range_index [OF assms(4), symmetric] by blast
    then show ?thesis by (simp add: user_byte_def ua Some)
  qed (simp add: user_byte_def ua)
  ultimately show ?thesis using o unfolding only_range_def by auto
qed

lemma copyout_keeps:
  assumes "copyout pgdir va buf s = Inr (r, t)" and "tables_apart (mem s) pgdir" and "frames_distinct (mem s) pgdir"
    and "unat va + length buf \<le> 2 ^ 32"
  shows "tables_apart (mem t) pgdir" "frames_distinct (mem t) pgdir"
proof -
  have "agree_off (mem s) (mem t) pgdir" using copyout_writes [OF assms] only_range_agree by blast
  note u = upage_agree [OF assms(2) this]
  show "tables_apart (mem t) pgdir" "frames_distinct (mem t) pgdir" using u assms(3) by (simp_all add: frames_distinct_def)
qed

text \<open>
  C6: when \<open>copyout\<close> returns 0, the user's byte at every address of the range is the byte of the buffer and every other
  user byte is as before; whatever it returns, no byte of memory outside the user pages has changed. The page table is outside
  its user pages and no two of them share a frame.
\<close>

theorem copyout_user_bytes:
  assumes "copyout pgdir va buf s = Inr (r, t)" and "tables_apart (mem s) pgdir" and "frames_distinct (mem s) pgdir"
    and "unat va + length buf \<le> 2 ^ 32"
  shows "(r = 0 \<longrightarrow> user_byte (mem t) pgdir w =
            (if unat va \<le> unat w \<and> unat w < unat va + length buf then Some (buf ! (unat w - unat va)) else user_byte (mem s) pgdir w))
    \<and> ((\<forall>v. uaddr (mem s) pgdir v \<noteq> Some x) \<longrightarrow> mem t x = mem s x)"
  by (rule copyout_bytes [OF assms])

text \<open>A table at \<open>0x80001000\<close> with one user page, at address 0, in the frame \<open>0x3000\<close>.\<close>

definition vm_mem :: memory where
  "vm_mem x = (if x = 0x80001000 \<or> x = 0x80002000 then 7 else if x = 0x80001001 then 0x20 else if x = 0x80002001 then 0x30 else 0)"

lemma vm_mem_zero:
  assumes "unat a mod 4 = 0" and "a \<noteq> 0x80001000" and "a \<noteq> 0x80002000"
  shows "load32 vm_mem a = 0"
proof -
  have "load32 vm_mem a = load32 (\<lambda>_. 0) a"
  proof (rule load32_cong)
    fix x assume "in_range a 4 x"
    moreover obtain k where k: "unat a = 4 * k" using assms(1) by (auto elim: dvdE)
    moreover from this have "unat a + 4 \<le> 2 ^ 32" using unat_less_exp32 [of a] by simp
    ultimately have x: "unat a \<le> unat x" "unat x < unat a + 4" using in_range_unat by auto
    have "unat a \<noteq> 0x80001000" "unat a \<noteq> 0x80002000" using assms(2,3) by (auto simp: word_unat_eq_iff)
    then have "k \<noteq> 0x20000400" "k \<noteq> 0x20000800" using k by auto
    moreover have "unat x div 4 = k" using k x by simp
    ultimately show "vm_mem x = 0" by (auto simp: vm_mem_def)
  qed
  then show ?thesis by (simp add: load32_def u32_of_bytes_def)
qed

lemma vm_mem_entries: "load32 vm_mem 0x80001000 = 0x2007" "load32 vm_mem 0x80002000 = 0x3007"
  by (simp_all add: load32_def vm_mem_def u32_of_bytes_def)

lemma index_less: "unat (PDX v) < 1024" "unat (PTX v) < 1024"
proof -
  have "(x :: u32) AND 0x3FF \<le> 0x3FF" for x by (rule word_and_le1)
  then show "unat (PDX v) < 1024" "unat (PTX v) < 1024"
    by (simp_all add: PDX_def PTX_def word_le_nat_alt less_Suc_eq_le [of _ 1023, simplified])
qed

lemma entry_unat:
  fixes a k :: u32
  assumes "unat k < 1024" and "unat a \<le> 0x80002000"
  shows "unat (a + 4 * k) = unat a + 4 * unat k"
  using assms by (simp add: unat_word_ariths)

lemma vm_mem_upage: "upage vm_mem 0x80001000 v = (if PDX v = 0 \<and> PTX v = 0 then Some 0x80003000 else None)"
proof -
  have d: "load32 vm_mem (0x80001000 + 4 * PDX v) = (if PDX v = 0 then 0x2007 else 0)"
  proof (cases "PDX v = 0")
    case False
    then have "unat (PDX v) \<noteq> 0" by (simp add: unat_eq_0)
    then show ?thesis using False index_less(1) [of v] entry_unat [of "PDX v" "0x80001000"]
      by (simp add: word_unat_eq_iff vm_mem_zero)
  qed (simp add: vm_mem_entries)
  have e: "load32 vm_mem (0x80002000 + 4 * PTX v) = (if PTX v = 0 then 0x3007 else 0)"
  proof (cases "PTX v = 0")
    case False
    then have "unat (PTX v) \<noteq> 0" by (simp add: unat_eq_0)
    then show ?thesis using False index_less(2) [of v] entry_unat [of "PTX v" "0x80002000"]
      by (simp add: word_unat_eq_iff vm_mem_zero)
  qed (simp add: vm_mem_entries)
  have a: "P2V (PTE_ADDR 0x2007) = 0x80002000" "P2V (PTE_ADDR 0x3007) = 0x80003000"
    by (simp_all add: P2V_def PTE_ADDR_def KERNBASE_def)
  have "0x80002000 + 4 * PTX v \<noteq> 0"
    using entry_unat [OF index_less(2), of "0x80002000" v] by (auto simp: word_unat_eq_iff)
  then show ?thesis by (simp add: upage_def d e a PTE_P_def PTE_U_def Let_def vm_mem_entries)
qed

lemma page_zero:
  assumes "PDX v = 0" "PTX v = 0" "PGROUNDDOWN v = v"
  shows "v = 0"
proof -
  have "drop_bit 12 v = 0"
  proof (rule bit_word_eqI)
    fix n :: nat assume "n < LENGTH(32)"
    have "\<not> bit v (12 + n)" if "n < 20"
    proof (cases "n < 10")
      case True
      then have "bit (PTX v) n = bit v (12 + n)"
        using bit_mask_iff [of 10 n, where ?'a = u32] by (simp add: PTX_def bit_simps mask_eq_exp_minus_1)
      then show ?thesis using assms(2) by simp
    next
      case False
      have "n - 10 < 10" "n - 10 < 32" using that by linarith+
      with False have "bit (PDX v) (n - 10) = bit v (12 + n)"
        using bit_mask_iff [of 10 "n - 10", where ?'a = u32] by (simp add: PDX_def bit_simps mask_eq_exp_minus_1)
      then show ?thesis using assms(1) by simp
    qed
    moreover have "\<not> bit v (12 + n)" if "\<not> n < 20" using that bit_imp_le_length [of v "12 + n"] by auto
    ultimately show "bit (drop_bit 12 v) n = bit 0 n" by (auto simp: bit_simps)
  qed
  then show ?thesis using assms(3) by (simp add: PGROUNDDOWN_def PGSIZE_def page_mask)
qed

lemma vm_mem_apart: "tables_apart vm_mem 0x80001000" "frames_distinct vm_mem 0x80001000"
proof -
  have "\<not> in_range (0x80001000 + 4 * PDX w) 4 x \<and> \<not> in_range (0x80002000 + 4 * PTX w) 4 x" if "in_range 0x80003000 PGSIZE x" for x w
  proof -
    have x: "unat x \<ge> 0x80003000" using that in_range_unat [of "0x80003000" PGSIZE x] by (simp add: PGSIZE_def)
    have d: "unat (0x80001000 + 4 * PDX w) = 0x80001000 + 4 * unat (PDX w)" "unat (0x80002000 + 4 * PTX w) = 0x80002000 + 4 * unat (PTX w)"
      using entry_unat [OF index_less(1), of "0x80001000" w] entry_unat [OF index_less(2), of "0x80002000" w] by simp_all
    show ?thesis using index_less [of w] x
      in_range_unat [of "0x80001000 + 4 * PDX w" 4 x] in_range_unat [of "0x80002000 + 4 * PTX w" 4 x] unfolding d by simp
  qed
  moreover have "P2V (PTE_ADDR (load32 vm_mem (0x80001000 + 4 * PDX w))) = 0x80002000"
    if "load32 vm_mem (0x80001000 + 4 * PDX w) AND PTE_P \<noteq> 0" for w
  proof (cases "PDX w = 0")
    case False
    then have "unat (PDX w) \<noteq> 0" by (simp add: unat_eq_0)
    then have "load32 vm_mem (0x80001000 + 4 * PDX w) = 0" using index_less(1) [of w] entry_unat [of "PDX w" "0x80001000"]
      by (simp add: word_unat_eq_iff vm_mem_zero)
    then show ?thesis using that by simp
  qed (simp add: vm_mem_entries P2V_def PTE_ADDR_def KERNBASE_def)
  ultimately show "tables_apart vm_mem 0x80001000"
    unfolding tables_apart_def vm_mem_upage by auto
  show "frames_distinct vm_mem 0x80001000" unfolding frames_distinct_def vm_mem_upage by (auto split: if_splits dest: page_zero)
qed

theorem copyout_user_bytes_witness:
  "\<exists>t. copyout 0x80001000 100 [1, 2, 3] (one_page\<lparr>mem := vm_mem\<rparr>) = Inr (0, t) \<and> user_byte (mem t) 0x80001000 101 = Some 2
    \<and> user_byte (mem t) 0x80001000 103 = Some 0 \<and> mem t 0x80001000 = 7"
proof -
  let ?s = "one_page\<lparr>mem := vm_mem\<rparr>"
  obtain t where t: "copyout 0x80001000 100 [1, 2, 3] ?s = Inr (0, t)"
    by (simp add: copyout.simps uva2ka_def walkpgdir_def PGROUNDDOWN_def PGSIZE_def PDX_def PTX_def vm_mem_entries
        PTE_P_def PTE_U_def PTE_ADDR_def P2V_def KERNBASE_def Let_def)
  have p: "tables_apart (mem ?s) 0x80001000" "frames_distinct (mem ?s) 0x80001000" "unat (100 :: u32) + length [1, 2, 3 :: u8] \<le> 2 ^ 32"
    using vm_mem_apart by simp_all
  have u: "uaddr vm_mem 0x80001000 v = (if PDX (PGROUNDDOWN v) = 0 \<and> PTX (PGROUNDDOWN v) = 0 then Some (0x80003000 + (v - PGROUNDDOWN v)) else None)" for v
    by (simp add: uaddr_def vm_mem_upage)
  have "uaddr (mem ?s) 0x80001000 v \<noteq> Some 0x80001000" for v
    using uaddr_in_page [of vm_mem "0x80001000" v "0x80001000"] by (auto simp: vm_mem_upage in_range_def PGSIZE_def split: if_splits)
  then have "mem t 0x80001000 = 7"
    using copyout_user_bytes [OF t p, of 0 "0x80001000"] by (simp add: vm_mem_def)
  moreover have "user_byte (mem t) 0x80001000 101 = Some 2" using copyout_user_bytes [OF t p, of 101] by simp
  moreover have "user_byte (mem t) 0x80001000 103 = Some 0"
    using copyout_user_bytes [OF t p, of 103] by (simp add: user_byte_def u PDX_def PTX_def PGROUNDDOWN_def PGSIZE_def vm_mem_def)
  ultimately show ?thesis using t by blast
qed

end
