(* ===== verification/Proc.thy ===== *)
theory Proc
  imports Console Vm
begin

text \<open>
  Processes, from \<open>src/proc.c\<close> and \<open>src/proc.h\<close>. A process is its index in \<open>ptable.proc\<close>; trap frames and contexts
  are in memory, in the kernel stack page of their process. The rest of the kernel is the field \<open>kern\<close>.
  A function that calls \<open>swtch\<close> is cut there: the half before it ends where the scheduler continues, and the half
  after it, with the suffix \<open>_in\<close>, runs when the scheduler switches back to the process. The scheduler
  is a step function over its program counter. The addresses \<open>trapret\<close>, \<open>forkret\<close> and \<open>data\<close> are arguments.
  Loading the page-table register and printing (\<open>procdump\<close>) are not modelled.
\<close>

section \<open>Definitions\<close>

definition NPROC :: nat where "NPROC = 64"
definition KSTACKSIZE :: u32 where "KSTACKSIZE = 4096"
definition NOFILE :: nat where "NOFILE = 16"

datatype procstate = UNUSED | EMBRYO | SLEEPING | RUNNABLE | RUNNING | ZOMBIE

text \<open>What a process can sleep on: a process, the clock, the \<open>selid\<close> of a process, or another address of the kernel.\<close>

datatype chan = ProcChan nat | TicksChan | SelChan nat | AddrChan u32

record proc =
  psz :: u32
  pgdir :: u32
  kstack :: u32
  pstate :: procstate
  ppid :: i32
  pparent :: "nat option"
  ptf :: u32
  pcontext :: u32
  pchan :: "chan option"
  pkilled :: i32
  ofile :: "nat option list"
  cwd :: "nat option"
  pname :: "u8 list"
  selid :: i32

record proc_st =
  ptable_lock :: spinlock
  procs :: "proc list"
  initproc :: "nat option"
  nextpid :: i32
  cproc :: "nat option"
  schedule_timing_pool :: u32
  forkret_first :: bool
  kern :: cons_st

subsection \<open>Access to the parts of the state\<close>

definition upd_proc :: "nat \<Rightarrow> (proc \<Rightarrow> proc) \<Rightarrow> 'a proc_st_scheme \<Rightarrow> 'a proc_st_scheme" where
  "upd_proc i g s = s\<lparr>procs := (procs s)[i := g (procs s ! i)]\<rparr>"

definition on_kern :: "(cons_st \<Rightarrow> ('r \<times> cons_st) res) \<Rightarrow> 'a proc_st_scheme \<Rightarrow> ('r \<times> 'a proc_st_scheme) res" where
  "on_kern f s = bind_res (f (kern s)) (\<lambda>(r, k). Inr (r, s\<lparr>kern := k\<rparr>))"

definition do_kern :: "(cons_st \<Rightarrow> cons_st res) \<Rightarrow> 'a proc_st_scheme \<Rightarrow> 'a proc_st_scheme res" where
  "do_kern f s = bind_res (f (kern s)) (\<lambda>k. Inr (s\<lparr>kern := k\<rparr>))"

definition on_mem :: "(prng_st \<Rightarrow> ('r \<times> prng_st) res) \<Rightarrow> 'a proc_st_scheme \<Rightarrow> ('r \<times> 'a proc_st_scheme) res" where
  "on_mem f s = bind_res (f (kst (kern s))) (\<lambda>(r, k). Inr (r, s\<lparr>kern := (kern s)\<lparr>kst := k\<rparr>\<rparr>))"

definition do_mem :: "(prng_st \<Rightarrow> prng_st res) \<Rightarrow> 'a proc_st_scheme \<Rightarrow> 'a proc_st_scheme res" where
  "do_mem f s = bind_res (f (kst (kern s))) (\<lambda>k. Inr (s\<lparr>kern := (kern s)\<lparr>kst := k\<rparr>\<rparr>))"

abbreviation pmem :: "'a proc_st_scheme \<Rightarrow> memory" where "pmem s \<equiv> mem (kst (kern s))"

definition set_mem :: "(memory \<Rightarrow> memory) \<Rightarrow> 'a proc_st_scheme \<Rightarrow> 'a proc_st_scheme" where
  "set_mem g s = s\<lparr>kern := (kern s)\<lparr>kst := (kst (kern s))\<lparr>mem := g (pmem s)\<rparr>\<rparr>\<rparr>"

definition ptable_acquire :: "'a proc_st_scheme \<Rightarrow> 'a proc_st_scheme res" where
  "ptable_acquire s =
     bind_res (acquire (ptable_lock s) (kst (kern s))) (\<lambda>(lk, k). Inr (s\<lparr>ptable_lock := lk, kern := (kern s)\<lparr>kst := k\<rparr>\<rparr>))"

definition ptable_release :: "'a proc_st_scheme \<Rightarrow> 'a proc_st_scheme res" where
  "ptable_release s =
     bind_res (release (ptable_lock s) (kst (kern s))) (\<lambda>(lk, k). Inr (s\<lparr>ptable_lock := lk, kern := (kern s)\<lparr>kst := k\<rparr>\<rparr>))"

definition with_proc :: "(nat \<Rightarrow> 'r res) \<Rightarrow> 'a proc_st_scheme \<Rightarrow> 'r res" where
  "with_proc f s = (case cproc s of None \<Rightarrow> Inl (Fault ''proc'') | Some i \<Rightarrow> f i)"

text \<open>What \<open>safestrcpy\<close> leaves in the sixteen bytes of a name.\<close>

definition set_name :: "u8 list \<Rightarrow> u8 list \<Rightarrow> u8 list" where
  "set_name old new =
     (let e = takeWhile (\<lambda>c. c \<noteq> 0) (take (length old - 1) new) in e @ [0] @ drop (length e + 1) old)"

subsection \<open>Creation\<close>

definition pinit :: "'a proc_st_scheme \<Rightarrow> 'a proc_st_scheme" where
  "pinit s = s\<lparr>ptable_lock := initlock ''ptable'' (ptable_lock s)\<rparr>"

text \<open>A trap frame has 76 bytes, a context 20; \<open>eip\<close> is the last word of the context.\<close>

definition trapframe_size :: u32 where "trapframe_size = 76"
definition context_size :: u32 where "context_size = 20"

definition allocproc :: "u32 \<Rightarrow> u32 \<Rightarrow> 'a proc_st_scheme \<Rightarrow> (nat option \<times> 'a proc_st_scheme) res" where
  "allocproc trapret forkret s =
     (case List.find (\<lambda>i. pstate (procs s ! i) = UNUSED) [0..<NPROC] of
        None \<Rightarrow> Inr (None, s)
      | Some i \<Rightarrow>
          (let s = (upd_proc i (\<lambda>p. p\<lparr>pstate := EMBRYO, ppid := nextpid s\<rparr>) s)\<lparr>nextpid := nextpid s + 1\<rparr>;
             s = s\<lparr>kern := (kern s)\<lparr>sels := (sels (kern s))\<lparr>sel_locks := (sel_locks (sels (kern s)))[i := False]\<rparr>\<rparr>\<rparr> in
           bind_res (on_mem kalloc s) (\<lambda>(k, s).
           let s = upd_proc i (\<lambda>p. p\<lparr>kstack := k\<rparr>) s in
           if k = 0 then Inr (None, upd_proc i (\<lambda>p. p\<lparr>pstate := UNUSED\<rparr>) s)
           else
             (let sp = k + KSTACKSIZE - trapframe_size;
                s = upd_proc i (\<lambda>p. p\<lparr>ptf := sp\<rparr>) s;
                sp = sp - 4;
                s = set_mem (\<lambda>m. store32 m sp trapret) s;
                sp = sp - context_size;
                s = upd_proc i (\<lambda>p. p\<lparr>pcontext := sp\<rparr>) s;
                s = set_mem (\<lambda>m. store32 (memset m sp 0 context_size) (sp + 16) forkret) s
              in Inr (Some i, s)))))"

text \<open>
  The words of a trap frame: \<open>eax\<close> at 28, \<open>eip\<close> at 56, \<open>eflags\<close> at 64, \<open>esp\<close> at 68; the segment
  selectors \<open>es\<close>, \<open>ds\<close>, \<open>cs\<close> and \<open>ss\<close> are sixteen bits at 40, 44, 60 and 72, in words that are zero.
\<close>

definition tf_eax :: u32 where "tf_eax = 28"
definition tf_eip :: u32 where "tf_eip = 56"
definition tf_esp :: u32 where "tf_esp = 68"

definition init_tf :: "u32 \<Rightarrow> memory \<Rightarrow> memory" where
  "init_tf tf m =
     (let m = memset m tf 0 trapframe_size;
        m = store32 m (tf + 60) (push_bit 3 4 OR 3);
        m = store32 m (tf + 44) (push_bit 3 5 OR 3);
        m = store32 m (tf + 40) (push_bit 3 5 OR 3);
        m = store32 m (tf + 72) (push_bit 3 5 OR 3);
        m = store32 m (tf + 64) FL_IF;
        m = store32 m (tf + tf_esp) (of_nat PGSIZE)
      in store32 m (tf + tf_eip) 0)"

definition ascii :: "string \<Rightarrow> u8 list" where
  "ascii = map (\<lambda>c. of_nat (of_char c))"

definition userinit :: "cons_st devfns list \<Rightarrow> u8 list \<Rightarrow> u32 \<Rightarrow> u32 \<Rightarrow> u32 \<Rightarrow> u8 list \<Rightarrow> 'a proc_st_scheme \<Rightarrow> 'a proc_st_scheme res" where
  "userinit devsw stack trapret forkret kdata initcode s =
     bind_res (ptable_acquire s) (\<lambda>s.
     bind_res (allocproc trapret forkret s) (\<lambda>(r, s).
     let s = s\<lparr>initproc := r\<rparr> in
     case r of None \<Rightarrow> Inl (Fault ''userinit'') | Some p \<Rightarrow>
     bind_res (on_mem (setupkvm kdata) s) (\<lambda>(d, s).
     let s = upd_proc p (\<lambda>x. x\<lparr>pgdir := d\<rparr>) s in
     if d = 0 then Inl (Panic ''userinit: out of memory?'')
     else
       bind_res (do_mem (inituvm d initcode (of_nat (length initcode))) s) (\<lambda>s.
       let s = upd_proc p (\<lambda>x. x\<lparr>psz := of_nat PGSIZE\<rparr>) s;
         s = set_mem (init_tf (ptf (procs s ! p))) s;
         s = upd_proc p (\<lambda>x. x\<lparr>pname := set_name (pname x) (ascii ''initcode'' @ [0])\<rparr>) s in
       bind_res (on_kern (namei devsw 0 stack (ascii ''/'')) s) (\<lambda>(ip, s).
       ptable_release (upd_proc p (\<lambda>x. x\<lparr>cwd := ip, pstate := RUNNABLE\<rparr>) s))))))"

definition growproc :: "i32 \<Rightarrow> 'a proc_st_scheme \<Rightarrow> (i32 \<times> 'a proc_st_scheme) res" where
  "growproc n s =
     with_proc (\<lambda>i.
       let sz = psz (procs s ! i); d = pgdir (procs s ! i) in
       bind_res
         (if sint n > 0 then on_mem (allocuvm d sz (sz + n)) s
          else if sint n < 0 then on_mem (deallocuvm d sz (sz + n)) s
          else Inr (sz, s)) (\<lambda>(sz, s).
       if n \<noteq> 0 \<and> sz = 0 then Inr (- 1, s) else Inr (0, upd_proc i (\<lambda>p. p\<lparr>psz := sz\<rparr>) s))) s"

text \<open>The loop of \<open>fork\<close> over the open files.\<close>

definition fork_file :: "nat \<Rightarrow> nat \<Rightarrow> nat \<Rightarrow> 'a proc_st_scheme \<Rightarrow> 'a proc_st_scheme res" where
  "fork_file cur np fd s =
     (case ofile (procs s ! cur) ! fd of
        None \<Rightarrow> Inr s
      | Some f \<Rightarrow>
          bind_res (on_kern (filedup f) s) (\<lambda>(g, s).
          Inr (upd_proc np (\<lambda>p. p\<lparr>ofile := (ofile p)[fd := Some g]\<rparr>) s)))"

text \<open>\<open>fork\<close> after \<open>copyuvm\<close>, when it failed and when it did not.\<close>

definition fork_fails :: "nat \<Rightarrow> 'a proc_st_scheme \<Rightarrow> (i32 \<times> 'a proc_st_scheme) res" where
  "fork_fails np s =
     bind_res (do_mem (kfree (kstack (procs s ! np))) s) (\<lambda>s.
     bind_res (ptable_release (upd_proc np (\<lambda>p. p\<lparr>kstack := 0, pstate := UNUSED\<rparr>) s)) (\<lambda>s.
     Inr (- 1, s)))"

definition fork_child :: "nat \<Rightarrow> nat \<Rightarrow> 'a proc_st_scheme \<Rightarrow> (i32 \<times> 'a proc_st_scheme) res" where
  "fork_child cur np s =
     (let s = upd_proc np (\<lambda>p. p\<lparr>psz := psz (procs s ! cur), pparent := Some cur\<rparr>) s;
        tf = ptf (procs s ! np);
        s = set_mem (\<lambda>m. store_bytes m tf (load_bytes m (ptf (procs s ! cur)) (unat trapframe_size))) s;
        s = set_mem (\<lambda>m. store32 m (tf + tf_eax) 0) s in
      bind_res (for_res [0..<NOFILE] (fork_file cur np) s) (\<lambda>s.
      case cwd (procs s ! cur) of None \<Rightarrow> Inl (Fault ''idup'') | Some ip \<Rightarrow>
      bind_res (on_kern (idup ip) s) (\<lambda>(ip, s).
      let s = upd_proc np (\<lambda>p. p\<lparr>cwd := Some ip, pname := set_name (pname p) (pname (procs s ! cur))\<rparr>) s;
        pid = ppid (procs s ! np) in
      bind_res (ptable_release (upd_proc np (\<lambda>p. p\<lparr>pstate := RUNNABLE\<rparr>) s)) (\<lambda>s.
      Inr (pid, s)))))"

definition fork :: "u32 \<Rightarrow> u32 \<Rightarrow> u32 \<Rightarrow> 'a proc_st_scheme \<Rightarrow> (i32 \<times> 'a proc_st_scheme) res" where
  "fork trapret forkret kdata s =
     with_proc (\<lambda>cur.
       bind_res (ptable_acquire s) (\<lambda>s.
       bind_res (allocproc trapret forkret s) (\<lambda>(r, s).
       case r of None \<Rightarrow> bind_res (ptable_release s) (\<lambda>s. Inr (- 1, s)) | Some np \<Rightarrow>
       bind_res (on_mem (copyuvm kdata (pgdir (procs s ! cur)) (psz (procs s ! cur))) s) (\<lambda>(d, s).
       let s = upd_proc np (\<lambda>p. p\<lparr>pgdir := d\<rparr>) s in
       if d = 0 then fork_fails np s else fork_child cur np s)))) s"

subsection \<open>Switching\<close>

text \<open>\<open>sched\<close> up to \<open>swtch\<close>, with the saved \<open>intena\<close>, and the rest of it.\<close>

definition sched :: "'a proc_st_scheme \<Rightarrow> (u32 \<times> 'a proc_st_scheme) res" where
  "sched s =
     (if \<not> holding (ptable_lock s) (kst (kern s)) then Inl (Panic ''sched ptable.lock'')
      else if ncli (kst (kern s)) \<noteq> 1 then Inl (Panic ''sched locks'')
      else
        with_proc (\<lambda>i.
          if pstate (procs s ! i) = RUNNING then Inl (Panic ''sched running'')
          else if readeflags (kst (kern s)) AND FL_IF \<noteq> 0 then Inl (Panic ''sched interruptible'')
          else Inr (intena (kst (kern s)), s)) s)"

definition sched_in :: "u32 \<Rightarrow> 'a proc_st_scheme \<Rightarrow> 'a proc_st_scheme" where
  "sched_in saved s = s\<lparr>kern := (kern s)\<lparr>kst := (kst (kern s))\<lparr>intena := saved\<rparr>\<rparr>\<rparr>"

definition yield :: "'a proc_st_scheme \<Rightarrow> (u32 \<times> 'a proc_st_scheme) res" where
  "yield s =
     with_proc (\<lambda>i.
       bind_res (ptable_acquire s) (\<lambda>s.
       sched (upd_proc i (\<lambda>p. p\<lparr>pstate := RUNNABLE\<rparr>) s))) s"

definition yield_in :: "u32 \<Rightarrow> 'a proc_st_scheme \<Rightarrow> 'a proc_st_scheme res" where
  "yield_in saved s = ptable_release (sched_in saved s)"

definition forkret :: "'a proc_st_scheme \<Rightarrow> 'a proc_st_scheme res" where
  "forkret s =
     bind_res (ptable_release s) (\<lambda>s.
     if forkret_first s then
       (let s = s\<lparr>forkret_first := False\<rparr> in
        bind_res (do_kern (iinit ROOTDEV) s) (\<lambda>s.
        do_kern (initlog ROOTDEV) s))
     else Inr s)"

text \<open>The locks that a process of this model sleeps with.\<close>

datatype slock = PtableLock | TicksLock | SelectLock nat

definition slock_acquire :: "slock \<Rightarrow> 'a proc_st_scheme \<Rightarrow> 'a proc_st_scheme res" where
  "slock_acquire lk s =
     (case lk of
        PtableLock \<Rightarrow> ptable_acquire s
      | TicksLock \<Rightarrow> do_mem acquire_ticks s
      | SelectLock i \<Rightarrow>
          bind_res (lock_acquire (sel_locks (sels (kern s)) ! i)) (\<lambda>l.
          Inr (s\<lparr>kern := (kern s)\<lparr>sels := (sels (kern s))\<lparr>sel_locks := (sel_locks (sels (kern s)))[i := l]\<rparr>\<rparr>\<rparr>)))"

definition slock_release :: "slock \<Rightarrow> 'a proc_st_scheme \<Rightarrow> 'a proc_st_scheme res" where
  "slock_release lk s =
     (case lk of
        PtableLock \<Rightarrow> ptable_release s
      | TicksLock \<Rightarrow> do_mem release_ticks s
      | SelectLock i \<Rightarrow>
          bind_res (lock_release (sel_locks (sels (kern s)) ! i)) (\<lambda>l.
          Inr (s\<lparr>kern := (kern s)\<lparr>sels := (sels (kern s))\<lparr>sel_locks := (sel_locks (sels (kern s)))[i := l]\<rparr>\<rparr>\<rparr>)))"

definition sleep :: "chan option \<Rightarrow> slock option \<Rightarrow> 'a proc_st_scheme \<Rightarrow> (u32 \<times> 'a proc_st_scheme) res" where
  "sleep ch lk s =
     (case cproc s of None \<Rightarrow> Inl (Panic ''sleep'') | Some i \<Rightarrow>
      case lk of None \<Rightarrow> Inl (Panic ''sleep without lk'') | Some lk \<Rightarrow>
      bind_res (if lk \<noteq> PtableLock then bind_res (ptable_acquire s) (slock_release lk) else Inr s) (\<lambda>s.
      sched (upd_proc i (\<lambda>p. p\<lparr>pchan := ch, pstate := SLEEPING\<rparr>) s)))"

definition sleep_in :: "slock \<Rightarrow> u32 \<Rightarrow> 'a proc_st_scheme \<Rightarrow> 'a proc_st_scheme res" where
  "sleep_in lk saved s =
     with_proc (\<lambda>i.
       let s = upd_proc i (\<lambda>p. p\<lparr>pchan := None\<rparr>) (sched_in saved s) in
       if lk \<noteq> PtableLock then bind_res (ptable_release s) (slock_acquire lk) else Inr s) s"

definition wakeup1 :: "chan option \<Rightarrow> 'a proc_st_scheme \<Rightarrow> 'a proc_st_scheme" where
  "wakeup1 ch s =
     s\<lparr>procs := map (\<lambda>p. if pstate p = SLEEPING \<and> pchan p = ch then p\<lparr>pstate := RUNNABLE\<rparr> else p) (procs s)\<rparr>"

definition wakeup :: "chan option \<Rightarrow> 'a proc_st_scheme \<Rightarrow> 'a proc_st_scheme res" where
  "wakeup ch s = bind_res (ptable_acquire s) (\<lambda>s. ptable_release (wakeup1 ch s))"

definition kill :: "i32 \<Rightarrow> 'a proc_st_scheme \<Rightarrow> (i32 \<times> 'a proc_st_scheme) res" where
  "kill pid s =
     bind_res (ptable_acquire s) (\<lambda>s.
     case List.find (\<lambda>i. ppid (procs s ! i) = pid) [0..<NPROC] of
       Some i \<Rightarrow>
         bind_res (ptable_release (upd_proc i (\<lambda>p. p\<lparr>pkilled := 1, pstate := (if pstate p = SLEEPING then RUNNABLE else pstate p)\<rparr>) s)) (\<lambda>s.
         Inr (0, s))
     | None \<Rightarrow> bind_res (ptable_release s) (\<lambda>s. Inr (- 1, s)))"

subsection \<open>The end of a process\<close>

definition exit_file :: "nat \<Rightarrow> nat \<Rightarrow> 'a proc_st_scheme \<Rightarrow> 'a proc_st_scheme res" where
  "exit_file cur fd s =
     (case ofile (procs s ! cur) ! fd of
        None \<Rightarrow> Inr s
      | Some f \<Rightarrow>
          bind_res (do_kern (fileclose f) s) (\<lambda>s.
          Inr (upd_proc cur (\<lambda>p. p\<lparr>ofile := (ofile p)[fd := None]\<rparr>) s)))"

definition adopt_step :: "nat \<Rightarrow> nat \<Rightarrow> 'a proc_st_scheme \<Rightarrow> 'a proc_st_scheme" where
  "adopt_step cur i s =
     (if pparent (procs s ! i) = Some cur then
        (let s = upd_proc i (\<lambda>p. p\<lparr>pparent := initproc s\<rparr>) s in
         if pstate (procs s ! i) = ZOMBIE then wakeup1 (map_option ProcChan (initproc s)) s else s)
      else s)"

definition exit :: "'a proc_st_scheme \<Rightarrow> (u32 \<times> 'a proc_st_scheme) res" where
  "exit s =
     with_proc (\<lambda>cur.
       if cproc s = initproc s then Inl (Panic ''init exiting'')
       else
         bind_res (for_res [0..<NOFILE] (exit_file cur) s) (\<lambda>s.
         case cwd (procs s ! cur) of None \<Rightarrow> Inl (Fault ''iput'') | Some ip \<Rightarrow>
         bind_res (do_kern begin_op s) (\<lambda>s.
         bind_res (do_kern (iput ip) s) (\<lambda>s.
         bind_res (do_kern end_op s) (\<lambda>s.
         bind_res (ptable_acquire (upd_proc cur (\<lambda>p. p\<lparr>cwd := None\<rparr>) s)) (\<lambda>s.
         let s = wakeup1 (map_option ProcChan (pparent (procs s ! cur))) s;
           s = fold (adopt_step cur) [0..<NPROC] s in
         sched (upd_proc cur (\<lambda>p. p\<lparr>pstate := ZOMBIE\<rparr>) s))))))) s"

datatype wait_out = Waited i32 | WaitSleeps u32

definition reap :: "nat \<Rightarrow> 'a proc_st_scheme \<Rightarrow> (wait_out \<times> 'a proc_st_scheme) res" where
  "reap i s =
     (let pid = ppid (procs s ! i) in
      bind_res (do_mem (kfree (kstack (procs s ! i))) s) (\<lambda>s.
      let s = upd_proc i (\<lambda>p. p\<lparr>kstack := 0\<rparr>) s in
      bind_res (do_mem (freevm (pgdir (procs s ! i))) s) (\<lambda>s.
      let s = upd_proc i (\<lambda>p. p\<lparr>ppid := 0, pparent := None, pname := (pname p)[0 := 0], pkilled := 0, pstate := UNUSED\<rparr>) s in
      bind_res (ptable_release s) (\<lambda>s. Inr (Waited pid, s)))))"

text \<open>One round of the loop of \<open>wait\<close>.\<close>

definition wait_round :: "nat \<Rightarrow> 'a proc_st_scheme \<Rightarrow> (wait_out \<times> 'a proc_st_scheme) res" where
  "wait_round cur s =
     (case List.find (\<lambda>i. pparent (procs s ! i) = Some cur \<and> pstate (procs s ! i) = ZOMBIE) [0..<NPROC] of
        Some i \<Rightarrow> reap i s
      | None \<Rightarrow>
          if (\<forall>i \<in> set [0..<NPROC]. pparent (procs s ! i) \<noteq> Some cur) \<or> pkilled (procs s ! cur) \<noteq> 0
          then bind_res (ptable_release s) (\<lambda>s. Inr (Waited (- 1), s))
          else bind_res (sleep (Some (ProcChan cur)) (Some PtableLock) s) (\<lambda>(saved, s). Inr (WaitSleeps saved, s)))"

definition wait :: "'a proc_st_scheme \<Rightarrow> (wait_out \<times> 'a proc_st_scheme) res" where
  "wait s = with_proc (\<lambda>cur. bind_res (ptable_acquire s) (wait_round cur)) s"

definition wait_in :: "u32 \<Rightarrow> 'a proc_st_scheme \<Rightarrow> (wait_out \<times> 'a proc_st_scheme) res" where
  "wait_in saved s = with_proc (\<lambda>cur. bind_res (sleep_in PtableLock saved s) (wait_round cur)) s"

subsection \<open>The scheduler\<close>

text \<open>\<open>Idle\<close>: the top of the outer loop; \<open>Scan i\<close>: entry \<open>i\<close> is next; \<open>Run i\<close>: process \<open>i\<close> runs.\<close>

datatype sched_pc = Idle | Scan nat | Run nat

definition schedule_event :: "u32 \<Rightarrow> prng_st \<Rightarrow> prng_st res" where
  "schedule_event pool k =
     bind_res (acquire_ticks k) (\<lambda>k.
     bind_res (addRandomEvent SCHEDULING_TIMING (pool mod of_nat MAX_POOLS) (Some (\<lambda>i. bytes_of_u32 (ticks k) ! i)) 4 k)
       release_ticks)"

fun scheduler :: "sched_pc \<Rightarrow> 'a proc_st_scheme \<Rightarrow> (sched_pc \<times> 'a proc_st_scheme) res" where
  "scheduler Idle s =
     bind_res (ptable_acquire (s\<lparr>kern := (kern s)\<lparr>kst := sti (kst (kern s))\<rparr>\<rparr>)) (\<lambda>s. Inr (Scan 0, s))"
| "scheduler (Scan i) s =
     (if NPROC \<le> i then bind_res (ptable_release s) (\<lambda>s. Inr (Idle, s))
      else if pstate (procs s ! i) \<noteq> RUNNABLE then Inr (Scan (i + 1), s)
      else
        (let s = upd_proc i (\<lambda>p. p\<lparr>pstate := RUNNING\<rparr>) (s\<lparr>cproc := Some i\<rparr>) in
         bind_res (do_mem (schedule_event (schedule_timing_pool s)) s) (\<lambda>s.
         Inr (Run i, s\<lparr>schedule_timing_pool := schedule_timing_pool s + 1\<rparr>))))"
| "scheduler (Run i) s = Inr (Scan (i + 1), s\<lparr>cproc := None\<rparr>)"

end
