(* ===== verification/ProcTable.thy ===== *)
theory ProcTable
  imports Proc
begin

text \<open>
  The process table over the runs of the kernel: an invariant of the table that every function of \<open>src/proc.c\<close> keeps, whatever
  the rest of the kernel does in between.
\<close>

section \<open>Frames\<close>

text \<open>\<open>same_table\<close>: nothing of the table changed. \<open>only_entry\<close>: at most one entry changed.\<close>

definition same_table :: "'a proc_st_scheme \<Rightarrow> 'a proc_st_scheme \<Rightarrow> bool" where
  "same_table s t \<longleftrightarrow> procs t = procs s \<and> cproc t = cproc s \<and> initproc t = initproc s \<and> nextpid t = nextpid s"

definition only_entry :: "nat \<Rightarrow> 'a proc_st_scheme \<Rightarrow> 'a proc_st_scheme \<Rightarrow> bool" where
  "only_entry i s t \<longleftrightarrow> length (procs t) = length (procs s) \<and> (\<forall>j. j \<noteq> i \<longrightarrow> procs t ! j = procs s ! j)
     \<and> cproc t = cproc s \<and> initproc t = initproc s"

named_theorems table_frame

lemma same_table_refl [simp]: "same_table s s"
  by (simp add: same_table_def)

lemma same_table_trans [trans]: "same_table s t \<Longrightarrow> same_table t u \<Longrightarrow> same_table s u"
  by (simp add: same_table_def)

lemma only_entry_refl [simp]: "only_entry i s s"
  by (simp add: only_entry_def)

lemma only_entry_trans [trans]: "only_entry i s t \<Longrightarrow> only_entry i t u \<Longrightarrow> only_entry i s u"
  by (simp add: only_entry_def)

lemma same_only: "same_table s t \<Longrightarrow> only_entry i s t"
  by (simp add: same_table_def only_entry_def)

lemma frame_kern [table_frame]:
  "on_kern f s = Inr (r, t) \<Longrightarrow> same_table s t"
  "do_kern g s = Inr t \<Longrightarrow> same_table s t"
  "on_mem f' s = Inr (r', t) \<Longrightarrow> same_table s t"
  "do_mem g' s = Inr t \<Longrightarrow> same_table s t"
  by (auto simp: on_kern_def do_kern_def on_mem_def do_mem_def same_table_def bind_res_def split: sum.splits prod.splits)

lemma frame_lock [table_frame]:
  "ptable_acquire s = Inr t \<Longrightarrow> same_table s t"
  "ptable_release s = Inr t \<Longrightarrow> same_table s t"
  by (auto simp: ptable_acquire_def ptable_release_def same_table_def bind_res_def split: sum.splits prod.splits)

lemma frame_slock [table_frame]:
  "slock_acquire lk s = Inr t \<Longrightarrow> same_table s t"
  "slock_release lk s = Inr t \<Longrightarrow> same_table s t"
  by (cases lk; auto simp: slock_acquire_def slock_release_def bind_res_def same_table_def split: sum.splits
      dest: frame_kern(4) frame_lock)+

lemma frame_mem [simp]: "same_table s (set_mem g s)" "procs (set_mem g s) = procs s"
  by (simp_all add: set_mem_def same_table_def)

lemma frame_sched: "sched s = Inr (v, t) \<Longrightarrow> t = s \<and> (\<exists>i. cproc s = Some i \<and> pstate (procs s ! i) \<noteq> RUNNING)"
  by (auto simp: sched_def with_proc_def split: if_splits option.splits)

lemma frame_sched_in [simp]: "same_table s (sched_in v s)"
  by (simp add: sched_in_def same_table_def)

lemma upd_proc_simps [simp]:
  "cproc (upd_proc i g s) = cproc s" "initproc (upd_proc i g s) = initproc s" "nextpid (upd_proc i g s) = nextpid s"
  "kern (upd_proc i g s) = kern s" "ptable_lock (upd_proc i g s) = ptable_lock s"
  "length (procs (upd_proc i g s)) = length (procs s)"
  by (simp_all add: upd_proc_def)

lemma upd_proc_nth [simp]:
  "procs (upd_proc i g s) ! j = (if j = i \<and> i < length (procs s) then g (procs s ! i) else procs s ! j)"
proof (cases "i < length (procs s)")
  case True
  then show ?thesis by (simp add: upd_proc_def nth_list_update)
next
  case False
  then show ?thesis by (simp add: upd_proc_def list_update_beyond)
qed

lemma upd_proc_only: "only_entry i s (upd_proc i g s)"
  by (simp add: only_entry_def)


section \<open>The invariant of the table\<close>

definition used :: "proc \<Rightarrow> bool" where
  "used p \<longleftrightarrow> pstate p \<noteq> UNUSED"

definition alive :: "proc \<Rightarrow> bool" where
  "alive p \<longleftrightarrow> pstate p \<in> {SLEEPING, RUNNABLE, RUNNING}"

definition entry_ok :: "i32 \<Rightarrow> proc \<Rightarrow> bool" where
  "entry_ok np p \<longleftrightarrow> length (ofile p) = NOFILE \<and> length (pname p) = 16 \<and> pstate p \<noteq> EMBRYO
     \<and> (used p \<longrightarrow> 0 < sint (ppid p) \<and> sint (ppid p) < sint np)"

text \<open>
  The table has 64 well-formed entries, the identifiers of the processes in it are positive and differ, the first process and the parent
  of every process are alive, and only the process that the CPU executes is marked running.
\<close>

definition ptable_wf :: "'a proc_st_scheme \<Rightarrow> bool" where
  "ptable_wf s \<longleftrightarrow> length (procs s) = NPROC \<and> (\<forall>i<NPROC. entry_ok (nextpid s) (procs s ! i))
     \<and> (\<forall>i<NPROC. \<forall>j<NPROC. used (procs s ! i) \<and> used (procs s ! j) \<and> ppid (procs s ! i) = ppid (procs s ! j) \<longrightarrow> i = j)
     \<and> (\<exists>j<NPROC. initproc s = Some j \<and> alive (procs s ! j))
     \<and> (\<forall>i<NPROC. \<forall>j. pparent (procs s ! i) = Some j \<longrightarrow> j < NPROC \<and> alive (procs s ! j))
     \<and> (\<forall>i<NPROC. pstate (procs s ! i) = RUNNING \<longrightarrow> cproc s = Some i)
     \<and> (\<forall>i. cproc s = Some i \<longrightarrow> i < NPROC)"

lemma wf_len: "ptable_wf s \<Longrightarrow> length (procs s) = NPROC"
  unfolding ptable_wf_def by blast

lemma wf_entry: "ptable_wf s \<Longrightarrow> i < NPROC \<Longrightarrow> entry_ok (nextpid s) (procs s ! i)"
  unfolding ptable_wf_def by blast

lemma wf_pid: "ptable_wf s \<Longrightarrow> i < NPROC \<Longrightarrow> j < NPROC \<Longrightarrow> used (procs s ! i) \<Longrightarrow> used (procs s ! j) \<Longrightarrow> ppid (procs s ! i) = ppid (procs s ! j) \<Longrightarrow> i = j"
  unfolding ptable_wf_def by blast

lemma wf_init: "ptable_wf s \<Longrightarrow> \<exists>j<NPROC. initproc s = Some j \<and> alive (procs s ! j)"
  unfolding ptable_wf_def by blast

lemma wf_parent: "ptable_wf s \<Longrightarrow> i < NPROC \<Longrightarrow> pparent (procs s ! i) = Some j \<Longrightarrow> j < NPROC \<and> alive (procs s ! j)"
  unfolding ptable_wf_def by blast

lemma wf_running: "ptable_wf s \<Longrightarrow> i < NPROC \<Longrightarrow> pstate (procs s ! i) = RUNNING \<Longrightarrow> cproc s = Some i"
  unfolding ptable_wf_def by blast

lemma wf_cproc: "ptable_wf s \<Longrightarrow> cproc s = Some i \<Longrightarrow> i < NPROC"
  unfolding ptable_wf_def by blast

lemma alive_used: "alive p \<Longrightarrow> used p"
  by (auto simp: alive_def used_def)

text \<open>An update that keeps identifiers, keeps processes alive, and gives parents that are alive.\<close>

lemma wf_map:
  assumes wf: "ptable_wf s" and same: "cproc t = cproc s" "initproc t = initproc s" "nextpid t = nextpid s" "length (procs t) = NPROC"
    and ids: "\<And>i. i < NPROC \<Longrightarrow> used (procs t ! i) \<Longrightarrow> used (procs s ! i) \<and> ppid (procs t ! i) = ppid (procs s ! i)"
    and sh: "\<And>i. i < NPROC \<Longrightarrow> length (ofile (procs t ! i)) = NOFILE \<and> length (pname (procs t ! i)) = 16 \<and> pstate (procs t ! i) \<noteq> EMBRYO"
    and par: "\<And>i j. i < NPROC \<Longrightarrow> pparent (procs t ! i) = Some j \<Longrightarrow> j < NPROC \<and> alive (procs t ! j)"
    and ini: "\<And>i. i < NPROC \<Longrightarrow> initproc s = Some i \<Longrightarrow> alive (procs s ! i) \<Longrightarrow> alive (procs t ! i)"
    and run: "\<And>i. i < NPROC \<Longrightarrow> pstate (procs t ! i) = RUNNING \<Longrightarrow> cproc s = Some i"
  shows "ptable_wf t"
proof -
  have "entry_ok (nextpid t) (procs t ! i)" if i: "i < NPROC" for i
    using wf_entry [OF wf i] ids [OF i] sh [OF i] by (auto simp: entry_ok_def same)
  moreover have "i = j" if "i < NPROC" "j < NPROC" "used (procs t ! i)" "used (procs t ! j)" "ppid (procs t ! i) = ppid (procs t ! j)" for i j
    using wf_pid [OF wf that(1,2)] ids [OF that(1,3)] ids [OF that(2,4)] that(5) by simp
  moreover have "\<exists>j<NPROC. initproc t = Some j \<and> alive (procs t ! j)"
    using wf_init [OF wf] ini by (auto simp: same)
  moreover have "cproc t = Some i" if "i < NPROC" "pstate (procs t ! i) = RUNNING" for i
    using run [OF that] same(1) by simp
  moreover have "i < NPROC" if "cproc t = Some i" for i
    using wf_cproc [OF wf] that same(1) by simp
  ultimately show ?thesis
    using par same(4) unfolding ptable_wf_def by blast
qed

lemma same_table_wf: "same_table s t \<Longrightarrow> ptable_wf t = ptable_wf s"
  by (simp add: same_table_def ptable_wf_def)

text \<open>An update of one used entry that keeps its identifier and its parent, and keeps it alive.\<close>

lemma upd_wf:
  assumes wf: "ptable_wf s" and i: "i < NPROC"
    and g: "ppid (g (procs s ! i)) = ppid (procs s ! i)" "pparent (g (procs s ! i)) = pparent (procs s ! i)"
      "length (ofile (g (procs s ! i))) = NOFILE" "length (pname (g (procs s ! i))) = 16"
      "pstate (g (procs s ! i)) \<noteq> EMBRYO"
      "used (g (procs s ! i)) = used (procs s ! i)" "alive (procs s ! i) \<Longrightarrow> alive (g (procs s ! i))"
      "pstate (g (procs s ! i)) = RUNNING \<Longrightarrow> cproc s = Some i"
  shows "ptable_wf (upd_proc i g s)"
proof -
  have len: "length (procs s) = NPROC" using wf by (rule wf_len)
  show ?thesis
  proof (rule wf_map [OF wf])
    fix j assume j: "j < NPROC"
    show "length (ofile (procs (upd_proc i g s) ! j)) = NOFILE \<and> length (pname (procs (upd_proc i g s) ! j)) = 16
        \<and> pstate (procs (upd_proc i g s) ! j) \<noteq> EMBRYO"
      using wf_entry [OF wf j] g(3-5) len i by (cases "j = i") (simp_all add: entry_ok_def)
    show "used (procs (upd_proc i g s) ! j) \<Longrightarrow> used (procs s ! j) \<and> ppid (procs (upd_proc i g s) ! j) = ppid (procs s ! j)"
      using g(1,6) len i by (cases "j = i") simp_all
    show "alive (procs s ! j) \<Longrightarrow> alive (procs (upd_proc i g s) ! j)"
      using g(7) len i by (cases "j = i") simp_all
    show "pstate (procs (upd_proc i g s) ! j) = RUNNING \<Longrightarrow> cproc s = Some j"
      using g(8) wf_running [OF wf j] len i by (cases "j = i") simp_all
    fix k assume "pparent (procs (upd_proc i g s) ! j) = Some k"
    then have "pparent (procs s ! j) = Some k" using g(2) len i by (cases "j = i") simp_all
    then show "k < NPROC \<and> alive (procs (upd_proc i g s) ! k)"
      using wf_parent [OF wf j] g(7) len i by (cases "k = i") auto
  qed (simp_all add: len)
qed


section \<open>Waking, sleeping, killing\<close>

lemma wakeup1_simps [simp]:
  "cproc (wakeup1 ch s) = cproc s" "initproc (wakeup1 ch s) = initproc s" "nextpid (wakeup1 ch s) = nextpid s"
  "length (procs (wakeup1 ch s)) = length (procs s)"
  by (simp_all add: wakeup1_def)

lemma wakeup1_nth:
  "i < length (procs s) \<Longrightarrow> procs (wakeup1 ch s) ! i =
     (if pstate (procs s ! i) = SLEEPING \<and> pchan (procs s ! i) = ch then (procs s ! i)\<lparr>pstate := RUNNABLE\<rparr> else procs s ! i)"
  by (simp add: wakeup1_def)

lemma wakeup1_fields:
  assumes "i < length (procs s)"
  shows "ppid (procs (wakeup1 ch s) ! i) = ppid (procs s ! i)" "pparent (procs (wakeup1 ch s) ! i) = pparent (procs s ! i)"
    "ofile (procs (wakeup1 ch s) ! i) = ofile (procs s ! i)" "pname (procs (wakeup1 ch s) ! i) = pname (procs s ! i)"
    "used (procs (wakeup1 ch s) ! i) = used (procs s ! i)" "alive (procs (wakeup1 ch s) ! i) = alive (procs s ! i)"
    "pstate (procs (wakeup1 ch s) ! i) = EMBRYO \<longleftrightarrow> pstate (procs s ! i) = EMBRYO"
    "pstate (procs (wakeup1 ch s) ! i) = RUNNING \<longleftrightarrow> pstate (procs s ! i) = RUNNING"
    "pstate (procs (wakeup1 ch s) ! i) = ZOMBIE \<longleftrightarrow> pstate (procs s ! i) = ZOMBIE"
  using wakeup1_nth [OF assms, of ch] by (auto simp: used_def alive_def)

lemma wakeup1_wf: "ptable_wf s \<Longrightarrow> ptable_wf (wakeup1 ch s)"
proof (rule wf_map, assumption)
  assume wf: "ptable_wf s"
  note len = wf_len [OF wf]
  show "length (procs (wakeup1 ch s)) = NPROC" by (simp add: len)
  fix i assume i: "i < NPROC"
  note f = wakeup1_fields [of i s ch, unfolded len, OF i]
  show "used (procs (wakeup1 ch s) ! i) \<Longrightarrow> used (procs s ! i) \<and> ppid (procs (wakeup1 ch s) ! i) = ppid (procs s ! i)"
    "length (ofile (procs (wakeup1 ch s) ! i)) = NOFILE \<and> length (pname (procs (wakeup1 ch s) ! i)) = 16 \<and> pstate (procs (wakeup1 ch s) ! i) \<noteq> EMBRYO"
    "alive (procs s ! i) \<Longrightarrow> alive (procs (wakeup1 ch s) ! i)"
    using wf_entry [OF wf i] by (simp_all add: f entry_ok_def)
  show "pstate (procs (wakeup1 ch s) ! i) = RUNNING \<Longrightarrow> cproc s = Some i" using wf_running [OF wf i] by (simp add: f)
  fix j assume "pparent (procs (wakeup1 ch s) ! i) = Some j"
  then have j: "j < NPROC" "alive (procs s ! j)" using wf_parent [OF wf i] by (simp_all add: f)
  then show "j < NPROC \<and> alive (procs (wakeup1 ch s) ! j)" using wakeup1_fields(6) [of j s ch] by (simp add: len)
qed simp_all

lemma wakeup_wf: "wakeup ch s = Inr t \<Longrightarrow> ptable_wf s \<Longrightarrow> ptable_wf t"
  by (auto simp: wakeup_def bind_res_eq_Inr dest!: frame_lock same_table_wf intro: wakeup1_wf)

lemma kill_wf:
  assumes "kill pid s = Inr (r, t)" and wf: "ptable_wf s"
  shows "ptable_wf t"
proof -
  obtain a where a: "ptable_acquire s = Inr a" using assms(1) by (auto simp: kill_def bind_res_eq_Inr)
  have wa: "ptable_wf a" using same_table_wf [OF frame_lock(1) [OF a]] wf by simp
  show ?thesis
  proof (cases "List.find (\<lambda>i. ppid (procs a ! i) = pid) [0..<NPROC]")
    case None
    then show ?thesis using assms(1) a wa by (auto simp: kill_def bind_res_eq_Inr dest!: frame_lock(2) same_table_wf)
  next
    case (Some i)
    then have i: "i < NPROC" by (auto simp: find_Some_iff)
    let ?g = "\<lambda>p. p\<lparr>pkilled := 1, pstate := (if pstate p = SLEEPING then RUNNABLE else pstate p)\<rparr>"
    have "ptable_wf (upd_proc i ?g a)"
      using wf_entry [OF wa i] wf_running [OF wa i] by (intro upd_wf [OF wa i]) (auto simp: entry_ok_def used_def alive_def split: if_splits)
    then show ?thesis using assms(1) a Some by (auto simp: kill_def bind_res_eq_Inr dest!: frame_lock(2) same_table_wf)
  qed
qed

text \<open>The executing process.\<close>

definition running :: "nat \<Rightarrow> 'a proc_st_scheme \<Rightarrow> bool" where
  "running i s \<longleftrightarrow> cproc s = Some i \<and> pstate (procs s ! i) = RUNNING"

lemma running_same: "same_table s t \<Longrightarrow> running i t = running i s"
  by (simp add: running_def same_table_def)

lemma running_upd:
  assumes wf: "ptable_wf s" and r: "running i s"
    and g: "\<And>p. ppid (g p) = ppid p \<and> pparent (g p) = pparent p \<and> length (ofile (g p)) = length (ofile p) \<and> length (pname (g p)) = length (pname p) \<and> alive (g p)"
  shows "ptable_wf (upd_proc i g s)"
proof -
  have i: "i < NPROC" using wf_cproc [OF wf] r by (simp add: running_def)
  have "alive (procs s ! i)" using r by (simp add: running_def alive_def)
  moreover have "pstate (g (procs s ! i)) \<noteq> EMBRYO" using g [of "procs s ! i"] by (auto simp: alive_def)
  ultimately show ?thesis
    using g [of "procs s ! i"] wf_entry [OF wf i] r by (intro upd_wf [OF wf i]) (auto simp: entry_ok_def running_def dest: alive_used)
qed

lemma yield_wf:
  assumes "yield s = Inr (v, t)" and wf: "ptable_wf s" and r: "running i s"
  shows "ptable_wf t"
proof -
  obtain a where a: "ptable_acquire s = Inr a" and t: "sched (upd_proc i (\<lambda>p. p\<lparr>pstate := RUNNABLE\<rparr>) a) = Inr (v, t)"
    using assms(1) r by (auto simp: yield_def with_proc_def running_def bind_res_eq_Inr)
  have "ptable_wf a" "running i a"
    using same_table_wf [OF frame_lock(1) [OF a]] running_same [OF frame_lock(1) [OF a]] wf r by simp_all
  then have "ptable_wf (upd_proc i (\<lambda>p. p\<lparr>pstate := RUNNABLE\<rparr>) a)" by (rule running_upd) (simp add: alive_def)
  then show ?thesis using frame_sched [OF t] by simp
qed

lemma sleep_wf:
  assumes "sleep ch lk s = Inr (v, t)" and wf: "ptable_wf s" and r: "running i s"
  shows "ptable_wf t"
proof -
  obtain k a where a: "lk = Some k" "(if k \<noteq> PtableLock then bind_res (ptable_acquire s) (slock_release k) else Inr s) = Inr a"
    and t: "sched (upd_proc i (\<lambda>p. p\<lparr>pchan := ch, pstate := SLEEPING\<rparr>) a) = Inr (v, t)"
    using assms(1) r by (auto simp: sleep_def running_def bind_res_eq_Inr split: option.splits)
  have "same_table s a"
    using a(2) by (auto simp: bind_res_eq_Inr split: if_splits dest!: frame_lock(1) frame_slock(2) intro: same_table_trans)
  then have "ptable_wf a" "running i a" using same_table_wf [of s a] running_same [of s a] wf r by simp_all
  then have "ptable_wf (upd_proc i (\<lambda>p. p\<lparr>pchan := ch, pstate := SLEEPING\<rparr>) a)" by (rule running_upd) (simp add: alive_def)
  then show ?thesis using frame_sched [OF t] by simp
qed

text \<open>The table is well formed and process \<open>i\<close> executes.\<close>

definition cur_ok :: "nat \<Rightarrow> nat option \<Rightarrow> 'a proc_st_scheme \<Rightarrow> bool" where
  "cur_ok i ini s \<longleftrightarrow> ptable_wf s \<and> running i s \<and> initproc s = ini"

lemma cur_same: "same_table s t \<Longrightarrow> cur_ok i ini s \<Longrightarrow> cur_ok i ini t"
  using same_table_wf [of s t] running_same [of s t i] by (auto simp: cur_ok_def same_table_def)

lemma cur_index: "cur_ok i ini s \<Longrightarrow> i < NPROC \<and> length (procs s) = NPROC"
  unfolding cur_ok_def running_def using wf_cproc wf_len by blast

text \<open>A change to the executing process that keeps its state, identifier and parent.\<close>

lemma cur_own:
  assumes c: "cur_ok i ini s"
    and g: "\<And>p. ppid (g p) = ppid p \<and> pparent (g p) = pparent p \<and> pstate (g p) = pstate p" "\<And>p. length (ofile (g p)) = length (ofile p)"
      "\<And>p. length (pname p) = 16 \<Longrightarrow> length (pname (g p)) = 16"
  shows "cur_ok i ini (upd_proc i g s)"
proof -
  have wf: "ptable_wf s" and r: "running i s" and i: "i < NPROC" using c cur_index [OF c] by (simp_all add: cur_ok_def)
  have "ptable_wf (upd_proc i g s)"
    using wf_entry [OF wf i] wf_running [OF wf i] g [of "procs s ! i"]
    by (intro upd_wf [OF wf i]) (simp_all add: entry_ok_def used_def alive_def)
  then show ?thesis using c g(1) [of "procs s ! i"] by (auto simp: cur_ok_def running_def)
qed

lemma sleep_in_ok:
  assumes "sleep_in lk v s = Inr t" and c: "cur_ok i ini s"
  shows "cur_ok i ini t"
proof (rule cur_same)
  show "cur_ok i ini (upd_proc i (\<lambda>p. p\<lparr>pchan := None\<rparr>) (sched_in v s))"
    by (rule cur_own [OF cur_same [OF frame_sched_in c]]) simp_all
  show "same_table (upd_proc i (\<lambda>p. p\<lparr>pchan := None\<rparr>) (sched_in v s)) t"
    using assms by (auto simp: sleep_in_def with_proc_def cur_ok_def running_def Let_def bind_res_eq_Inr split: if_splits
        dest!: frame_lock(2) frame_slock(1) intro: same_table_trans)
qed

lemma yield_in_ok: "yield_in v s = Inr t \<Longrightarrow> cur_ok i ini s \<Longrightarrow> cur_ok i ini t"
  unfolding yield_in_def by (rule cur_same [OF same_table_trans [OF frame_sched_in frame_lock(2)]])

lemma forkret_ok:
  assumes "forkret s = Inr t" and "cur_ok i ini s"
  shows "cur_ok i ini t"
proof (rule cur_same [OF _ assms(2)])
  obtain a where a: "ptable_release s = Inr a" using assms(1) by (auto simp: forkret_def bind_res_eq_Inr)
  have f: "same_table a (a\<lparr>forkret_first := False\<rparr>)" by (simp add: same_table_def)
  have "same_table a t"
    using assms(1) a by (auto simp: forkret_def bind_res_eq_Inr Let_def split: if_splits dest!: frame_kern(2)
        intro: same_table_trans [OF f] same_table_trans)
  then show "same_table s t" by (rule same_table_trans [OF frame_lock(2) [OF a]])
qed

lemma growproc_ok:
  assumes "growproc n s = Inr (r, t)" and c: "cur_ok i ini s"
  shows "cur_ok i ini t"
proof -
  let ?p = "procs s ! i"
  have cp: "cproc s = Some i" using c by (simp add: cur_ok_def running_def)
  obtain sz a where m: "(if sint n > 0 then on_mem (allocuvm (pgdir ?p) (psz ?p) (psz ?p + n)) s
        else if sint n < 0 then on_mem (deallocuvm (pgdir ?p) (psz ?p) (psz ?p + n)) s else Inr (psz ?p, s)) = Inr (sz, a)"
      (is "?m = _") and t: "t = a \<or> t = upd_proc i (\<lambda>p. p\<lparr>psz := sz\<rparr>) a"
    using assms(1) cp unfolding growproc_def with_proc_def Let_def
    by (auto simp: bind_res_eq_Inr simp del: if_split split: if_split_asm)
  have "same_table s a" using m by (auto split: if_splits dest!: frame_kern(3))
  then have a: "cur_ok i ini a" using c by (rule cur_same)
  then have "cur_ok i ini (upd_proc i (\<lambda>p. p\<lparr>psz := sz\<rparr>) a)" by (rule cur_own) simp_all
  then show ?thesis using t a by blast
qed


section \<open>The end of a process\<close>

lemma exit_file_ok:
  assumes "exit_file cur fd s = Inr t" and c: "cur_ok cur ini s"
  shows "cur_ok cur ini t"
proof (cases "ofile (procs s ! cur) ! fd")
  case None
  then show ?thesis using assms by (simp add: exit_file_def)
next
  case (Some f)
  then obtain a where a: "do_kern (fileclose f) s = Inr a" "t = upd_proc cur (\<lambda>p. p\<lparr>ofile := (ofile p)[fd := None]\<rparr>) a"
    using assms(1) by (auto simp: exit_file_def bind_res_eq_Inr)
  show ?thesis unfolding a(2) by (rule cur_own [OF cur_same [OF frame_kern(2) [OF a(1)] c]]) simp_all
qed

text \<open>The loop that gives the children away leaves no child, and changes only parents and sleepers.\<close>

definition adopted :: "nat \<Rightarrow> nat \<Rightarrow> 'a proc_st_scheme \<Rightarrow> bool" where
  "adopted cur k s \<longleftrightarrow> ptable_wf s \<and> running cur s \<and> (\<forall>i<k. pparent (procs s ! i) \<noteq> Some cur)"

lemma adopt_step_ok:
  assumes a: "adopted cur k s" and k: "k < NPROC" and ne: "initproc s \<noteq> Some cur"
  shows "adopted cur (Suc k) (adopt_step cur k s)" "initproc (adopt_step cur k s) = initproc s"
proof -
  have wf: "ptable_wf s" and r: "running cur s" and o: "\<And>i. i < k \<Longrightarrow> pparent (procs s ! i) \<noteq> Some cur"
    using a by (auto simp: adopted_def)
  note len = wf_len [OF wf]
  define b where "b = upd_proc k (\<lambda>p. p\<lparr>pparent := initproc s\<rparr>) s"
  have b: "adopted cur (Suc k) b"
  proof -
    obtain j where j: "j < NPROC" "initproc s = Some j" "alive (procs s ! j)" using wf_init [OF wf] by blast
    have al: "alive (procs b ! x) = alive (procs s ! x)" for x by (simp add: b_def alive_def)
    have "ptable_wf b"
    proof (rule wf_map [OF wf])
      fix x y assume x: "x < NPROC" and "pparent (procs b ! x) = Some y"
      then show "y < NPROC \<and> alive (procs b ! y)"
        using wf_parent [OF wf x] j unfolding al by (cases "x = k") (auto simp: b_def len)
    next
      fix x assume x: "x < NPROC"
      show "length (ofile (procs b ! x)) = NOFILE \<and> length (pname (procs b ! x)) = 16 \<and> pstate (procs b ! x) \<noteq> EMBRYO"
        "used (procs b ! x) \<Longrightarrow> used (procs s ! x) \<and> ppid (procs b ! x) = ppid (procs s ! x)"
        "pstate (procs b ! x) = RUNNING \<Longrightarrow> cproc s = Some x"
        using wf_entry [OF wf x] wf_running [OF wf x] by (auto simp: b_def entry_ok_def used_def split: if_splits)
    qed (simp_all add: al, simp_all add: b_def len)
    moreover have "pparent (procs b ! i) \<noteq> Some cur" if "i < Suc k" for i
      using that o [of i] ne k len by (auto simp: b_def less_Suc_eq)
    moreover have "running cur b" using r by (auto simp: b_def running_def)
    ultimately show ?thesis by (simp add: adopted_def)
  qed
  have w: "adopted cur (Suc k) (wakeup1 ch b)" for ch
  proof -
    have wb: "ptable_wf b" "running cur b" using b by (simp_all add: adopted_def)
    have "running cur (wakeup1 ch b)"
      using wb wakeup1_fields(8) [of cur b ch] wf_cproc [OF wb(1)] wf_len [OF wb(1)] by (simp add: running_def)
    moreover have "pparent (procs (wakeup1 ch b) ! i) \<noteq> Some cur" if "i < Suc k" for i
      using b that k wakeup1_fields(2) [of i b ch] wf_len [OF wb(1)] by (simp add: adopted_def)
    ultimately show ?thesis using wakeup1_wf [OF wb(1)] by (simp add: adopted_def)
  qed
  have "adopted cur (Suc k) s" if "pparent (procs s ! k) \<noteq> Some cur"
    using a that by (auto simp: adopted_def less_Suc_eq)
  then show "adopted cur (Suc k) (adopt_step cur k s)" "initproc (adopt_step cur k s) = initproc s"
    using b w by (auto simp: adopt_step_def Let_def b_def)
qed

lemma adopt_all:
  assumes "ptable_wf s" "running cur s" "initproc s \<noteq> Some cur" "k \<le> NPROC"
  shows "adopted cur k (fold (adopt_step cur) [0..<k] s) \<and> initproc (fold (adopt_step cur) [0..<k] s) = initproc s"
  using assms(4)
proof (induction k)
  case 0
  then show ?case using assms by (simp add: adopted_def)
next
  case (Suc k)
  then show ?case using adopt_step_ok [of cur k "fold (adopt_step cur) [0..<k] s"] assms(3) by simp
qed

lemma zombie_wf:
  assumes a: "adopted cur NPROC s" and ne: "initproc s \<noteq> Some cur"
  shows "ptable_wf (upd_proc cur (\<lambda>p. p\<lparr>pstate := ZOMBIE\<rparr>) s)" (is "ptable_wf ?t")
proof -
  have wf: "ptable_wf s" and r: "running cur s" and o: "\<And>i. i < NPROC \<Longrightarrow> pparent (procs s ! i) \<noteq> Some cur"
    using a by (auto simp: adopted_def)
  have cur: "cur < NPROC" "length (procs s) = NPROC" using wf_cproc [OF wf] wf_len [OF wf] r by (simp_all add: running_def)
  show ?thesis
  proof (rule wf_map [OF wf])
    fix i assume i: "i < NPROC"
    show "used (procs ?t ! i) \<Longrightarrow> used (procs s ! i) \<and> ppid (procs ?t ! i) = ppid (procs s ! i)"
      using r by (auto simp: used_def running_def)
    show "length (ofile (procs ?t ! i)) = NOFILE \<and> length (pname (procs ?t ! i)) = 16 \<and> pstate (procs ?t ! i) \<noteq> EMBRYO"
      using wf_entry [OF wf i] by (auto simp: entry_ok_def)
    show "pstate (procs ?t ! i) = RUNNING \<Longrightarrow> cproc s = Some i" using wf_running [OF wf i] cur by (auto split: if_splits)
    show "initproc s = Some i \<Longrightarrow> alive (procs s ! i) \<Longrightarrow> alive (procs ?t ! i)" using ne by auto
    fix j assume "pparent (procs ?t ! i) = Some j"
    then have "pparent (procs s ! i) = Some j" by (auto split: if_splits)
    then show "j < NPROC \<and> alive (procs ?t ! j)" using wf_parent [OF wf i] o [OF i] by auto
  qed (simp_all add: cur)
qed

lemma exit_wf:
  assumes "exit s = Inr (v, t)" and c: "cur_ok cur ini s"
  shows "ptable_wf t"
proof -
  have cp: "cproc s = Some cur" "initproc s = ini" using c by (simp_all add: cur_ok_def running_def)
  have ne: "ini \<noteq> Some cur" using assms(1) cp by (auto simp: exit_def with_proc_def)
  obtain a ip b c' d e where a: "for_res [0..<NOFILE] (exit_file cur) s = Inr a" "do_kern begin_op a = Inr b" "do_kern (iput ip) b = Inr c'"
      "do_kern end_op c' = Inr d" "ptable_acquire (upd_proc cur (\<lambda>p. p\<lparr>cwd := None\<rparr>) d) = Inr e"
    and t: "sched (upd_proc cur (\<lambda>p. p\<lparr>pstate := ZOMBIE\<rparr>)
        (fold (adopt_step cur) [0..<NPROC] (wakeup1 (map_option ProcChan (pparent (procs e ! cur))) e))) = Inr (v, t)"
    using assms(1) cp by (auto simp: exit_def with_proc_def bind_res_eq_Inr Let_def split: if_splits option.splits)
  have "cur_ok cur ini a" by (rule for_res_invariant [OF a(1)]) (use c exit_file_ok in blast)+
  then have "cur_ok cur ini d"
    by (rule cur_same [OF frame_kern(2) [OF a(4)] cur_same [OF frame_kern(2) [OF a(3)] cur_same [OF frame_kern(2) [OF a(2)]]]])
  then have "cur_ok cur ini (upd_proc cur (\<lambda>p. p\<lparr>cwd := None\<rparr>) d)" by (rule cur_own) simp_all
  then have e: "cur_ok cur ini e" by (rule cur_same [OF frame_lock(1) [OF a(5)]])
  define w where "w = wakeup1 (map_option ProcChan (pparent (procs e ! cur))) e"
  have "ptable_wf w" "running cur w" "initproc w = ini"
    using e cur_index [OF e] wakeup1_wf [of e] wakeup1_fields(8) [of cur e] by (simp_all add: w_def cur_ok_def running_def)
  then have "adopted cur NPROC (fold (adopt_step cur) [0..<NPROC] w)" "initproc (fold (adopt_step cur) [0..<NPROC] w) \<noteq> Some cur"
    using adopt_all [of w cur NPROC] ne by simp_all
  then show ?thesis using zombie_wf frame_sched [OF t] by (simp add: w_def)
qed

lemma reap_wf:
  assumes "reap i s = Inr (r, t)" and wf: "ptable_wf s" and i: "i < NPROC" and z: "pstate (procs s ! i) = ZOMBIE"
  shows "ptable_wf t"
proof -
  let ?g = "\<lambda>p. p\<lparr>ppid := 0, pparent := None, pname := (pname p)[0 := 0], pkilled := 0, pstate := UNUSED\<rparr>"
  obtain a b where a: "do_mem (kfree (kstack (procs s ! i))) s = Inr a"
      "do_mem (freevm (pgdir (procs (upd_proc i (\<lambda>p. p\<lparr>kstack := 0\<rparr>) a) ! i))) (upd_proc i (\<lambda>p. p\<lparr>kstack := 0\<rparr>) a) = Inr b"
      "ptable_release (upd_proc i ?g b) = Inr t"
    using assms(1) by (auto simp: reap_def bind_res_eq_Inr Let_def)
  have wa: "ptable_wf a" "procs a = procs s" using same_table_wf [OF frame_kern(4) [OF a(1)]] frame_kern(4) [OF a(1)] wf by (simp_all add: same_table_def)
  have "ptable_wf (upd_proc i (\<lambda>p. p\<lparr>kstack := 0\<rparr>) a)"
    using wf_entry [OF wa(1) i] z wa(2) by (intro upd_wf [OF wa(1) i]) (simp_all add: entry_ok_def used_def alive_def)
  then have wb: "ptable_wf b" using same_table_wf [OF frame_kern(4) [OF a(2)]] by simp
  have zb: "\<not> alive (procs b ! i)" "pstate (procs b ! i) = ZOMBIE"
    using frame_kern(4) [OF a(2)] z wf_len [OF wf] i by (simp_all add: same_table_def wa(2) alive_def)
  have "ptable_wf (upd_proc i ?g b)"
  proof (rule wf_map [OF wb])
    fix j assume j: "j < NPROC"
    show "used (procs (upd_proc i ?g b) ! j) \<Longrightarrow> used (procs b ! j) \<and> ppid (procs (upd_proc i ?g b) ! j) = ppid (procs b ! j)"
      "length (ofile (procs (upd_proc i ?g b) ! j)) = NOFILE \<and> length (pname (procs (upd_proc i ?g b) ! j)) = 16 \<and> pstate (procs (upd_proc i ?g b) ! j) \<noteq> EMBRYO"
      "alive (procs b ! j) \<Longrightarrow> alive (procs (upd_proc i ?g b) ! j)"
      "pstate (procs (upd_proc i ?g b) ! j) = RUNNING \<Longrightarrow> cproc b = Some j"
      using wf_entry [OF wb j] wf_running [OF wb j] zb wf_len [OF wb] i by (cases "j = i"; simp add: entry_ok_def used_def)+
    fix k assume "pparent (procs (upd_proc i ?g b) ! j) = Some k"
    then show "k < NPROC \<and> alive (procs (upd_proc i ?g b) ! k)"
      using wf_parent [OF wb j] zb wf_len [OF wb] i by (cases "j = i") auto
  qed (simp_all add: wf_len [OF wb])
  then show ?thesis using same_table_wf [OF frame_lock(2) [OF a(3)]] by simp
qed

lemma wait_round_wf:
  assumes "wait_round cur s = Inr (r, t)" and c: "cur_ok cur ini s"
  shows "ptable_wf t"
proof (cases "List.find (\<lambda>i. pparent (procs s ! i) = Some cur \<and> pstate (procs s ! i) = ZOMBIE) [0..<NPROC]")
  case None
  have "\<exists>v. ptable_release s = Inr t \<or> sleep (Some (ProcChan cur)) (Some PtableLock) s = Inr (v, t)"
    using assms(1) None unfolding wait_round_def by (auto simp: bind_res_eq_Inr split: if_splits)
  then show ?thesis using c sleep_wf [of "Some (ProcChan cur)" "Some PtableLock" s _ t cur] same_table_wf [OF frame_lock(2) [of s t]]
    by (auto simp: cur_ok_def)
next
  case (Some i)
  then have "i < NPROC" "pstate (procs s ! i) = ZOMBIE" by (auto simp: find_Some_iff)
  then show ?thesis using assms Some reap_wf [of i s r t] by (simp add: wait_round_def cur_ok_def)
qed

lemma wait_wf: "wait s = Inr (r, t) \<Longrightarrow> cur_ok cur ini s \<Longrightarrow> ptable_wf t"
  using wait_round_wf cur_same [OF frame_lock(1)] by (fastforce simp: wait_def with_proc_def cur_ok_def running_def bind_res_eq_Inr)

lemma wait_in_wf: "wait_in v s = Inr (r, t) \<Longrightarrow> cur_ok cur ini s \<Longrightarrow> ptable_wf t"
  using wait_round_wf sleep_in_ok by (fastforce simp: wait_in_def with_proc_def cur_ok_def running_def bind_res_eq_Inr)


section \<open>New processes\<close>

text \<open>Entry \<open>np\<close>, unused before, has been given the next identifier and the parent \<open>par\<close>.\<close>

definition newborn :: "nat \<Rightarrow> nat option \<Rightarrow> 'a proc_st_scheme \<Rightarrow> 'a proc_st_scheme \<Rightarrow> bool" where
  "newborn np par s t \<longleftrightarrow> np < NPROC \<and> length (procs s) = NPROC \<and> \<not> used (procs s ! np) \<and> only_entry np s t \<and> nextpid t = nextpid s + 1
     \<and> ppid (procs t ! np) = nextpid s \<and> pparent (procs t ! np) = par
     \<and> length (ofile (procs t ! np)) = length (ofile (procs s ! np)) \<and> length (pname (procs t ! np)) = length (pname (procs s ! np))"

lemma newborn_same: "same_table t u \<Longrightarrow> newborn np par s t \<Longrightarrow> newborn np par s u"
  by (simp add: newborn_def same_table_def only_entry_def)

lemma newborn_upd:
  assumes "newborn np par s t"
    and "\<And>p. ppid (g p) = ppid p \<and> length (ofile (g p)) = length (ofile p)" "pparent (g (procs t ! np)) = par'"
    and "length (pname (g (procs t ! np))) = length (pname (procs t ! np))"
  shows "newborn np par' s (upd_proc np g t)"
  using assms by (simp add: newborn_def only_entry_def)

lemma newborn_wf:
  assumes wf: "ptable_wf s" and n: "newborn np par s t" and st: "pstate (procs t ! np) \<in> {UNUSED, RUNNABLE}"
    and par: "\<And>j. par = Some j \<Longrightarrow> j < NPROC \<and> alive (procs s ! j)" and pid: "sint (nextpid s) < 2 ^ 31 - 1"
  shows "ptable_wf t"
proof -
  have np: "np < NPROC" "\<not> used (procs s ! np)" "ppid (procs t ! np) = nextpid s" "pparent (procs t ! np) = par" "nextpid t = nextpid s + 1"
    and o: "\<And>j. j \<noteq> np \<Longrightarrow> procs t ! j = procs s ! j" and eq: "cproc t = cproc s" "initproc t = initproc s" "length (procs t) = NPROC"
    and lens: "length (ofile (procs t ! np)) = NOFILE" "length (pname (procs t ! np)) = 16"
    using n wf_entry [OF wf, of np] by (auto simp: newborn_def only_entry_def entry_ok_def)
  obtain k where k: "k < NPROC" "initproc s = Some k" "alive (procs s ! k)" using wf_init [OF wf] by blast
  have pos: "0 < sint (nextpid s)" using wf_entry [OF wf k(1)] alive_used [OF k(3)] by (simp add: entry_ok_def)
  have suc: "sint (nextpid t) = sint (nextpid s) + 1" unfolding np(5) by (rule sint_succ [OF pid])
  have al: "alive (procs t ! j)" if "alive (procs s ! j)" for j
    using that np(2) o [of j] alive_used by (cases "j = np") auto
  have "entry_ok (nextpid t) (procs t ! j)" if j: "j < NPROC" for j
    using wf_entry [OF wf j] st lens pos o [of j] np(3) by (cases "j = np") (auto simp: entry_ok_def suc)
  moreover have "i = j" if ij: "i < NPROC" "j < NPROC" "used (procs t ! i)" "used (procs t ! j)" "ppid (procs t ! i) = ppid (procs t ! j)" for i j
  proof -
    have new: "sint (ppid (procs t ! x)) < sint (nextpid s)" if "x < NPROC" "x \<noteq> np" "used (procs t ! x)" for x
      using wf_entry [OF wf that(1)] that(3) o [OF that(2)] by (simp add: entry_ok_def)
    show ?thesis
      using new [of i] new [of j] ij np(3) wf_pid [OF wf ij(1,2)] o [of i] o [of j] by (cases "i = np"; cases "j = np") auto
  qed
  moreover have "k < NPROC \<and> alive (procs t ! k)" if "i < NPROC" "pparent (procs t ! i) = Some k" for i k
    using that par [of k] wf_parent [OF wf that(1)] o [of i] np(4) al [of k] by (cases "i = np") auto
  moreover have "cproc t = Some i" if "i < NPROC" "pstate (procs t ! i) = RUNNING" for i
    using that wf_running [OF wf that(1)] o [of i] st eq(1) by (cases "i = np") auto
  moreover have "\<exists>j<NPROC. initproc t = Some j \<and> alive (procs t ! j)" using k al eq(2) by auto
  moreover have "i < NPROC" if "cproc t = Some i" for i using wf_cproc [OF wf] that eq(1) by simp
  ultimately show ?thesis using eq(3) unfolding ptable_wf_def by blast
qed

lemma allocproc_newborn:
  assumes "allocproc tr fr s = Inr (r, t)" and len: "length (procs s) = NPROC"
  shows "r = None \<and> same_table s t
    \<or> (\<exists>np. newborn np (pparent (procs s ! np)) s t
         \<and> (r = None \<and> pstate (procs t ! np) = UNUSED \<or> r = Some np \<and> pstate (procs t ! np) = EMBRYO))"
proof (cases "List.find (\<lambda>i. pstate (procs s ! i) = UNUSED) [0..<NPROC]")
  case None
  then show ?thesis using assms(1) by (simp add: allocproc_def)
next
  case (Some i)
  then have i: "i < NPROC" "pstate (procs s ! i) = UNUSED" by (auto simp: find_Some_iff)
  define a where "a = (upd_proc i (\<lambda>p. p\<lparr>pstate := EMBRYO, ppid := nextpid s\<rparr>) s)\<lparr>nextpid := nextpid s + 1\<rparr>"
  define b where "b = a\<lparr>kern := (kern a)\<lparr>sels := (sels (kern a))\<lparr>sel_locks := (sel_locks (sels (kern a)))[i := False]\<rparr>\<rparr>\<rparr>"
  have nb: "newborn i (pparent (procs s ! i)) s b" and sb: "pstate (procs b ! i) = EMBRYO"
    using i len by (simp_all add: newborn_def only_entry_def a_def b_def used_def)
  obtain k c where c: "on_mem kalloc b = Inr (k, c)"
    using assms(1) Some by (auto simp: allocproc_def Let_def bind_res_eq_Inr a_def b_def)
  define d where "d = upd_proc i (\<lambda>p. p\<lparr>kstack := k\<rparr>) c"
  have nd: "newborn i (pparent (procs s ! i)) s d" "length (procs d) = NPROC" "pstate (procs d ! i) = EMBRYO"
    using newborn_upd [OF newborn_same [OF frame_kern(3) [OF c] nb], of "\<lambda>p. p\<lparr>kstack := k\<rparr>"] nb frame_kern(3) [OF c] sb
    by (auto simp: d_def newborn_def only_entry_def same_table_def)
  show ?thesis
  proof (cases "k = 0")
    case True
    then have t: "r = None" "t = upd_proc i (\<lambda>p. p\<lparr>pstate := UNUSED\<rparr>) d"
      using assms(1) Some c by (auto simp: allocproc_def Let_def a_def b_def d_def)
    have "newborn i (pparent (procs s ! i)) s t" unfolding t(2) using nd by (intro newborn_upd [OF nd(1)]) (auto simp: newborn_def)
    moreover have "pstate (procs t ! i) = UNUSED" using nd(2) i by (simp add: t(2))
    ultimately show ?thesis using t(1) by blast
  next
    case False
    then obtain g1 g2 x y where t: "r = Some i" "t = set_mem g2 (upd_proc i (\<lambda>p. p\<lparr>pcontext := y\<rparr>) (set_mem g1 (upd_proc i (\<lambda>p. p\<lparr>ptf := x\<rparr>) d)))"
      using assms(1) Some c by (auto simp: allocproc_def Let_def a_def b_def d_def)
    have 1: "newborn i (pparent (procs s ! i)) s (upd_proc i (\<lambda>p. p\<lparr>ptf := x\<rparr>) d)" (is "newborn _ _ _ ?u")
      using nd by (intro newborn_upd [OF nd(1)]) (auto simp: newborn_def)
    have 2: "newborn i (pparent (procs s ! i)) s (upd_proc i (\<lambda>p. p\<lparr>pcontext := y\<rparr>) (set_mem g1 ?u))"
      using newborn_same [OF frame_mem(1) 1] by (rule newborn_upd) (use nd in \<open>auto simp: newborn_def\<close>)
    have "newborn i (pparent (procs s ! i)) s t" unfolding t(2) by (rule newborn_same [OF frame_mem(1) 2])
    moreover have "pstate (procs t ! i) = EMBRYO" using nd(2,3) by (simp add: t(2))
    ultimately show ?thesis using t(1) by blast
  qed
qed

lemma fork_file_newborn:
  assumes "fork_file cur np fd t = Inr u" and n: "newborn np par s t"
  shows "newborn np par s u"
proof (cases "ofile (procs t ! cur) ! fd")
  case None
  then show ?thesis using assms by (simp add: fork_file_def)
next
  case (Some f)
  then obtain g a where a: "on_kern (filedup f) t = Inr (g, a)" "u = upd_proc np (\<lambda>p. p\<lparr>ofile := (ofile p)[fd := Some g]\<rparr>) a"
    using assms(1) by (auto simp: fork_file_def bind_res_eq_Inr)
  have b: "newborn np par s a" by (rule newborn_same [OF frame_kern(1) [OF a(1)] n])
  show ?thesis unfolding a(2) by (rule newborn_upd [OF b]) (use b in \<open>auto simp: newborn_def\<close>)
qed

lemma length_set_name: "old \<noteq> [] \<Longrightarrow> length (set_name old new) = length old"
proof -
  assume "old \<noteq> []"
  have "length (takeWhile (\<lambda>c. c \<noteq> 0) (take (length old - 1) new)) \<le> length old - 1"
    using length_takeWhile_le [of "\<lambda>c. c \<noteq> 0" "take (length old - 1) new"] by simp
  then show ?thesis using \<open>old \<noteq> []\<close> by (cases old) (auto simp: set_name_def Let_def)
qed

lemma newborn_index: "newborn np par s t \<Longrightarrow> np < NPROC \<and> length (procs s) = NPROC \<and> length (procs t) = NPROC"
  by (simp add: newborn_def only_entry_def)

lemma newborn_keep:
  assumes n: "newborn np par s t"
    and g: "\<And>p. ppid (g p) = ppid p \<and> pparent (g p) = pparent p \<and> ofile (g p) = ofile p \<and> pname (g p) = pname p"
  shows "newborn np par s (upd_proc np g t)"
  using n by (rule newborn_upd) (use n g in \<open>auto simp: newborn_def\<close>)

lemma fork_fails_newborn:
  assumes "fork_fails np b = Inr (r, t)" and n: "newborn np par s b"
  shows "newborn np par s t \<and> pstate (procs t ! np) = UNUSED"
proof -
  obtain y where y: "do_mem (kfree (kstack (procs b ! np))) b = Inr y"
    and t: "ptable_release (upd_proc np (\<lambda>p. p\<lparr>kstack := 0, pstate := UNUSED\<rparr>) y) = Inr t"
    using assms(1) by (auto simp: fork_fails_def bind_res_eq_Inr)
  have ny: "newborn np par s y" by (rule newborn_same [OF frame_kern(4) [OF y] n])
  then have "newborn np par s (upd_proc np (\<lambda>p. p\<lparr>kstack := 0, pstate := UNUSED\<rparr>) y)" by (rule newborn_keep) simp
  then show ?thesis using newborn_same [OF frame_lock(2) [OF t]] frame_lock(2) [OF t] newborn_index [OF ny] by (simp add: same_table_def)
qed

lemma fork_child_newborn:
  assumes "fork_child cur np b = Inr (r, t)" and n: "newborn np par s b" and nm: "length (pname (procs s ! np)) = 16"
  shows "newborn np (Some cur) s t \<and> pstate (procs t ! np) = RUNNABLE \<and> r = nextpid s"
proof -
  define x where "x = upd_proc np (\<lambda>p. p\<lparr>psz := psz (procs b ! cur), pparent := Some cur\<rparr>) b"
  let ?g = "\<lambda>p. p\<lparr>pstate := RUNNABLE\<rparr>"
    and ?hh = "\<lambda>g f. upd_proc np (\<lambda>p. p\<lparr>cwd := Some g, pname := set_name (pname p) (pname (procs f ! cur))\<rparr>) f"
  obtain g1 g2 ip g e f where e: "for_res [0..<NOFILE] (fork_file cur np) (set_mem g2 (set_mem g1 x)) = Inr e"
    and f: "on_kern (idup ip) e = Inr (g, f)"
    and t: "ptable_release (upd_proc np ?g (?hh g f)) = Inr t" and r: "r = ppid (procs (?hh g f) ! np)"
    using assms(1) unfolding fork_child_def Let_def by (auto simp: bind_res_eq_Inr x_def split: option.splits)
  have "newborn np (Some cur) s x" unfolding x_def using n by (rule newborn_upd) simp_all
  then have "newborn np (Some cur) s (set_mem g2 (set_mem g1 x))"
    by (rule newborn_same [OF same_table_trans [OF frame_mem(1) frame_mem(1)]])
  with e have "newborn np (Some cur) s e" by (rule for_res_invariant) (use fork_file_newborn in blast)
  then have nf: "newborn np (Some cur) s f" by (rule newborn_same [OF frame_kern(1) [OF f]])
  then have "pname (procs f ! np) \<noteq> []" using nm by (auto simp: newborn_def)
  then have nh: "newborn np (Some cur) s (?hh g f)" using nf by (intro newborn_upd [OF nf]) (auto simp: newborn_def length_set_name)
  then have "newborn np (Some cur) s (upd_proc np ?g (?hh g f))" by (rule newborn_keep) simp
  then have "newborn np (Some cur) s t" by (rule newborn_same [OF frame_lock(2) [OF t]])
  moreover have "pstate (procs t ! np) = RUNNABLE" using frame_lock(2) [OF t] newborn_index [OF nf] by (simp add: same_table_def)
  moreover have "r = nextpid s" using nh r by (simp add: newborn_def)
  ultimately show ?thesis by blast
qed

lemma fork_wf:
  assumes "fork tr fr kdata s = Inr (r, t)" and c: "cur_ok cur ini s" and pid: "sint (nextpid s) < 2 ^ 31 - 1"
  shows "ptable_wf t"
proof -
  have cp: "cproc s = Some cur" using c by (simp add: cur_ok_def running_def)
  obtain a x b where a: "ptable_acquire s = Inr a" and x: "allocproc tr fr a = Inr (x, b)"
    using assms(1) cp by (auto simp: fork_def with_proc_def bind_res_eq_Inr)
  have ca: "cur_ok cur ini a" by (rule cur_same [OF frame_lock(1) [OF a] c])
  have wa: "ptable_wf a" and pa: "sint (nextpid a) < 2 ^ 31 - 1" and al: "cur < NPROC" "alive (procs a ! cur)" and len: "length (procs a) = NPROC"
    using ca cur_index [OF ca] frame_lock(1) [OF a] pid by (auto simp: cur_ok_def running_def alive_def same_table_def)
  have unused: "ptable_wf u" if n: "newborn np (pparent (procs a ! np)) a u" and "pstate (procs u ! np) = UNUSED" for np u
    using newborn_wf [OF wa n] wf_parent [OF wa, of np] newborn_index [OF n] pa that(2) by simp
  show ?thesis
  proof (cases x)
    case None
    then have t: "same_table b t" using assms(1) cp a x by (auto simp: fork_def with_proc_def bind_res_eq_Inr dest!: frame_lock(2))
    have "ptable_wf b" using allocproc_newborn [OF x len] None same_table_wf [of a b] wa unused by auto
    then show ?thesis using same_table_wf [OF t] by simp
  next
    case (Some np)
    then have n: "newborn np (pparent (procs a ! np)) a b" using allocproc_newborn [OF x len] by auto
    obtain d e where d: "on_mem (copyuvm kdata (pgdir (procs b ! cur)) (psz (procs b ! cur))) b = Inr (d, e)"
      and t: "(if d = 0 then fork_fails np (upd_proc np (\<lambda>p. p\<lparr>pgdir := d\<rparr>) e) else fork_child cur np (upd_proc np (\<lambda>p. p\<lparr>pgdir := d\<rparr>) e)) = Inr (r, t)"
      using assms(1) cp a x Some by (auto simp: fork_def with_proc_def bind_res_eq_Inr Let_def)
    have ne: "newborn np (pparent (procs a ! np)) a (upd_proc np (\<lambda>p. p\<lparr>pgdir := d\<rparr>) e)"
      by (rule newborn_keep [OF newborn_same [OF frame_kern(3) [OF d] n]]) simp
    have "length (pname (procs a ! np)) = 16" using wf_entry [OF wa, of np] newborn_index [OF n] by (simp add: entry_ok_def)
    then show ?thesis
      using t fork_fails_newborn [OF _ ne] fork_child_newborn [OF _ ne] unused newborn_wf [OF wa, of np "Some cur" t] al pa
      by (auto split: if_splits)
  qed
qed


section \<open>Runs of one processor\<close>

text \<open>
  The scheduler and the process it runs take turns. While process \<open>i\<close> executes it may call any function of \<open>src/proc.c\<close>, change its
  own open files, directory, memory and name as \<open>src/sysfile.c\<close> and \<open>src/exec.c\<close> do, and the rest of the kernel may change in any way. Interrupts
  may wake processes at any time. When the process has left the state \<open>RUNNING\<close> the scheduler goes on.
\<close>

inductive kstep :: "sched_pc \<Rightarrow> 'a proc_st_scheme \<Rightarrow> sched_pc \<Rightarrow> 'a proc_st_scheme \<Rightarrow> bool" where
  pick: "(\<And>i j. q = Run i \<Longrightarrow> \<not> running j s) \<Longrightarrow> scheduler q s = Inr (q', t) \<Longrightarrow> kstep q s q' t"
| interrupt: "wakeup ch s = Inr t \<Longrightarrow> kstep q s q t"
| other: "kstep q s q (s\<lparr>kern := k\<rparr>)"
| own: "running i s \<Longrightarrow> length fs = NOFILE \<Longrightarrow> length nm = 16
    \<Longrightarrow> kstep (Run i) s (Run i) (upd_proc i (\<lambda>p. p\<lparr>psz := sz, pgdir := d, ofile := fs, cwd := c, pname := nm, selid := x\<rparr>) s)"
| grow: "running i s \<Longrightarrow> growproc n s = Inr (r, t) \<Longrightarrow> kstep (Run i) s (Run i) t"
| fork: "running i s \<Longrightarrow> sint (nextpid s) < 2 ^ 31 - 1 \<Longrightarrow> fork tr fr kd s = Inr (r, t) \<Longrightarrow> kstep (Run i) s (Run i) t"
| kill: "running i s \<Longrightarrow> kill pid s = Inr (r, t) \<Longrightarrow> kstep (Run i) s (Run i) t"
| exit: "running i s \<Longrightarrow> exit s = Inr (v, t) \<Longrightarrow> kstep (Run i) s (Run i) t"
| wait: "running i s \<Longrightarrow> wait s = Inr (w, t) \<Longrightarrow> kstep (Run i) s (Run i) t"
| wait_in: "running i s \<Longrightarrow> wait_in v s = Inr (w, t) \<Longrightarrow> kstep (Run i) s (Run i) t"
| sleep: "running i s \<Longrightarrow> sleep ch lk s = Inr (v, t) \<Longrightarrow> kstep (Run i) s (Run i) t"
| sleep_in: "running i s \<Longrightarrow> sleep_in l v s = Inr t \<Longrightarrow> kstep (Run i) s (Run i) t"
| yield: "running i s \<Longrightarrow> yield s = Inr (v, t) \<Longrightarrow> kstep (Run i) s (Run i) t"
| yield_in: "running i s \<Longrightarrow> yield_in v s = Inr t \<Longrightarrow> kstep (Run i) s (Run i) t"
| forkret: "running i s \<Longrightarrow> forkret s = Inr t \<Longrightarrow> kstep (Run i) s (Run i) t"

inductive kreach :: "'a proc_st_scheme \<Rightarrow> sched_pc \<Rightarrow> 'a proc_st_scheme \<Rightarrow> bool" where
  start: "kreach s0 Idle s0"
| more: "kreach s0 q s \<Longrightarrow> kstep q s q' t \<Longrightarrow> kreach s0 q' t"

lemma wf_set_cproc:
  assumes wf: "ptable_wf s" and nr: "\<And>j. j < NPROC \<Longrightarrow> pstate (procs s ! j) \<noteq> RUNNING" and c: "\<And>i. c = Some i \<Longrightarrow> i < NPROC"
  shows "ptable_wf (s\<lparr>cproc := c\<rparr>)"
proof -
  have e: "procs (s\<lparr>cproc := c\<rparr>) = procs s" "cproc (s\<lparr>cproc := c\<rparr>) = c" "initproc (s\<lparr>cproc := c\<rparr>) = initproc s"
    "nextpid (s\<lparr>cproc := c\<rparr>) = nextpid s" by simp_all
  show ?thesis unfolding ptable_wf_def e
    using wf_len [OF wf] wf_entry [OF wf] wf_pid [OF wf] wf_init [OF wf] wf_parent [OF wf] nr c by blast
qed

lemma scheduler_wf:
  assumes "scheduler q s = Inr (q', t)" and wf: "ptable_wf s" and idle: "(\<And>i. q \<noteq> Run i) \<Longrightarrow> cproc s = None"
    and out: "\<And>i j. q = Run i \<Longrightarrow> \<not> running j s"
  shows "ptable_wf t \<and> ((\<forall>i. q' \<noteq> Run i) \<longrightarrow> cproc t = None)"
proof (cases q)
  case Idle
  let ?a = "s\<lparr>kern := (kern s)\<lparr>kst := sti (kst (kern s))\<rparr>\<rparr>"
  have "same_table s ?a" by (simp add: same_table_def)
  then have "same_table s t" "q' = Scan 0"
    using assms(1) Idle by (auto simp: bind_res_eq_Inr dest!: frame_lock(1) intro: same_table_trans)
  then show ?thesis using wf idle Idle same_table_wf [of s t] by (auto simp: same_table_def)
next
  case (Run i)
  then have t: "t = s\<lparr>cproc := None\<rparr>" "q' = Scan (i + 1)" using assms(1) by auto
  have "pstate (procs s ! j) \<noteq> RUNNING" if "j < NPROC" for j
    using wf_running [OF wf that] out Run by (auto simp: running_def)
  then have "ptable_wf t" unfolding t by (rule wf_set_cproc [OF wf]) simp_all
  then show ?thesis using t by simp
next
  case (Scan i)
  have none: "cproc s = None" using idle Scan by simp
  consider "same_table s t" "\<And>j. q' \<noteq> Run j" | "i < NPROC" "pstate (procs s ! i) = RUNNABLE" "q' = Run i"
      "same_table (upd_proc i (\<lambda>p. p\<lparr>pstate := RUNNING\<rparr>) (s\<lparr>cproc := Some i\<rparr>)) t"
    using assms(1) Scan by (fastforce simp: bind_res_eq_Inr Let_def same_table_def split: if_splits dest!: frame_lock(2) frame_kern(4))
  then show ?thesis
  proof cases
    case 1
    then show ?thesis using wf none same_table_wf [OF 1(1)] by (simp add: same_table_def)
  next
    case 2
    have nr: "pstate (procs s ! j) \<noteq> RUNNING" if "j < NPROC" for j using wf_running [OF wf that] none by auto
    then have wf': "ptable_wf (s\<lparr>cproc := Some i\<rparr>)" using 2(1) by (intro wf_set_cproc [OF wf]) simp_all
    have "ptable_wf (upd_proc i (\<lambda>p. p\<lparr>pstate := RUNNING\<rparr>) (s\<lparr>cproc := Some i\<rparr>))"
      using wf_entry [OF wf 2(1)] 2(2) by (intro upd_wf [OF wf' 2(1)]) (simp_all add: entry_ok_def used_def alive_def)
    then show ?thesis using same_table_wf [OF 2(4)] 2(3,4) by (simp add: same_table_def)
  qed
qed

lemma kstep_wf:
  assumes "kstep q s q' t" and "ptable_wf s" "(\<forall>i. q \<noteq> Run i) \<longrightarrow> cproc s = None"
  shows "ptable_wf t \<and> ((\<forall>i. q' \<noteq> Run i) \<longrightarrow> cproc t = None)"
  using assms
proof (induction rule: kstep.induct)
  case (pick q s q' t)
  then show ?case using scheduler_wf by blast
next
  case (interrupt ch s t q)
  then have "cproc t = cproc s" by (auto simp: wakeup_def bind_res_eq_Inr same_table_def dest!: frame_lock)
  then show ?case using interrupt wakeup_wf by metis
next
  case (other q s k)
  then show ?case using same_table_wf [of s "s\<lparr>kern := k\<rparr>"] by (simp add: same_table_def)
next
  case (own i s fs nm sz d c x)
  then have i: "i < NPROC" by (auto simp: running_def dest: wf_cproc)
  have "ptable_wf (upd_proc i g s)" if "\<And>p. ppid (g p) = ppid p \<and> pparent (g p) = pparent p \<and> pstate (g p) = pstate p \<and> ofile (g p) = fs \<and> pname (g p) = nm" for g
    using that own(2,3) wf_entry [OF own(4) i] wf_running [OF own(4) i] by (intro upd_wf [OF own(4) i]) (simp_all add: entry_ok_def used_def alive_def)
  then show ?case by simp
next
  case (grow i s n r t)
  then show ?case using growproc_ok [of n s r t i "initproc s"] by (simp add: cur_ok_def)
next
  case (fork i s tr fr kd r t)
  then show ?case using fork_wf [of tr fr kd s r t i "initproc s"] by (simp add: cur_ok_def)
next
  case (kill i s pid r t)
  then show ?case using kill_wf by blast
next
  case (exit i s v t)
  then show ?case using exit_wf [of s v t i "initproc s"] by (simp add: cur_ok_def)
next
  case (wait i s w t)
  then show ?case using wait_wf [of s w t i "initproc s"] by (simp add: cur_ok_def)
next
  case (wait_in i s v w t)
  then show ?case using wait_in_wf [of v s w t i "initproc s"] by (simp add: cur_ok_def)
next
  case (sleep i s ch lk v t)
  then show ?case using sleep_wf by blast
next
  case (sleep_in i s l v t)
  then show ?case using sleep_in_ok [of l v s t i "initproc s"] by (simp add: cur_ok_def)
next
  case (yield i s v t)
  then show ?case using yield_wf by blast
next
  case (yield_in i s v t)
  then show ?case using yield_in_ok [of v s t i "initproc s"] by (simp add: cur_ok_def)
next
  case (forkret i s t)
  then show ?case using forkret_ok [of s t i "initproc s"] by (simp add: cur_ok_def)
qed

lemma kreach_wf: "kreach s0 q s \<Longrightarrow> ptable_wf s0 \<Longrightarrow> cproc s0 = None \<Longrightarrow> ptable_wf s \<and> ((\<forall>i. q \<noteq> Run i) \<longrightarrow> cproc s = None)"
  by (induction rule: kreach.induct) (use kstep_wf in blast)+

text \<open>The first process: \<open>userinit\<close> makes the table well formed.\<close>

definition blank_table :: "'a proc_st_scheme \<Rightarrow> bool" where
  "blank_table s \<longleftrightarrow> length (procs s) = NPROC \<and> cproc s = None \<and> 0 < sint (nextpid s) \<and> sint (nextpid s) < 2 ^ 31 - 1
     \<and> (\<forall>i<NPROC. pstate (procs s ! i) = UNUSED \<and> pparent (procs s ! i) = None \<and> length (ofile (procs s ! i)) = NOFILE \<and> length (pname (procs s ! i)) = 16)"

lemma first_process_wf:
  assumes b: "blank_table s" and n: "newborn p None s t" and st: "pstate (procs t ! p) = RUNNABLE" and i: "initproc u = Some p"
    and u: "procs u = procs t" "cproc u = cproc t" "nextpid u = nextpid t"
  shows "ptable_wf u \<and> cproc u = None"
proof -
  have p: "p < NPROC" "length (procs t) = NPROC" using newborn_index [OF n] by simp_all
  have o: "procs t ! j = procs s ! j" if "j \<noteq> p" for j using n that by (simp add: newborn_def only_entry_def)
  have un: "\<not> used (procs t ! j)" "pparent (procs t ! j) = None" if "j < NPROC" "j \<noteq> p" for j
    using b that o [of j] by (simp_all add: blank_table_def used_def)
  have suc: "sint (nextpid t) = sint (nextpid s) + 1"
    using n b sint_succ [of "nextpid s"] by (simp add: newborn_def blank_table_def)
  have al: "alive (procs t ! p)" and pp: "pparent (procs t ! p) = None" using st n by (simp_all add: alive_def newborn_def)
  have "entry_ok (nextpid t) (procs t ! j)" if "j < NPROC" for j
    using b n that o [of j] st suc by (cases "j = p") (auto simp: entry_ok_def blank_table_def newborn_def used_def)
  moreover have "i = j" if "i < NPROC" "j < NPROC" "used (procs t ! i)" "used (procs t ! j)" for i j
    using un that by metis
  moreover have c: "cproc t = None" "\<And>k. cproc t \<noteq> Some k" using n b by (simp_all add: newborn_def only_entry_def blank_table_def)
  moreover have "pparent (procs t ! j) \<noteq> Some k" "pstate (procs t ! j) \<noteq> RUNNING" if "j < NPROC" for j k
    using un [OF that] pp st by (cases "j = p"; auto simp: used_def)+
  ultimately show ?thesis using p al i unfolding ptable_wf_def u by (intro conjI; (blast | simp))
qed

lemma userinit_wf:
  assumes "userinit devsw stack tr fr kdata code s = Inr t" and b: "blank_table s"
  shows "ptable_wf t \<and> cproc t = None"
proof -
  obtain a x c where a: "ptable_acquire s = Inr a" and x: "allocproc tr fr a = Inr (Some x, c)"
    using assms(1) by (auto simp: userinit_def bind_res_eq_Inr Let_def split: option.splits)
  have sa: "same_table s a" by (rule frame_lock(1) [OF a])
  have ba: "blank_table a" using b sa by (simp add: blank_table_def same_table_def)
  then have n: "newborn x None a c" using allocproc_newborn [OF x] by (auto simp: blank_table_def newborn_def)
  obtain d e f g ip h where m: "on_mem (setupkvm kdata) (c\<lparr>initproc := Some x\<rparr>) = Inr (d, e)"
      "do_mem (inituvm d code (of_nat (length code))) (upd_proc x (\<lambda>p. p\<lparr>pgdir := d\<rparr>) e) = Inr f"
      "on_kern (namei devsw 0 stack (ascii ''/'')) (upd_proc x (\<lambda>p. p\<lparr>pname := set_name (pname p) (ascii ''initcode'' @ [0])\<rparr>)
         (set_mem g (upd_proc x (\<lambda>p. p\<lparr>psz := of_nat PGSIZE\<rparr>) f))) = Inr (ip, h)"
    and t: "ptable_release (upd_proc x (\<lambda>p. p\<lparr>cwd := ip, pstate := RUNNABLE\<rparr>) h) = Inr t"
    using assms(1) a x by (auto simp: userinit_def bind_res_eq_Inr Let_def split: if_splits)
  let ?a = "a\<lparr>initproc := Some x\<rparr>"
  have "newborn x None ?a (c\<lparr>initproc := Some x\<rparr>)" using n by (simp add: newborn_def only_entry_def)
  then have ne: "newborn x None ?a e" by (rule newborn_same [OF frame_kern(3) [OF m(1)]])
  have "newborn x None ?a f" by (rule newborn_same [OF frame_kern(4) [OF m(2)] newborn_keep [OF ne]]) simp
  then have ng: "newborn x None ?a (set_mem g (upd_proc x (\<lambda>p. p\<lparr>psz := of_nat PGSIZE\<rparr>) f))" (is "newborn _ _ _ ?g")
    by (intro newborn_same [OF frame_mem(1) newborn_keep]) simp_all
  then have "pname (procs ?g ! x) \<noteq> []" using ba newborn_index [OF ng] by (auto simp: newborn_def blank_table_def)
  then have "newborn x None ?a (upd_proc x (\<lambda>p. p\<lparr>pname := set_name (pname p) (ascii ''initcode'' @ [0])\<rparr>) ?g)"
    using ng by (intro newborn_upd [OF ng]) (auto simp: newborn_def length_set_name)
  then have nh: "newborn x None ?a h" by (rule newborn_same [OF frame_kern(1) [OF m(3)]])
  then have nt: "newborn x None ?a t"
    by (intro newborn_same [OF frame_lock(2) [OF t] newborn_keep]) simp_all
  have "pstate (procs t ! x) = RUNNABLE" "initproc t = Some x"
    using frame_lock(2) [OF t] nh newborn_index [OF nh] by (simp_all add: same_table_def newborn_def only_entry_def)
  then show ?thesis using first_process_wf [OF _ nt, of t] ba by (simp add: blank_table_def)
qed

text \<open>
  C18: over every run of the scheduler and of the processes it runs, from a well-formed table, the process table stays well formed: 64
  entries whose processes have distinct positive identifiers, every parent and the first process are alive,
  and only the process that the CPU executes is marked \<open>RUNNING\<close>. The number of forks is below \<open>2 ^ 31\<close>.
\<close>

theorem process_table_well_formed:
  assumes "ptable_wf s0" and "cproc s0 = None" and "kreach s0 q s"
  shows "ptable_wf s"
  using kreach_wf [OF assms(3,1,2)] by blast

definition idle_kern :: "prng_st \<Rightarrow> cons_st" where
  "idle_kern k =
     \<lparr>bcache_lock = False, bufs = [], disk = (\<lambda>_. []), disksize = 0, history = [], wakes = [],
      log_lock = False, lstart = 0, lsize = 0, outstanding = 0, committing = 0, ldev = 0, lh_n = 0, lh_block = [],
      sb = \<lparr>sb_size = 0, sb_nblocks = 0, sb_ninodes = 0, sb_nlog = 0, sb_logstart = 0, sb_inodestart = 0, sb_bmapstart = 0\<rparr>,
      icache_lock = False, inodes = [], ftable_lock = False, files = [], sels = \<lparr>sel_locks = replicate 64 False, sel_woken = [], chan_woken = []\<rparr>,
      pipes = (\<lambda>_. \<lparr>pp_lock = False, pp_data = [], nread = 0, nwrite = 0, readopen = 0, writeopen = 0, selprocread = \<lparr>sel = [], sellk = [], selcount = 0\<rparr>,
        selprocwrite = \<lparr>sel = [], sellk = [], selcount = 0\<rparr>, pp_encrypted = 0, pp_key = 0, pp_counter = 0\<rparr>),
      kst = k, read_pool = 0, read_operations = 0, write_pool = 0, write_operations = 0,
      cons_lock = False, locking = 0, uart_out = [], crt = [], cursor = 0, ibuf = [], in_r = 0, in_w = 0, in_e = 0,
      in_selread = \<lparr>sel = [], sellk = [], selcount = 0\<rparr>, dev_selread = \<lparr>sel = [], sellk = [], selcount = 0\<rparr>,
      keyboard_press_pool = 0, procdumps = 0\<rparr>"

definition empty_proc :: proc where
  "empty_proc = \<lparr>psz = 0, pgdir = 0, kstack = 0, pstate = UNUSED, ppid = 0, pparent = None, ptf = 0, pcontext = 0, pchan = None, pkilled = 0,
     ofile = replicate 16 None, cwd = None, pname = replicate 16 0, selid = 0\<rparr>"

text \<open>The first process, runnable, and a child of it that sleeps until the clock ticks.\<close>

definition two_procs :: proc_st where
  "two_procs = \<lparr>ptable_lock = zero_lock,
     procs = [empty_proc\<lparr>pstate := RUNNABLE, ppid := 1\<rparr>, empty_proc\<lparr>pstate := SLEEPING, ppid := 2, pparent := Some 0, pchan := Some TicksChan\<rparr>]
       @ replicate 62 empty_proc,
     initproc = Some 0, nextpid = 3, cproc = None, schedule_timing_pool = 0, forkret_first = False, kern = idle_kern four_pages\<rparr>"

lemma two_procs_nth:
  "i < NPROC \<Longrightarrow> procs two_procs ! i =
     (if i = 0 then empty_proc\<lparr>pstate := RUNNABLE, ppid := 1\<rparr>
      else if i = 1 then empty_proc\<lparr>pstate := SLEEPING, ppid := 2, pparent := Some 0, pchan := Some TicksChan\<rparr> else empty_proc)"
  by (auto simp: two_procs_def nth_append nth_Cons NPROC_def split: nat.split)

lemma two_procs_wf: "ptable_wf two_procs" "cproc two_procs = None"
proof -
  have f: "length (procs two_procs) = NPROC" "nextpid two_procs = 3" "initproc two_procs = Some 0" and c: "cproc two_procs = None"
    by (simp_all add: two_procs_def NPROC_def)
  have e: "entry_ok 3 (procs two_procs ! i)" "pstate (procs two_procs ! i) \<noteq> RUNNING" "pparent (procs two_procs ! i) = (if i = 1 then Some 0 else None)"
    "used (procs two_procs ! i) \<longleftrightarrow> i \<le> 1" "i \<le> 1 \<Longrightarrow> ppid (procs two_procs ! i) = (if i = 0 then 1 else 2)"
    if "i < NPROC" for i
    using two_procs_nth [OF that] by (auto simp: entry_ok_def empty_proc_def used_def NOFILE_def)
  have al: "alive (procs two_procs ! 0)" using two_procs_nth [of 0] by (simp add: alive_def NPROC_def)
  have "i = j" if "i < NPROC" "j < NPROC" "used (procs two_procs ! i)" "used (procs two_procs ! j)" "ppid (procs two_procs ! i) = ppid (procs two_procs ! j)" for i j
    using e(4,5) [OF that(1)] e(4,5) [OF that(2)] that(3-5) by (simp split: if_splits)
  moreover have z: "0 < NPROC" by (simp add: NPROC_def)
  moreover have "j < NPROC \<and> alive (procs two_procs ! j)" if "i < NPROC" "pparent (procs two_procs ! i) = Some j" for i j
    using e(3) [OF that(1)] that(2) al z by (auto split: if_splits)
  ultimately show "ptable_wf two_procs"
    unfolding ptable_wf_def f c using e(1,2) al by (intro conjI; (blast | simp))
  show "cproc two_procs = None" by (rule c)
qed

theorem process_table_well_formed_witness:
  "\<exists>t. wakeup (Some TicksChan) two_procs = Inr t \<and> pstate (procs t ! 1) = RUNNABLE \<and> ptable_wf t"
proof -
  have k: "locked (ptable_lock two_procs) = 0" "cpu_ok (kst (kern two_procs))"
    using four_pages_facts(1) by (simp_all add: two_procs_def zero_lock_def idle_kern_def kinv_def cpu_room_def)
  define a where "a = two_procs\<lparr>ptable_lock := taken (kst (kern two_procs)) (ptable_lock two_procs), kern := (kern two_procs)\<lparr>kst := pushcli (kst (kern two_procs))\<rparr>\<rparr>"
  have a: "ptable_acquire two_procs = Inr a" using k(1) by (simp add: ptable_acquire_def acquire_free a_def)
  obtain t where t: "ptable_release (wakeup1 (Some TicksChan) a) = Inr t"
    using release_taken [OF k(2) balanced_refl, of "ptable_lock a"] by (auto simp: ptable_release_def a_def wakeup1_def taken_def)
  then have w: "wakeup (Some TicksChan) two_procs = Inr t" by (simp add: wakeup_def a)
  have "procs t = procs (wakeup1 (Some TicksChan) two_procs)"
    using frame_lock(2) [OF t] by (simp add: same_table_def wakeup1_def a_def)
  then have "pstate (procs t ! 1) = RUNNABLE"
    using wakeup1_nth [of 1 two_procs "Some TicksChan"] two_procs_nth [of 1] by (simp add: two_procs_def NPROC_def)
  moreover have "ptable_wf t"
    by (rule process_table_well_formed [OF two_procs_wf kreach.more [OF kreach.start kstep.interrupt [OF w]]])
  ultimately show ?thesis using w by blast
qed

end
