(* ===== verification/Syscall.thy ===== *)
theory Syscall
  imports ProcTable
begin

text \<open>
  System call arguments (\<open>src/syscall.c\<close>) and the calls of \<open>src/sysproc.c\<close>. Arguments are on the user's stack, which
  the kernel reads through the page table of the process; an address without a page is a fault. A call that
  blocks ends in \<open>Blocked\<close> once the process has left the CPU, with the \<open>intena\<close> that \<open>sched\<close> saved.
\<close>

section \<open>Definitions\<close>

subsection \<open>User memory, as the kernel sees it\<close>

definition kpage :: "memory \<Rightarrow> u32 \<Rightarrow> u32 \<Rightarrow> u32 option" where
  "kpage m d v =
     (let e = load32 m (d + 4 * PDX v); w = load32 m (P2V (PTE_ADDR e) + 4 * PTX v) in
      if e AND PTE_P = 0 \<or> w AND PTE_P = 0 then None else Some (P2V (PTE_ADDR w)))"

definition kaddr :: "memory \<Rightarrow> u32 \<Rightarrow> u32 \<Rightarrow> u32 option" where
  "kaddr m d a = map_option (\<lambda>p. p + (a - PGROUNDDOWN a)) (kpage m d (PGROUNDDOWN a))"

primrec kread :: "memory \<Rightarrow> u32 \<Rightarrow> u32 \<Rightarrow> nat \<Rightarrow> u8 list res" where
  "kread m d a 0 = Inr []"
| "kread m d a (Suc n) =
     (case kaddr m d a of None \<Rightarrow> Inl (Fault ''page'') | Some x \<Rightarrow> bind_res (kread m d (a + 1) n) (\<lambda>bs. Inr (m x # bs)))"

primrec kwrite :: "memory \<Rightarrow> u32 \<Rightarrow> u32 \<Rightarrow> u8 list \<Rightarrow> memory res" where
  "kwrite m d a [] = Inr m"
| "kwrite m d a (b # bs) =
     (case kaddr m d a of None \<Rightarrow> Inl (Fault ''page'') | Some x \<Rightarrow> kwrite (m(x := b)) d (a + 1) bs)"

text \<open>
  A kernel function that works on user memory: it runs on the user's view of memory, and what it leaves in the user's
  buffer goes back through the page table.
\<close>

definition user_view :: "memory \<Rightarrow> u32 \<Rightarrow> memory" where
  "user_view m d a = (if a < KERNBASE then (case kaddr m d a of None \<Rightarrow> 0 | Some x \<Rightarrow> m x) else m a)"

definition with_user :: "u32 \<Rightarrow> u32 \<Rightarrow> nat \<Rightarrow> (prng_st \<Rightarrow> ('r \<times> prng_st) res) \<Rightarrow> prng_st \<Rightarrow> ('r \<times> prng_st) res" where
  "with_user d out n f k =
     bind_res (f (k\<lparr>mem := user_view (mem k) d\<rparr>)) (\<lambda>(r, k').
     bind_res (kwrite (\<lambda>a. if a < KERNBASE then mem k a else mem k' a) d out (load_bytes (mem k') out n)) (\<lambda>m.
     Inr (r, k'\<lparr>mem := m\<rparr>)))"

subsection \<open>Arguments\<close>

text \<open>\<open>None\<close> is a return of -1; \<open>Some\<close> has what is stored through the pointer.\<close>

definition fetchint :: "u32 \<Rightarrow> 'a proc_st_scheme \<Rightarrow> i32 option res" where
  "fetchint addr s =
     with_proc (\<lambda>i.
       let p = procs s ! i in
       if addr \<ge> psz p \<or> addr + 4 > psz p then Inr None
       else bind_res (kread (pmem s) (pgdir p) addr 4) (\<lambda>bs. Inr (Some (u32_of_bytes (bs ! 0) (bs ! 1) (bs ! 2) (bs ! 3))))) s"

primrec fetchstr_loop :: "memory \<Rightarrow> u32 \<Rightarrow> u32 \<Rightarrow> nat \<Rightarrow> nat \<Rightarrow> nat option res" where
  "fetchstr_loop m d a k 0 = Inr None"
| "fetchstr_loop m d a k (Suc n) =
     (case kaddr m d (a + of_nat k) of None \<Rightarrow> Inl (Fault ''page'')
      | Some x \<Rightarrow> if m x = 0 then Inr (Some k) else fetchstr_loop m d a (k + 1) n)"

definition fetchstr :: "u32 \<Rightarrow> 'a proc_st_scheme \<Rightarrow> (u32 \<times> nat) option res" where
  "fetchstr addr s =
     with_proc (\<lambda>i.
       let p = procs s ! i in
       if addr \<ge> psz p then Inr None
       else bind_res (fetchstr_loop (pmem s) (pgdir p) addr 0 (unat (psz p) - unat addr)) (\<lambda>r. Inr (map_option (Pair addr) r))) s"

definition argint :: "nat \<Rightarrow> 'a proc_st_scheme \<Rightarrow> i32 option res" where
  "argint n s = with_proc (\<lambda>i. fetchint (load32 (pmem s) (ptf (procs s ! i) + tf_esp) + 4 + 4 * of_nat n) s) s"

definition argptr :: "nat \<Rightarrow> i32 \<Rightarrow> 'a proc_st_scheme \<Rightarrow> u32 option res" where
  "argptr n sz s =
     with_proc (\<lambda>i.
       bind_res (argint n s) (\<lambda>r.
       case r of None \<Rightarrow> Inr None | Some a \<Rightarrow>
       if a \<ge> psz (procs s ! i) \<or> a + sz > psz (procs s ! i) then Inr None else Inr (Some a))) s"

definition argstr :: "nat \<Rightarrow> 'a proc_st_scheme \<Rightarrow> (u32 \<times> nat) option res" where
  "argstr n s = bind_res (argint n s) (\<lambda>r. case r of None \<Rightarrow> Inr None | Some a \<Rightarrow> fetchstr a s)"

text \<open>The bytes of a string argument, without the final zero.\<close>

definition str_bytes :: "u32 \<times> nat \<Rightarrow> 'a proc_st_scheme \<Rightarrow> u8 list res" where
  "str_bytes al s = with_proc (\<lambda>i. kread (pmem s) (pgdir (procs s ! i)) (fst al) (snd al)) s"

subsection \<open>Processes\<close>

datatype sysret = Ret i32 | Blocked u32

definition ret :: "(i32 \<times> 'a proc_st_scheme) res \<Rightarrow> (sysret \<times> 'a proc_st_scheme) res" where
  "ret r = bind_res r (\<lambda>(v, s). Inr (Ret v, s))"

definition sys_fork :: "u32 \<Rightarrow> u32 \<Rightarrow> u32 \<Rightarrow> 'a proc_st_scheme \<Rightarrow> (sysret \<times> 'a proc_st_scheme) res" where
  "sys_fork trapret start kdata s = ret (fork trapret start kdata s)"

definition sys_exit :: "'a proc_st_scheme \<Rightarrow> (sysret \<times> 'a proc_st_scheme) res" where
  "sys_exit s = bind_res (exit s) (\<lambda>(v, s). Inr (Blocked v, s))"

definition sys_wait :: "'a proc_st_scheme \<Rightarrow> (sysret \<times> 'a proc_st_scheme) res" where
  "sys_wait s =
     bind_res (wait s) (\<lambda>(w, s). case w of Waited pid \<Rightarrow> Inr (Ret pid, s) | WaitSleeps v \<Rightarrow> Inr (Blocked v, s))"

definition sys_kill :: "'a proc_st_scheme \<Rightarrow> (sysret \<times> 'a proc_st_scheme) res" where
  "sys_kill s = bind_res (argint 0 s) (\<lambda>a. case a of None \<Rightarrow> Inr (Ret (- 1), s) | Some pid \<Rightarrow> ret (kill pid s))"

definition sys_getpid :: "'a proc_st_scheme \<Rightarrow> (sysret \<times> 'a proc_st_scheme) res" where
  "sys_getpid s = with_proc (\<lambda>i. Inr (Ret (ppid (procs s ! i)), s)) s"

definition sys_sbrk :: "'a proc_st_scheme \<Rightarrow> (sysret \<times> 'a proc_st_scheme) res" where
  "sys_sbrk s =
     with_proc (\<lambda>i.
       bind_res (argint 0 s) (\<lambda>a. case a of None \<Rightarrow> Inr (Ret (- 1), s) | Some n \<Rightarrow>
       let addr = psz (procs s ! i) in
       bind_res (growproc n s) (\<lambda>(r, s). if sint r < 0 then Inr (Ret (- 1), s) else Inr (Ret addr, s)))) s"

text \<open>The loop of \<open>sys_sleep\<close>, with \<open>tickslock\<close> held: the comparison is unsigned.\<close>

definition sleep_round :: "u32 \<Rightarrow> i32 \<Rightarrow> 'a proc_st_scheme \<Rightarrow> (sysret \<times> 'a proc_st_scheme) res" where
  "sleep_round ticks0 n s =
     with_proc (\<lambda>i.
       if ticks (kst (kern s)) - ticks0 < n then
         (if pkilled (procs s ! i) \<noteq> 0 then bind_res (do_mem release_ticks s) (\<lambda>s. Inr (Ret (- 1), s))
          else bind_res (sleep (Some TicksChan) (Some TicksLock) s) (\<lambda>(v, s). Inr (Blocked v, s)))
       else bind_res (do_mem release_ticks s) (\<lambda>s. Inr (Ret 0, s))) s"

definition sys_sleep :: "'a proc_st_scheme \<Rightarrow> (sysret \<times> 'a proc_st_scheme) res" where
  "sys_sleep s =
     bind_res (argint 0 s) (\<lambda>a. case a of None \<Rightarrow> Inr (Ret (- 1), s) | Some n \<Rightarrow>
     bind_res (do_mem acquire_ticks s) (\<lambda>s.
     sleep_round (ticks (kst (kern s))) n s))"

definition sys_sleep_in :: "u32 \<Rightarrow> i32 \<Rightarrow> u32 \<Rightarrow> 'a proc_st_scheme \<Rightarrow> (sysret \<times> 'a proc_st_scheme) res" where
  "sys_sleep_in ticks0 n saved s = bind_res (sleep_in TicksLock saved s) (sleep_round ticks0 n)"

definition sys_uptime :: "'a proc_st_scheme \<Rightarrow> (sysret \<times> 'a proc_st_scheme) res" where
  "sys_uptime s =
     bind_res (do_mem acquire_ticks s) (\<lambda>s.
     let xticks = ticks (kst (kern s)) in
     bind_res (do_mem release_ticks s) (\<lambda>s. Inr (Ret xticks, s)))"

subsection \<open>Encryption and random data\<close>

text \<open>
  The two calls that encrypt and decrypt differ only in the names of their buffers: the input is argument 0 and the
  output argument 1.
\<close>

definition crypt_args :: "'a proc_st_scheme \<Rightarrow> (u32 \<times> u32 \<times> u32 \<times> u32 \<times> u32) option res" where
  "crypt_args s =
     bind_res (argint 2 s) (\<lambda>a. case a of None \<Rightarrow> Inr None | Some sz \<Rightarrow>
     bind_res (argptr 0 sz s) (\<lambda>a. case a of None \<Rightarrow> Inr None | Some inp \<Rightarrow>
     bind_res (argptr 1 sz s) (\<lambda>a. case a of None \<Rightarrow> Inr None | Some out \<Rightarrow>
     bind_res (argptr 3 (sz + of_nat BLOCK_LENGTH - sz mod of_nat BLOCK_LENGTH) s) (\<lambda>a. case a of None \<Rightarrow> Inr None | Some sq \<Rightarrow>
     bind_res (argptr 4 (of_nat AES_256_KEY_SIZE) s) (\<lambda>a. case a of None \<Rightarrow> Inr None | Some key \<Rightarrow>
     Inr (Some (inp, out, sz, sq, key)))))))"

definition sys_encrypt :: "'a proc_st_scheme \<Rightarrow> (sysret \<times> 'a proc_st_scheme) res" where
  "sys_encrypt s =
     with_proc (\<lambda>i.
       bind_res (crypt_args s) (\<lambda>a. case a of None \<Rightarrow> Inr (Ret (- 1), s) | Some (message, ciphertext, sz, sequence, key) \<Rightarrow>
       bind_res (on_mem (with_user (pgdir (procs s ! i)) ciphertext (unat sz) (\<lambda>k.
           bind_res (ctr_encrypt (mem k) message ciphertext sz sequence key AES_256_KEY_SIZE) (\<lambda>m. Inr ((), k\<lparr>mem := m\<rparr>)))) s) (\<lambda>(_, s).
       Inr (Ret 0, s)))) s"

definition sys_decrypt :: "'a proc_st_scheme \<Rightarrow> (sysret \<times> 'a proc_st_scheme) res" where
  "sys_decrypt s =
     with_proc (\<lambda>i.
       bind_res (crypt_args s) (\<lambda>a. case a of None \<Rightarrow> Inr (Ret (- 1), s) | Some (ciphertext, message, sz, sequence, key) \<Rightarrow>
       bind_res (on_mem (with_user (pgdir (procs s ! i)) message (unat sz) (\<lambda>k.
           bind_res (ctr_decrypt (mem k) ciphertext message sz sequence key AES_256_KEY_SIZE) (\<lambda>m. Inr ((), k\<lparr>mem := m\<rparr>)))) s) (\<lambda>(_, s).
       Inr (Ret 0, s)))) s"

text \<open>\<open>sys_random\<close> of \<open>src/prng.c\<close> with its arguments; \<open>n0\<close> and \<open>b0\<close> are what its local variables held.\<close>

definition sys_random_call :: "shift \<Rightarrow> i32 \<Rightarrow> u32 \<Rightarrow> 'a proc_st_scheme \<Rightarrow> (sysret \<times> 'a proc_st_scheme) res" where
  "sys_random_call ubshl n0 b0 s =
     with_proc (\<lambda>i.
       bind_res (argint 1 s) (\<lambda>a.
       let n = (case a of None \<Rightarrow> n0 | Some n \<Rightarrow> n) in
       if sint n < 0 then Inr (Ret (- 1), s)
       else
         bind_res (argptr 0 n s) (\<lambda>a.
         let b = (case a of None \<Rightarrow> b0 | Some b \<Rightarrow> b) in
         if b = 0 then Inr (Ret (- 1), s)
         else ret (on_mem (with_user (pgdir (procs s ! i)) b (nat (sint n)) (sys_random ubshl n b)) s)))) s"


section \<open>Pointer arguments\<close>

lemma argptr_eq:
  assumes "cproc s = Some i" and "argint n s = Inr (Some a)"
  shows "argptr n sz s = Inr (if unat a < unat (psz (procs s ! i)) \<and> (unat a + unat sz) mod 2 ^ 32 \<le> unat (psz (procs s ! i)) then Some a else None)"
proof -
  have "unat (a + sz) = (unat a + unat sz) mod 2 ^ 32" by (simp add: unat_word_ariths)
  then show ?thesis using assms
    by (simp add: argptr_def with_proc_def word_less_nat_alt word_le_nat_alt not_less not_le)
qed

lemma argptr_None: "argint n s = Inr None \<Longrightarrow> cproc s = Some i \<Longrightarrow> argptr n sz s = Inr None"
  by (simp add: argptr_def with_proc_def)

lemma argptr_value:
  assumes "argptr n sz s = Inr (Some a)"
  shows "\<exists>i. cproc s = Some i \<and> argint n s = Inr (Some a)"
  using assms by (auto simp: argptr_def with_proc_def bind_res_eq_Inr split: option.splits if_splits)

lemma nat_sint: "0 \<le> sint (w :: i32) \<Longrightarrow> unat w = nat (sint w) \<and> unat w < 2 ^ 31"
proof -
  assume nn: "0 \<le> sint w"
  have "sint w = signed_take_bit 31 (uint w)" by (simp add: sint_uint)
  moreover have "sint w < 2 ^ 31" using sint_lt [of w] by simp
  moreover have "uint w = sint w mod 2 ^ 32"
    using uint_sint [of w] by (simp add: take_bit_eq_mod)
  ultimately have "uint w = sint w" using nn by simp
  then show ?thesis using \<open>sint w < 2 ^ 31\<close> nn by (simp add: unat_eq_nat_uint nat_less_iff)
qed

text \<open>
  C21: for a size that is not negative, \<open>argptr\<close> accepts exactly the blocks that lie in the memory of the process. For a negative size
  the sum wraps, and it accepts every address of the process from \<open>-size\<close> on, though the block leaves it.
\<close>

theorem argptr_checks_block:
  assumes "cproc s = Some i" and "psz (procs s ! i) < KERNBASE" and "argint n s = Inr (Some a)"
  shows "argptr n sz s = Inr (if unat a < unat (psz (procs s ! i))
             \<and> (if 0 \<le> sint sz then unat a + nat (sint sz) \<le> unat (psz (procs s ! i)) else nat (- sint sz) \<le> unat a) then Some a else None)"
proof -
  let ?p = "unat (psz (procs s ! i))"
  have p: "?p < 2 ^ 31" using assms(2) by (simp add: word_less_nat_alt KERNBASE_def)
  show ?thesis
  proof (cases "0 \<le> sint sz")
    case True
    have s: "unat sz = nat (sint sz)" "unat sz < 2 ^ 31" using nat_sint [OF True] by simp_all
    have "(unat a + unat sz) mod 2 ^ 32 = unat a + unat sz" if "unat a < ?p" using that p s(2) by simp
    then show ?thesis using argptr_eq [OF assms(1,3), of sz] True s(1) by auto
  next
    case False
    have lo: "- (2 ^ 31) \<le> sint sz" using sint_ge [of sz] by simp
    have "uint sz = sint sz mod 2 ^ 32" using uint_sint [of sz] by (simp add: take_bit_eq_mod)
    also have "\<dots> = (sint sz + 2 ^ 32) mod 2 ^ 32" by (rule mod_add_self2 [symmetric])
    also have "\<dots> = sint sz + 2 ^ 32" using False lo by (intro mod_pos_pos_trivial) simp_all
    finally have "int (unat sz) = sint sz + 2 ^ 32" by simp
    define k where "k = nat (- sint sz)"
    have "int k = - sint sz" using False by (simp add: k_def)
    with \<open>int (unat sz) = _\<close> lo have "int (unat sz + k) = int (2 ^ 32)" "int k \<le> int (2 ^ 31)" by simp_all
    then have u: "unat sz + k = 2 ^ 32" "k \<le> 2 ^ 31" by (simp_all only: of_nat_eq_iff of_nat_le_iff)
    have "(unat a + unat sz) mod 2 ^ 32 \<le> ?p \<longleftrightarrow> k \<le> unat a" if a: "unat a < ?p"
    proof (cases "k \<le> unat a")
      case True
      then have "unat a + unat sz = unat a - k + 2 ^ 32" using u by simp
      then have "(unat a + unat sz) mod 2 ^ 32 = unat a - k" using a p by simp
      then show ?thesis using True a by simp
    next
      case F: False
      then have "(unat a + unat sz) mod 2 ^ 32 = unat a + unat sz" using u by simp
      then show ?thesis using F u p a by simp
    qed
    then show ?thesis using argptr_eq [OF assms(1,3), of sz] False by (auto simp: k_def)
  qed
qed

text \<open>A process with one page of memory, whose first argument is 16.\<close>

definition call_st :: proc_st where
  "call_st = two_procs\<lparr>cproc := Some 0, procs := [empty_proc\<lparr>psz := 4096, pgdir := 0x80001000, ptf := 0x80005000\<rparr>],
     kern := idle_kern (four_pages\<lparr>mem := vm_mem(0x80003004 := 16)\<rparr>)\<rparr>"

lemma call_st_arg: "argint 0 call_st = Inr (Some 16)"
proof -
  let ?m = "vm_mem(0x80003004 := 16)"
  have k: "kpage ?m 0x80001000 0 = Some 0x80003000"
    by (simp add: kpage_def load32_def vm_mem_def u32_of_bytes_def PDX_def PTX_def PTE_P_def PTE_ADDR_def P2V_def KERNBASE_def Let_def)
  have a: "kaddr ?m 0x80001000 x = Some (0x80003000 + x)" if "x \<in> {4, 5, 6, 7}" for x
    using that by (auto simp: kaddr_def PGROUNDDOWN_def PGSIZE_def k)
  have four: "(4 :: nat) = Suc (Suc (Suc (Suc 0)))" by simp
  have "kread ?m 0x80001000 4 4 = Inr [16, 0, 0, 0]"
    by (subst four) (simp add: a vm_mem_def)
  moreover have "load32 ?m (0x80005000 + tf_esp) = 0"
    by (simp add: load32_def vm_mem_def u32_of_bytes_def tf_esp_def)
  ultimately show ?thesis
    by (simp add: argint_def fetchint_def with_proc_def call_st_def empty_proc_def idle_kern_def u32_of_bytes_def)
qed

theorem argptr_checks_block_witness:
  "argptr 0 100 call_st = Inr (Some 16) \<and> argptr 0 4096 call_st = Inr None \<and> argptr 0 (- 16) call_st = Inr (Some 16)"
proof -
  have c: "cproc call_st = Some 0" "psz (procs call_st ! 0) < KERNBASE" "psz (procs call_st ! 0) = 4096"
    by (simp_all add: call_st_def empty_proc_def KERNBASE_def)
  show ?thesis
    using argptr_checks_block [OF c(1,2) call_st_arg, of 100] argptr_checks_block [OF c(1,2) call_st_arg, of 4096]
      argptr_checks_block [OF c(1,2) call_st_arg, of "- 16"]
    by (simp add: c(3))
qed

end
