(* ===== verification/Sysfile.thy ===== *)
theory Sysfile
  imports Syscall
begin

text \<open>
  The file system calls of \<open>src/sysfile.c\<close>. The part of a call that works on files and inodes is a function of the kernel state
  \<open>cons_st\<close>; the call itself fetches the arguments and changes the open files of the process. \<open>devsw\<close> is the device
  table, \<open>stack\<close> what the local buffer \<open>name\<close> holds at first. A call that waits in a pipe or a device ends in \<open>Waits\<close>.
\<close>

section \<open>Definitions\<close>

datatype fileret = FRet i32 | Waits nat | FBlocked u32

definition O_RDONLY :: i32 where "O_RDONLY = 0"
definition O_WRONLY :: i32 where "O_WRONLY = 1"
definition O_RDWR :: i32 where "O_RDWR = 2"
definition O_CREATE :: i32 where "O_CREATE = 0x200"

type_synonym ('a, 'r) call = "'a proc_st_scheme \<Rightarrow> ('r \<times> 'a proc_st_scheme) res"

definition fret :: "(i32 \<times> 'a proc_st_scheme) res \<Rightarrow> (fileret \<times> 'a proc_st_scheme) res" where
  "fret r = bind_res r (\<lambda>(v, s). Inr (FRet v, s))"

definition user_bytes :: "u32 \<Rightarrow> nat \<Rightarrow> nat \<Rightarrow> 'a proc_st_scheme \<Rightarrow> u8 list" where
  "user_bytes a n i s = load_bytes (user_view (pmem s) (pgdir (procs s ! i))) a n"

definition put_user :: "u32 \<Rightarrow> u8 list \<Rightarrow> nat \<Rightarrow> 'a proc_st_scheme \<Rightarrow> 'a proc_st_scheme res" where
  "put_user a bs i s = do_mem (\<lambda>k. bind_res (kwrite (mem k) (pgdir (procs s ! i)) a bs) (\<lambda>m. Inr (k\<lparr>mem := m\<rparr>))) s"

definition cur_killed :: "nat \<Rightarrow> 'a proc_st_scheme \<Rightarrow> bool" where
  "cur_killed i s \<longleftrightarrow> pkilled (procs s ! i) \<noteq> 0"

definition cur_cwd :: "nat \<Rightarrow> 'a proc_st_scheme \<Rightarrow> nat res" where
  "cur_cwd i s = (case cwd (procs s ! i) of None \<Rightarrow> Inl (Fault ''cwd'') | Some c \<Rightarrow> Inr c)"

subsection \<open>Descriptors\<close>

definition argfd :: "nat \<Rightarrow> 'a proc_st_scheme \<Rightarrow> (nat \<times> nat) option res" where
  "argfd n s =
     with_proc (\<lambda>i.
       bind_res (argint n s) (\<lambda>a. case a of None \<Rightarrow> Inr None | Some fd \<Rightarrow>
       if sint fd < 0 \<or> sint fd \<ge> int NOFILE then Inr None
       else Inr (map_option (Pair (unat fd)) (ofile (procs s ! i) ! unat fd)))) s"

definition fdalloc :: "nat \<Rightarrow> nat \<Rightarrow> 'a proc_st_scheme \<Rightarrow> nat option \<times> 'a proc_st_scheme" where
  "fdalloc f i s =
     (case List.find (\<lambda>fd. ofile (procs s ! i) ! fd = None) [0..<NOFILE] of
        None \<Rightarrow> (None, s)
      | Some fd \<Rightarrow> (Some fd, upd_proc i (\<lambda>p. p\<lparr>ofile := (ofile p)[fd := Some f]\<rparr>) s))"

definition sys_dup :: "('a, fileret) call" where
  "sys_dup s =
     with_proc (\<lambda>i.
       bind_res (argfd 0 s) (\<lambda>a. case a of None \<Rightarrow> Inr (FRet (- 1), s) | Some (_, f) \<Rightarrow>
       case fdalloc f i s of
         (None, s) \<Rightarrow> Inr (FRet (- 1), s)
       | (Some fd, s) \<Rightarrow> bind_res (on_kern (filedup f) s) (\<lambda>(_, s). Inr (FRet (of_nat fd), s)))) s"

definition rw_args :: "'a proc_st_scheme \<Rightarrow> (nat \<times> i32 \<times> u32) option res" where
  "rw_args s =
     bind_res (argfd 0 s) (\<lambda>a. case a of None \<Rightarrow> Inr None | Some (_, f) \<Rightarrow>
     bind_res (argint 2 s) (\<lambda>a. case a of None \<Rightarrow> Inr None | Some n \<Rightarrow>
     bind_res (argptr 1 n s) (\<lambda>a. case a of None \<Rightarrow> Inr None | Some p \<Rightarrow> Inr (Some (f, n, p)))))"

definition sys_read :: "cons_st devfns list \<Rightarrow> ('a, fileret) call" where
  "sys_read devsw s =
     with_proc (\<lambda>i.
       bind_res (rw_args s) (\<lambda>a. case a of None \<Rightarrow> Inr (FRet (- 1), s) | Some (f, n, p) \<Rightarrow>
       bind_res (on_kern (fileread devsw (cur_killed i s) f (user_bytes p (nat (sint n)) i s) n) s) (\<lambda>((r, bs), s).
       bind_res (put_user p bs i s) (\<lambda>s.
       case r of Returned v \<Rightarrow> Inr (FRet v, s) | Asleep j \<Rightarrow> Inr (Waits j, s))))) s"

definition sys_write :: "cons_st devfns list \<Rightarrow> ('a, fileret) call" where
  "sys_write devsw s =
     with_proc (\<lambda>i.
       bind_res (rw_args s) (\<lambda>a. case a of None \<Rightarrow> Inr (FRet (- 1), s) | Some (f, n, p) \<Rightarrow>
       bind_res (on_kern (filewrite devsw (cur_killed i s) f (user_bytes p (nat (sint n)) i s) n) s) (\<lambda>((r, _), s).
       case r of Returned v \<Rightarrow> Inr (FRet v, s) | Asleep j \<Rightarrow> Inr (Waits j, s)))) s"

definition sys_close :: "('a, fileret) call" where
  "sys_close s =
     with_proc (\<lambda>i.
       bind_res (argfd 0 s) (\<lambda>a. case a of None \<Rightarrow> Inr (FRet (- 1), s) | Some (fd, f) \<Rightarrow>
       bind_res (do_kern (fileclose f) (upd_proc i (\<lambda>p. p\<lparr>ofile := (ofile p)[fd := None]\<rparr>) s)) (\<lambda>s.
       Inr (FRet 0, s)))) s"

text \<open>A \<open>struct stat\<close> has 20 bytes, of which the fields fill 16.\<close>

definition put_stat :: "u32 \<Rightarrow> stat \<Rightarrow> nat \<Rightarrow> 'a proc_st_scheme \<Rightarrow> 'a proc_st_scheme res" where
  "put_stat a st i s =
     bind_res (put_user a [ucast (st_type st), ucast (drop_bit 8 (st_type st))] i s) (\<lambda>s.
     bind_res (put_user (a + 4) (bytes_of_u32 (st_dev st) @ bytes_of_u32 (st_ino st)) i s) (\<lambda>s.
     bind_res (put_user (a + 12) [ucast (st_nlink st), ucast (drop_bit 8 (st_nlink st))] i s) (\<lambda>s.
     put_user (a + 16) (bytes_of_u32 (st_size st)) i s)))"

definition sys_fstat :: "('a, fileret) call" where
  "sys_fstat s =
     with_proc (\<lambda>i.
       bind_res (argfd 0 s) (\<lambda>a. case a of None \<Rightarrow> Inr (FRet (- 1), s) | Some (_, f) \<Rightarrow>
       bind_res (argptr 1 20 s) (\<lambda>a. case a of None \<Rightarrow> Inr (FRet (- 1), s) | Some st \<Rightarrow>
       bind_res (on_kern (filestat f) s) (\<lambda>((r, x), s).
       case x of None \<Rightarrow> Inr (FRet r, s) | Some x \<Rightarrow>
       bind_res (put_stat st x i s) (\<lambda>s. Inr (FRet r, s)))))) s"

subsection \<open>Links\<close>

definition add_link :: "nat \<Rightarrow> u16 \<Rightarrow> cons_st \<Rightarrow> cons_st res" where
  "add_link ip d s = iupdate ip (upd_inode ip (\<lambda>i. i\<lparr>inlink := inlink i + d\<rparr>) s)"

definition link_bad :: "nat \<Rightarrow> cons_st \<Rightarrow> (i32 \<times> cons_st) res" where
  "link_bad ip s =
     bind_res (ilock (Some ip) s) (\<lambda>s.
     bind_res (add_link ip (- 1) s) (\<lambda>s.
     bind_res (iunlockput ip s) (\<lambda>s.
     bind_res (end_op s) (\<lambda>s. Inr (- 1, s)))))"

definition link_inode :: "cons_st devfns list \<Rightarrow> nat \<Rightarrow> u8 list \<Rightarrow> u8 list \<Rightarrow> u8 list \<Rightarrow> cons_st \<Rightarrow> (i32 \<times> cons_st) res" where
  "link_inode devsw wd stack old new s =
     bind_res (begin_op s) (\<lambda>s.
     bind_res (namei devsw wd stack old s) (\<lambda>(r, s).
     case r of None \<Rightarrow> bind_res (end_op s) (\<lambda>s. Inr (- 1, s)) | Some ip \<Rightarrow>
     bind_res (ilock (Some ip) s) (\<lambda>s.
     if itype (inodes s ! ip) = T_DIR then
       bind_res (iunlockput ip s) (\<lambda>s.
       bind_res (end_op s) (\<lambda>s. Inr (- 1, s)))
     else
       bind_res (add_link ip 1 s) (\<lambda>s.
       bind_res (iunlock (Some ip) s) (\<lambda>s.
       bind_res (nameiparent devsw wd new stack s) (\<lambda>((r, name), s).
       case r of None \<Rightarrow> link_bad ip s | Some dp \<Rightarrow>
       bind_res (ilock (Some dp) s) (\<lambda>s.
       bind_res (if idev (inodes s ! dp) \<noteq> idev (inodes s ! ip) then Inr (- 1, s)
                 else dirlink devsw dp name (inum (inodes s ! ip)) s) (\<lambda>(r, s).
       bind_res (iunlockput dp s) (\<lambda>s.
       if sint r < 0 then link_bad ip s
       else
         bind_res (iput ip s) (\<lambda>s.
         bind_res (end_op s) (\<lambda>s. Inr (0, s)))))))))))) "

definition sys_link :: "cons_st devfns list \<Rightarrow> u8 list \<Rightarrow> ('a, fileret) call" where
  "sys_link devsw stack s =
     with_proc (\<lambda>i.
       bind_res (argstr 0 s) (\<lambda>a. case a of None \<Rightarrow> Inr (FRet (- 1), s) | Some old \<Rightarrow>
       bind_res (argstr 1 s) (\<lambda>a. case a of None \<Rightarrow> Inr (FRet (- 1), s) | Some new \<Rightarrow>
       bind_res (str_bytes old s) (\<lambda>old.
       bind_res (str_bytes new s) (\<lambda>new.
       bind_res (cur_cwd i s) (\<lambda>wd.
       fret (on_kern (link_inode devsw wd stack old new) s))))))) s"

text \<open>The loop over the entries after \<open>.\<close> and \<open>..\<close>, from entry \<open>k\<close> on.\<close>

primrec isdirempty_loop :: "cons_st devfns list \<Rightarrow> nat \<Rightarrow> nat \<Rightarrow> nat \<Rightarrow> cons_st \<Rightarrow> (bool \<times> cons_st) res" where
  "isdirempty_loop devsw dp k 0 s = Inr (True, s)"
| "isdirempty_loop devsw dp k (Suc n) s =
     bind_res (readi devsw dp (of_nat (16 * k)) 16 s) (\<lambda>((r, de), s).
     if r \<noteq> 16 then Inl (Panic ''isdirempty: readi'')
     else if de_inum de \<noteq> 0 then Inr (False, s)
     else isdirempty_loop devsw dp (Suc k) n s)"

definition isdirempty :: "cons_st devfns list \<Rightarrow> nat \<Rightarrow> cons_st \<Rightarrow> (bool \<times> cons_st) res" where
  "isdirempty devsw dp s = isdirempty_loop devsw dp 2 (dir_entries (isize (inodes s ! dp)) - 2) s"

definition unlink_bad :: "nat \<Rightarrow> cons_st \<Rightarrow> (i32 \<times> cons_st) res" where
  "unlink_bad dp s =
     bind_res (iunlockput dp s) (\<lambda>s.
     bind_res (end_op s) (\<lambda>s. Inr (- 1, s)))"

definition unlink_entry :: "cons_st devfns list \<Rightarrow> nat \<Rightarrow> nat \<Rightarrow> u32 \<Rightarrow> cons_st \<Rightarrow> (i32 \<times> cons_st) res" where
  "unlink_entry devsw dp ip off s =
     bind_res (writei devsw dp (replicate 16 0) off 16 s) (\<lambda>(r, s).
     if r \<noteq> 16 then Inl (Panic ''unlink: writei'')
     else
       bind_res (if itype (inodes s ! ip) = T_DIR then add_link dp (- 1) s else Inr s) (\<lambda>s.
       bind_res (iunlockput dp s) (\<lambda>s.
       bind_res (add_link ip (- 1) s) (\<lambda>s.
       bind_res (iunlockput ip s) (\<lambda>s.
       bind_res (end_op s) (\<lambda>s. Inr (0, s)))))))"

definition unlink_path :: "cons_st devfns list \<Rightarrow> nat \<Rightarrow> u8 list \<Rightarrow> u8 list \<Rightarrow> cons_st \<Rightarrow> (i32 \<times> cons_st) res" where
  "unlink_path devsw wd stack path s =
     bind_res (begin_op s) (\<lambda>s.
     bind_res (nameiparent devsw wd path stack s) (\<lambda>((r, name), s).
     case r of None \<Rightarrow> bind_res (end_op s) (\<lambda>s. Inr (- 1, s)) | Some dp \<Rightarrow>
     bind_res (ilock (Some dp) s) (\<lambda>s.
     if namecmp name (ascii ''.'' @ [0]) = 0 \<or> namecmp name (ascii ''..'' @ [0]) = 0 then unlink_bad dp s
     else
       bind_res (dirlookup devsw dp name s) (\<lambda>(found, s).
       case found of None \<Rightarrow> unlink_bad dp s | Some (ip, off) \<Rightarrow>
       bind_res (ilock (Some ip) s) (\<lambda>s.
       if sint (inlink (inodes s ! ip)) < 1 then Inl (Panic ''unlink: nlink < 1'')
       else
         bind_res (if itype (inodes s ! ip) = T_DIR then isdirempty devsw ip s else Inr (True, s)) (\<lambda>(empty, s).
         if \<not> empty then bind_res (iunlockput ip s) (unlink_bad dp)
         else unlink_entry devsw dp ip off s))))))"

definition sys_unlink :: "cons_st devfns list \<Rightarrow> u8 list \<Rightarrow> ('a, fileret) call" where
  "sys_unlink devsw stack s =
     with_proc (\<lambda>i.
       bind_res (argstr 0 s) (\<lambda>a. case a of None \<Rightarrow> Inr (FRet (- 1), s) | Some path \<Rightarrow>
       bind_res (str_bytes path s) (\<lambda>path.
       bind_res (cur_cwd i s) (\<lambda>wd.
       fret (on_kern (unlink_path devsw wd stack path) s))))) s"

subsection \<open>Creation and opening\<close>

definition create_new :: "cons_st devfns list \<Rightarrow> nat \<Rightarrow> u8 list \<Rightarrow> u16 \<Rightarrow> u16 \<Rightarrow> u16 \<Rightarrow> cons_st \<Rightarrow> (nat option \<times> cons_st) res" where
  "create_new devsw dp name type major minor s =
     bind_res (ialloc (idev (inodes s ! dp)) type s) (\<lambda>(ip, s).
     bind_res (ilock (Some ip) s) (\<lambda>s.
     bind_res (iupdate ip (upd_inode ip (\<lambda>i. i\<lparr>imajor := major, iminor := minor, inlink := 1\<rparr>) s)) (\<lambda>s.
     bind_res
       (if type = T_DIR then
          bind_res (add_link dp 1 s) (\<lambda>s.
          bind_res (dirlink devsw ip (ascii ''.'' @ [0]) (inum (inodes s ! ip)) s) (\<lambda>(r, s).
          if sint r < 0 then Inl (Panic ''create dots'')
          else
            bind_res (dirlink devsw ip (ascii ''..'' @ [0]) (inum (inodes s ! dp)) s) (\<lambda>(r, s).
            if sint r < 0 then Inl (Panic ''create dots'') else Inr s)))
        else Inr s) (\<lambda>s.
     bind_res (dirlink devsw dp name (inum (inodes s ! ip)) s) (\<lambda>(r, s).
     if sint r < 0 then Inl (Panic ''create: dirlink'')
     else bind_res (iunlockput dp s) (\<lambda>s. Inr (Some ip, s)))))))"

definition create :: "cons_st devfns list \<Rightarrow> nat \<Rightarrow> u8 list \<Rightarrow> u8 list \<Rightarrow> u16 \<Rightarrow> u16 \<Rightarrow> u16 \<Rightarrow> cons_st \<Rightarrow> (nat option \<times> cons_st) res" where
  "create devsw wd stack path type major minor s =
     bind_res (nameiparent devsw wd path stack s) (\<lambda>((r, name), s).
     case r of None \<Rightarrow> Inr (None, s) | Some dp \<Rightarrow>
     bind_res (ilock (Some dp) s) (\<lambda>s.
     bind_res (dirlookup devsw dp name s) (\<lambda>(found, s).
     case found of
       Some (ip, _) \<Rightarrow>
         bind_res (iunlockput dp s) (\<lambda>s.
         bind_res (ilock (Some ip) s) (\<lambda>s.
         if type = T_FILE \<and> itype (inodes s ! ip) = T_FILE then Inr (Some ip, s)
         else bind_res (iunlockput ip s) (\<lambda>s. Inr (None, s))))
     | None \<Rightarrow> create_new devsw dp name type major minor s)))"

text \<open>The inode that \<open>sys_open\<close> opens, locked.\<close>

definition open_inode :: "cons_st devfns list \<Rightarrow> nat \<Rightarrow> u8 list \<Rightarrow> u8 list \<Rightarrow> i32 \<Rightarrow> cons_st \<Rightarrow> (nat option \<times> cons_st) res" where
  "open_inode devsw wd stack path omode s =
     bind_res (begin_op s) (\<lambda>s.
     if omode AND O_CREATE \<noteq> 0 then
       bind_res (create devsw wd stack path T_FILE 0 0 s) (\<lambda>(r, s).
       case r of None \<Rightarrow> bind_res (end_op s) (\<lambda>s. Inr (None, s)) | Some ip \<Rightarrow> Inr (Some ip, s))
     else
       bind_res (namei devsw wd stack path s) (\<lambda>(r, s).
       case r of None \<Rightarrow> bind_res (end_op s) (\<lambda>s. Inr (None, s)) | Some ip \<Rightarrow>
       bind_res (ilock (Some ip) s) (\<lambda>s.
       if itype (inodes s ! ip) = T_DIR \<and> omode \<noteq> O_RDONLY then
         bind_res (iunlockput ip s) (\<lambda>s.
         bind_res (end_op s) (\<lambda>s. Inr (None, s)))
       else Inr (Some ip, s))))"

definition bool_byte :: "bool \<Rightarrow> u8" where "bool_byte b = (if b then 1 else 0)"

definition open_file :: "nat \<Rightarrow> i32 \<Rightarrow> kfile \<Rightarrow> kfile" where
  "open_file ip omode f =
     f\<lparr>ftyp := FD_INODE, fip := ip, foff := 0, freadable := bool_byte (omode AND O_WRONLY = 0),
       fwritable := bool_byte (omode AND O_WRONLY \<noteq> 0 \<or> omode AND O_RDWR \<noteq> 0)\<rparr>"

definition open_fails :: "nat option \<Rightarrow> nat \<Rightarrow> ('a, fileret) call" where
  "open_fails fo ip s =
     bind_res (do_kern (close_opt fo) s) (\<lambda>s.
     bind_res (do_kern (iunlockput ip) s) (\<lambda>s.
     bind_res (do_kern end_op s) (\<lambda>s. Inr (FRet (- 1), s))))"

definition sys_open :: "cons_st devfns list \<Rightarrow> u8 list \<Rightarrow> ('a, fileret) call" where
  "sys_open devsw stack s =
     with_proc (\<lambda>i.
       bind_res (argstr 0 s) (\<lambda>a. case a of None \<Rightarrow> Inr (FRet (- 1), s) | Some path \<Rightarrow>
       bind_res (argint 1 s) (\<lambda>a. case a of None \<Rightarrow> Inr (FRet (- 1), s) | Some omode \<Rightarrow>
       bind_res (str_bytes path s) (\<lambda>path.
       bind_res (cur_cwd i s) (\<lambda>wd.
       bind_res (on_kern (open_inode devsw wd stack path omode) s) (\<lambda>(r, s).
       case r of None \<Rightarrow> Inr (FRet (- 1), s) | Some ip \<Rightarrow>
       bind_res (on_kern filealloc s) (\<lambda>(fo, s).
       case fo of None \<Rightarrow> open_fails None ip s | Some f \<Rightarrow>
       case fdalloc f i s of
         (None, s) \<Rightarrow> open_fails (Some f) ip s
       | (Some fd, s) \<Rightarrow>
           bind_res (do_kern (iunlock (Some ip)) s) (\<lambda>s.
           bind_res (do_kern end_op s) (\<lambda>s.
           Inr (FRet (of_nat fd), s\<lparr>kern := upd_file f (open_file ip omode) (kern s)\<rparr>)))))))))) s"

text \<open>\<open>sys_mkdir\<close>, \<open>sys_mknod\<close> and \<open>sys_chdir\<close> begin the operation before they fetch the arguments.\<close>

definition end_fail :: "('a, fileret) call" where
  "end_fail s = bind_res (do_kern end_op s) (\<lambda>s. Inr (FRet (- 1), s))"

definition make_node :: "cons_st devfns list \<Rightarrow> u8 list \<Rightarrow> u32 \<times> nat \<Rightarrow> u16 \<Rightarrow> u16 \<Rightarrow> u16 \<Rightarrow> nat \<Rightarrow> ('a, fileret) call" where
  "make_node devsw stack path type major minor i s =
     bind_res (str_bytes path s) (\<lambda>path.
     bind_res (cur_cwd i s) (\<lambda>wd.
     bind_res (on_kern (create devsw wd stack path type major minor) s) (\<lambda>(r, s).
     case r of None \<Rightarrow> end_fail s | Some ip \<Rightarrow>
     bind_res (do_kern (iunlockput ip) s) (\<lambda>s.
     bind_res (do_kern end_op s) (\<lambda>s. Inr (FRet 0, s))))))"

definition sys_mkdir :: "cons_st devfns list \<Rightarrow> u8 list \<Rightarrow> ('a, fileret) call" where
  "sys_mkdir devsw stack s =
     with_proc (\<lambda>i.
       bind_res (do_kern begin_op s) (\<lambda>s.
       bind_res (argstr 0 s) (\<lambda>a. case a of None \<Rightarrow> end_fail s | Some path \<Rightarrow>
       make_node devsw stack path T_DIR 0 0 i s))) s"

definition sys_mknod :: "cons_st devfns list \<Rightarrow> u8 list \<Rightarrow> ('a, fileret) call" where
  "sys_mknod devsw stack s =
     with_proc (\<lambda>i.
       bind_res (do_kern begin_op s) (\<lambda>s.
       bind_res (argstr 0 s) (\<lambda>a. case a of None \<Rightarrow> end_fail s | Some path \<Rightarrow>
       bind_res (argint 1 s) (\<lambda>a. case a of None \<Rightarrow> end_fail s | Some major \<Rightarrow>
       bind_res (argint 2 s) (\<lambda>a. case a of None \<Rightarrow> end_fail s | Some minor \<Rightarrow>
       make_node devsw stack path T_DEV (ucast major) (ucast minor) i s))))) s"

definition sys_chdir :: "cons_st devfns list \<Rightarrow> u8 list \<Rightarrow> ('a, fileret) call" where
  "sys_chdir devsw stack s =
     with_proc (\<lambda>i.
       bind_res (do_kern begin_op s) (\<lambda>s.
       bind_res (argstr 0 s) (\<lambda>a. case a of None \<Rightarrow> end_fail s | Some path \<Rightarrow>
       bind_res (str_bytes path s) (\<lambda>path.
       bind_res (cur_cwd i s) (\<lambda>wd.
       bind_res (on_kern (namei devsw wd stack path) s) (\<lambda>(r, s).
       case r of None \<Rightarrow> end_fail s | Some ip \<Rightarrow>
       bind_res (do_kern (ilock (Some ip)) s) (\<lambda>s.
       if itype (inodes (kern s) ! ip) \<noteq> T_DIR then bind_res (do_kern (iunlockput ip) s) end_fail
       else
         bind_res (do_kern (iunlock (Some ip)) s) (\<lambda>s.
         bind_res (do_kern (iput wd) s) (\<lambda>s.
         bind_res (do_kern end_op s) (\<lambda>s.
         Inr (FRet 0, upd_proc i (\<lambda>p. p\<lparr>cwd := Some ip\<rparr>) s)))))))))) ) s"

subsection \<open>Pipes and select\<close>

definition pipe_fails :: "nat \<Rightarrow> nat \<Rightarrow> ('a, fileret) call" where
  "pipe_fails rfile wfile s =
     bind_res (do_kern (fileclose rfile) s) (\<lambda>s.
     bind_res (do_kern (fileclose wfile) s) (\<lambda>s. Inr (FRet (- 1), s)))"

definition sys_pipe :: "('a, fileret) call" where
  "sys_pipe s =
     with_proc (\<lambda>i.
       bind_res (argptr 0 8 s) (\<lambda>a. case a of None \<Rightarrow> Inr (FRet (- 1), s) | Some fd \<Rightarrow>
       bind_res (on_kern pipealloc s) (\<lambda>(r, s).
       case r of None \<Rightarrow> Inr (FRet (- 1), s) | Some (rfile, wfile) \<Rightarrow>
       case fdalloc rfile i s of
         (None, s) \<Rightarrow> pipe_fails rfile wfile s
       | (Some fd0, s) \<Rightarrow>
           case fdalloc wfile i s of
             (None, s) \<Rightarrow> pipe_fails rfile wfile (upd_proc i (\<lambda>p. p\<lparr>ofile := (ofile p)[fd0 := None]\<rparr>) s)
           | (Some fd1, s) \<Rightarrow>
               bind_res (put_user fd (bytes_of_u32 (of_nat fd0) @ bytes_of_u32 (of_nat fd1)) i s) (\<lambda>s.
               Inr (FRet 0, s))))) s"

text \<open>
  The sets of a round of \<open>sys_select\<close>: the descriptors that are ready. \<open>proc->ofile[x]\<close> is read for every \<open>x\<close> below
  \<open>nfds\<close>, which is not checked.
\<close>

definition ready_step :: "cons_st devfns list \<Rightarrow> bool \<Rightarrow> (nat option list) \<Rightarrow> i32 \<Rightarrow> i32 \<Rightarrow> cons_st \<Rightarrow> nat \<Rightarrow> i32 \<times> i32 \<Rightarrow> (i32 \<times> i32) res" where
  "ready_step devsw killed fs rd wr k x sets =
     (if length fs \<le> x then Inl (Fault ''ofile'')
      else
        (let (rs, ws) = sets;
           rs = (case fs ! x of None \<Rightarrow> rs | Some f \<Rightarrow> if fd_isset x rd \<noteq> 0 \<and> sint (filereadable devsw killed f k) > 0 then fd_set x rs else rs);
           ws = (case fs ! x of None \<Rightarrow> ws | Some f \<Rightarrow> if fd_isset x wr \<noteq> 0 \<and> sint (filewriteable devsw killed f k) > 0 then fd_set x ws else ws)
         in Inr (rs, ws)))"

definition register_one :: "cons_st devfns list \<Rightarrow> nat \<Rightarrow> i32 \<Rightarrow> nat option \<Rightarrow> 'a proc_st_scheme \<Rightarrow> 'a proc_st_scheme res" where
  "register_one devsw i v fo s =
     (let s = upd_proc i (\<lambda>p. p\<lparr>selid := v\<rparr>) s in
      case fo of None \<Rightarrow> Inl (Fault ''fileselect'')
      | Some f \<Rightarrow> bind_res (on_kern (fileselect devsw f i v i) s) (\<lambda>(_, s). Inr s))"

definition register_step :: "cons_st devfns list \<Rightarrow> nat \<Rightarrow> i32 \<Rightarrow> i32 \<Rightarrow> nat \<Rightarrow> 'a proc_st_scheme \<Rightarrow> 'a proc_st_scheme res" where
  "register_step devsw i rd wr x s =
     (let fo = ofile (procs s ! i) ! x in
      bind_res (if fd_isset x rd \<noteq> 0 then register_one devsw i 5 fo s else Inr s) (\<lambda>s.
      if fd_isset x wr \<noteq> 0 then register_one devsw i 6 fo s else Inr s))"

definition clear_one :: "cons_st devfns list \<Rightarrow> nat \<Rightarrow> nat option \<Rightarrow> 'a proc_st_scheme \<Rightarrow> 'a proc_st_scheme res" where
  "clear_one devsw i fo s =
     (case fo of None \<Rightarrow> Inl (Fault ''fileclrsel'')
      | Some f \<Rightarrow> bind_res (on_kern (fileclrsel devsw f i (selid (procs s ! i))) s) (\<lambda>(_, s). Inr s))"

definition clear_step :: "cons_st devfns list \<Rightarrow> nat \<Rightarrow> i32 \<Rightarrow> i32 \<Rightarrow> nat \<Rightarrow> 'a proc_st_scheme \<Rightarrow> 'a proc_st_scheme res" where
  "clear_step devsw i rd wr x s =
     (let fo = ofile (procs s ! i) ! x in
      bind_res (if fd_isset x rd \<noteq> 0 then clear_one devsw i fo s else Inr s) (\<lambda>s.
      if fd_isset x wr \<noteq> 0 then clear_one devsw i fo s else Inr s))"

definition select_round :: "cons_st devfns list \<Rightarrow> nat \<Rightarrow> nat \<Rightarrow> u32 \<Rightarrow> u32 \<Rightarrow> ('a, fileret) call" where
  "select_round devsw i nfds readfds writefds s =
     (let word = (\<lambda>a. load32 (user_view (pmem s) (pgdir (procs s ! i))) a); rd = word readfds; wr = word writefds in
      bind_res (for_res [0..<nfds] (ready_step devsw (cur_killed i s) (ofile (procs s ! i)) rd wr (kern s)) (0, 0)) (\<lambda>(rs, ws).
      if rs \<noteq> 0 \<or> ws \<noteq> 0 then
        bind_res (put_user readfds (bytes_of_u32 rs) i s) (\<lambda>s.
        bind_res (put_user writefds (bytes_of_u32 ws) i s) (\<lambda>s.
        bind_res (slock_release (SelectLock i) s) (\<lambda>s. Inr (FRet 0, s))))
      else
        bind_res (for_res [0..<nfds] (register_step devsw i rd wr) s) (\<lambda>s.
        bind_res (sleep (Some (SelChan i)) (Some (SelectLock i)) s) (\<lambda>(v, s). Inr (FBlocked v, s)))))"

definition sys_select :: "cons_st devfns list \<Rightarrow> ('a, fileret) call" where
  "sys_select devsw s =
     with_proc (\<lambda>i.
       bind_res (argint 0 s) (\<lambda>a. case a of None \<Rightarrow> Inr (FRet (- 1), s) | Some nfds \<Rightarrow>
       bind_res (argptr 1 4 s) (\<lambda>a. case a of None \<Rightarrow> Inr (FRet (- 1), s) | Some readfds \<Rightarrow>
       bind_res (argptr 2 4 s) (\<lambda>a. case a of None \<Rightarrow> Inr (FRet (- 1), s) | Some writefds \<Rightarrow>
       bind_res (slock_acquire (SelectLock i) s) (select_round devsw i (nat (sint nfds)) readfds writefds))))) s"

definition sys_select_in :: "cons_st devfns list \<Rightarrow> nat \<Rightarrow> u32 \<Rightarrow> u32 \<Rightarrow> u32 \<Rightarrow> ('a, fileret) call" where
  "sys_select_in devsw nfds readfds writefds saved s =
     with_proc (\<lambda>i.
       let word = (\<lambda>a. load32 (user_view (pmem s) (pgdir (procs s ! i))) a); rd = word readfds; wr = word writefds in
       bind_res (sleep_in (SelectLock i) saved s) (\<lambda>s.
       bind_res (for_res [0..<nfds] (clear_step devsw i rd wr) s) (\<lambda>s.
       select_round devsw i nfds readfds writefds s))) s"

end
