(* ===== verification/Exec.thy ===== *)
theory Exec
  imports Sysfile
begin

text \<open>
  Loading a program: \<open>exec\<close> of \<open>src/exec.c\<close>, \<open>loaduvm\<close> of \<open>src/vm.c\<close> and \<open>sys_exec\<close> of \<open>src/sysfile.c\<close>.
  The headers of \<open>src/elf.h\<close> are read from the bytes of the file. The argument strings are lists of bytes
  without their final zero. The address of the linker symbol \<open>data\<close> is the argument \<open>kdata\<close>.
\<close>

section \<open>Definitions\<close>

definition MAXARG :: nat where "MAXARG = 32"
definition ELF_MAGIC :: u32 where "ELF_MAGIC = 0x464C457F"
definition ELF_PROG_LOAD :: u32 where "ELF_PROG_LOAD = 1"

record elfhdr =
  elf_magic :: u32
  elf_entry :: u32
  elf_phoff :: u32
  elf_phnum :: u16

record proghdr =
  ph_type :: u32
  ph_off :: u32
  ph_vaddr :: u32
  ph_filesz :: u32
  ph_memsz :: u32

definition elf_of :: "u8 list \<Rightarrow> elfhdr" where
  "elf_of d = \<lparr>elf_magic = word_at d 0, elf_entry = word_at d 6, elf_phoff = word_at d 7, elf_phnum = ucast (word_at d 11)\<rparr>"

definition proghdr_of :: "u8 list \<Rightarrow> proghdr" where
  "proghdr_of d = \<lparr>ph_type = word_at d 0, ph_off = word_at d 1, ph_vaddr = word_at d 2, ph_filesz = word_at d 4, ph_memsz = word_at d 5\<rparr>"

definition on_vm :: "(prng_st \<Rightarrow> ('r \<times> prng_st) res) \<Rightarrow> cons_st \<Rightarrow> ('r \<times> cons_st) res" where
  "on_vm f s = bind_res (f (kst s)) (\<lambda>(r, k). Inr (r, s\<lparr>kst := k\<rparr>))"

function loaduvm_loop :: "cons_st devfns list \<Rightarrow> u32 \<Rightarrow> u32 \<Rightarrow> nat \<Rightarrow> u32 \<Rightarrow> nat \<Rightarrow> nat \<Rightarrow> cons_st \<Rightarrow> (i32 \<times> cons_st) res" where
  "loaduvm_loop devsw d addr ip offset i sz s =
     (if i < sz then
        bind_res (on_vm (walkpgdir d (addr + of_nat i) False) s) (\<lambda>(pte, s).
        if pte = 0 then Inl (Panic ''loaduvm: address should exist'')
        else
          (let pa = PTE_ADDR (load32 (mem (kst s)) pte); n = min (sz - i) PGSIZE in
           bind_res (readi devsw ip (offset + of_nat i) (of_nat n) s) (\<lambda>((r, bs), s).
           let s = s\<lparr>kst := (kst s)\<lparr>mem := store_bytes (mem (kst s)) (P2V pa) bs\<rparr>\<rparr> in
           if r \<noteq> of_nat n then Inr (- 1, s)
           else loaduvm_loop devsw d addr ip offset (i + PGSIZE) sz s)))
      else Inr (0, s))"
  by pat_completeness auto
termination
  by (relation "measure (\<lambda>(devsw, d, addr, ip, offset, i, sz, s). sz - i)") (auto simp: PGSIZE_def)

definition loaduvm :: "cons_st devfns list \<Rightarrow> u32 \<Rightarrow> u32 \<Rightarrow> nat \<Rightarrow> u32 \<Rightarrow> u32 \<Rightarrow> cons_st \<Rightarrow> (i32 \<times> cons_st) res" where
  "loaduvm devsw d addr ip offset sz s =
     (if addr mod of_nat PGSIZE \<noteq> 0 then Inl (Panic ''loaduvm: addr must be page aligned'')
      else loaduvm_loop devsw d addr ip offset 0 (unat sz) s)"

text \<open>The loop over the program headers; \<open>None\<close> is \<open>goto bad\<close>.\<close>

primrec load_segments :: "cons_st devfns list \<Rightarrow> u32 \<Rightarrow> nat \<Rightarrow> u32 \<Rightarrow> nat \<Rightarrow> u32 \<Rightarrow> cons_st \<Rightarrow> (u32 option \<times> cons_st) res" where
  "load_segments devsw d ip off 0 sz s = Inr (Some sz, s)"
| "load_segments devsw d ip off (Suc n) sz s =
     bind_res (readi devsw ip off 32 s) (\<lambda>((r, bs), s).
     if r \<noteq> 32 then Inr (None, s)
     else
       (let ph = proghdr_of bs in
        if ph_type ph \<noteq> ELF_PROG_LOAD then load_segments devsw d ip (off + 32) n sz s
        else if ph_memsz ph < ph_filesz ph then Inr (None, s)
        else if ph_vaddr ph + ph_memsz ph < ph_vaddr ph then Inr (None, s)
        else
          bind_res (on_vm (allocuvm d sz (ph_vaddr ph + ph_memsz ph)) s) (\<lambda>(sz, s).
          if sz = 0 then Inr (None, s)
          else if ph_vaddr ph mod of_nat PGSIZE \<noteq> 0 then Inr (None, s)
          else
            bind_res (loaduvm devsw d (ph_vaddr ph) ip (ph_off ph) (ph_filesz ph) s) (\<lambda>(r, s).
            if sint r < 0 then Inr (None, s)
            else load_segments devsw d ip (off + 32) n sz s))))"

text \<open>\<open>bad\<close> while the inode is still locked, and after it has been put.\<close>

definition free_dir :: "u32 \<Rightarrow> cons_st \<Rightarrow> cons_st res" where
  "free_dir d s = (if d \<noteq> 0 then on_kst (freevm d) s else Inr s)"

definition exec_bad :: "u32 \<Rightarrow> nat \<Rightarrow> cons_st \<Rightarrow> ('r option \<times> cons_st) res" where
  "exec_bad d ip s =
     bind_res (free_dir d s) (\<lambda>s.
     bind_res (iunlockput ip s) (\<lambda>s.
     bind_res (end_op s) (\<lambda>s. Inr (None, s))))"

text \<open>
  The image: page directory, size and entry point. The result of \<open>readi\<close> is compared with \<open>sizeof(elf)\<close> as an unsigned number,
  so a result of -1 passes; \<open>stack\<close> is then what \<open>elf\<close> holds.
\<close>

definition exec_image :: "cons_st devfns list \<Rightarrow> u32 \<Rightarrow> nat \<Rightarrow> u8 list \<Rightarrow> u8 list \<Rightarrow> u8 list \<Rightarrow> cons_st \<Rightarrow> ((u32 \<times> u32 \<times> u32) option \<times> cons_st) res" where
  "exec_image devsw kdata wd stack elfstack path s =
     bind_res (begin_op s) (\<lambda>s.
     bind_res (namei devsw wd stack path s) (\<lambda>(r, s).
     case r of None \<Rightarrow> bind_res (end_op s) (\<lambda>s. Inr (None, s)) | Some ip \<Rightarrow>
     bind_res (ilock (Some ip) s) (\<lambda>s.
     bind_res (readi devsw ip 0 52 s) (\<lambda>((r, bs), s).
     let elf = elf_of (bs @ drop (length bs) elfstack) in
     if r < 52 then exec_bad 0 ip s
     else if elf_magic elf \<noteq> ELF_MAGIC then exec_bad 0 ip s
     else
       bind_res (on_vm (setupkvm kdata) s) (\<lambda>(d, s).
       if d = 0 then exec_bad 0 ip s
       else
         bind_res (load_segments devsw d ip (elf_phoff elf) (unat (elf_phnum elf)) 0 s) (\<lambda>(r, s).
         case r of None \<Rightarrow> exec_bad d ip s | Some sz \<Rightarrow>
         bind_res (iunlockput ip s) (\<lambda>s.
         bind_res (end_op s) (\<lambda>s. Inr (Some (d, sz, elf_entry elf), s)))))))))"

definition exec_drop :: "u32 \<Rightarrow> cons_st \<Rightarrow> ('r option \<times> cons_st) res" where
  "exec_drop d s = bind_res (free_dir d s) (\<lambda>s. Inr (None, s))"

text \<open>The argument strings, pushed from the top of the stack down, and the words of \<open>ustack\<close> for them.\<close>

primrec push_args :: "u32 \<Rightarrow> u8 list list \<Rightarrow> nat \<Rightarrow> u32 \<Rightarrow> u32 list \<Rightarrow> cons_st \<Rightarrow> ((u32 \<times> u32 list) option \<times> cons_st) res" where
  "push_args d [] argc sp us s = Inr (Some (sp, us), s)"
| "push_args d (arg # args) argc sp us s =
     (if MAXARG \<le> argc then Inr (None, s)
      else
        (let sp = (sp - of_nat (length arg + 1)) AND NOT 3 in
         bind_res (on_vm (copyout d sp (arg @ [0])) s) (\<lambda>(r, s).
         if sint r < 0 then Inr (None, s) else push_args d args (argc + 1) sp (us @ [sp]) s)))"

definition exec_push :: "u32 \<Rightarrow> u32 \<Rightarrow> u8 list list \<Rightarrow> cons_st \<Rightarrow> ((u32 \<times> u32) option \<times> cons_st) res" where
  "exec_push d sz args s =
     bind_res (push_args d args 0 sz [] s) (\<lambda>(r, s).
     case r of None \<Rightarrow> exec_drop d s | Some (sp, us) \<Rightarrow>
     (let argc = length args;
        ustack = [0xFFFFFFFF, of_nat argc, sp - of_nat ((argc + 1) * 4)] @ us @ [0];
        sp = sp - of_nat ((3 + argc + 1) * 4) in
      bind_res (on_vm (copyout d sp (concat (map bytes_of_u32 ustack))) s) (\<lambda>(r, s).
      if sint r < 0 then exec_drop d s else Inr (Some (sz, sp), s))))"

definition exec_stack :: "u32 \<Rightarrow> u32 \<Rightarrow> u8 list list \<Rightarrow> cons_st \<Rightarrow> ((u32 \<times> u32) option \<times> cons_st) res" where
  "exec_stack d sz args s =
     bind_res (on_vm (allocuvm d (PGROUNDUP sz) (PGROUNDUP sz + 2 * of_nat PGSIZE)) s) (\<lambda>(sz, s).
     if sz = 0 then exec_drop d s
     else bind_res (on_kst (clearpteu d (sz - 2 * of_nat PGSIZE)) s) (exec_push d sz args))"

text \<open>The part of the path after the last slash.\<close>

definition last_part :: "u8 list \<Rightarrow> u8 list" where
  "last_part path = rev (takeWhile (\<lambda>c. c \<noteq> slash) (rev path))"

definition exec :: "cons_st devfns list \<Rightarrow> u32 \<Rightarrow> u8 list \<Rightarrow> u8 list \<Rightarrow> u8 list \<Rightarrow> u8 list list \<Rightarrow> 'a proc_st_scheme \<Rightarrow> (i32 \<times> 'a proc_st_scheme) res" where
  "exec devsw kdata stack elfstack path args s =
     with_proc (\<lambda>i.
       bind_res (cur_cwd i s) (\<lambda>wd.
       bind_res (on_kern (exec_image devsw kdata wd stack elfstack path) s) (\<lambda>(r, s).
       case r of None \<Rightarrow> Inr (- 1, s) | Some (d, sz, entry) \<Rightarrow>
       bind_res (on_kern (exec_stack d sz args) s) (\<lambda>(r, s).
       case r of None \<Rightarrow> Inr (- 1, s) | Some (sz, sp) \<Rightarrow>
       (let oldpgdir = pgdir (procs s ! i);
          s = upd_proc i (\<lambda>p. p\<lparr>pname := set_name (pname p) (last_part path @ [0]), pgdir := d, psz := sz\<rparr>) s;
          tf = ptf (procs s ! i);
          s = set_mem (\<lambda>m. store32 (store32 m (tf + tf_eip) entry) (tf + tf_esp) sp) s in
        bind_res (do_mem (freevm oldpgdir) s) (\<lambda>s. Inr (0, s))))))) s"

text \<open>The loop of \<open>sys_exec\<close> over the argument vector.\<close>

primrec exec_args :: "u32 \<Rightarrow> nat \<Rightarrow> nat \<Rightarrow> 'a proc_st_scheme \<Rightarrow> u8 list list option res" where
  "exec_args uargv i 0 s = Inr None"
| "exec_args uargv i (Suc n) s =
     bind_res (fetchint (uargv + 4 * of_nat i) s) (\<lambda>a. case a of None \<Rightarrow> Inr None | Some uarg \<Rightarrow>
     if uarg = 0 then Inr (Some [])
     else
       bind_res (fetchstr uarg s) (\<lambda>a. case a of None \<Rightarrow> Inr None | Some al \<Rightarrow>
       bind_res (str_bytes al s) (\<lambda>bs.
       bind_res (exec_args uargv (i + 1) n s) (\<lambda>r. Inr (map_option ((#) bs) r)))))"

definition sys_exec :: "cons_st devfns list \<Rightarrow> u32 \<Rightarrow> u8 list \<Rightarrow> u8 list \<Rightarrow> ('a, fileret) call" where
  "sys_exec devsw kdata stack elfstack s =
     bind_res (argstr 0 s) (\<lambda>a. case a of None \<Rightarrow> Inr (FRet (- 1), s) | Some path \<Rightarrow>
     bind_res (argint 1 s) (\<lambda>a. case a of None \<Rightarrow> Inr (FRet (- 1), s) | Some uargv \<Rightarrow>
     bind_res (str_bytes path s) (\<lambda>path.
     bind_res (exec_args uargv 0 MAXARG s) (\<lambda>r.
     case r of None \<Rightarrow> Inr (FRet (- 1), s) | Some args \<Rightarrow>
     fret (exec devsw kdata stack elfstack path args s)))))"


section \<open>The arguments on the new stack\<close>

definition user_string :: "memory \<Rightarrow> u32 \<Rightarrow> u32 \<Rightarrow> u8 list \<Rightarrow> bool" where
  "user_string m d a bs \<longleftrightarrow> (\<forall>j<length bs. user_byte m d (a + of_nat j) = Some (bs ! j))"

text \<open>Room for the strings, each with its zero and rounded to a word.\<close>

definition args_room :: "u8 list list \<Rightarrow> nat" where
  "args_room args = sum_list (map (\<lambda>a. length a + 4) args)"

lemma word_mask: "unat (x AND - 4 :: u32) = unat x div 4 * 4"
proof -
  have m: "(- 4 :: u32) = NOT (mask 2)" by (simp add: mask_eq_exp_minus_1)
  have "x AND - 4 = push_bit 2 (drop_bit 2 x)" unfolding m
  proof (rule bit_word_eqI)
    fix n
    have "2 \<le> n \<Longrightarrow> Suc (Suc (n - 2)) = n" by simp
    then show "bit (x AND NOT (mask 2)) n = bit (push_bit 2 (drop_bit 2 x)) n" if "n < LENGTH(32)"
      using that by (auto simp: bit_simps)
  qed
  then have "x AND - 4 = x div 4 * 4" by (simp add: push_bit_eq_mult drop_bit_eq_div)
  then show ?thesis
    using unat_less_exp32 [of x] div_times_less_eq_dividend [of "unat x" 4] by (simp add: unat_word_ariths unat_div)
qed

lemma next_sp:
  assumes "length arg + 4 \<le> unat sp"
  shows "unat ((sp - of_nat (length arg + 1)) AND NOT 3 :: u32) + (length arg + 1) \<le> unat sp"
    "unat sp \<le> unat ((sp - of_nat (length arg + 1)) AND NOT 3) + (length arg + 4)"
proof -
  let ?n = "length arg + 1"
  have "?n < 2 ^ 32" using assms unat_less_exp32 [of sp] by linarith
  then have n: "unat (of_nat ?n :: u32) = ?n" unfolding unat_of_nat by simp
  then have "unat (sp - of_nat ?n) = unat sp - ?n" using assms by (simp add: unat_sub word_le_nat_alt del: of_nat_add)
  moreover have "(NOT 3 :: u32) = - 4" by simp
  ultimately have "unat ((sp - of_nat ?n) AND NOT 3) = (unat sp - ?n) div 4 * 4" using word_mask by simp
  then show "unat ((sp - of_nat ?n) AND NOT 3) + ?n \<le> unat sp" "unat sp \<le> unat ((sp - of_nat ?n) AND NOT 3) + (length arg + 4)"
    using assms by linarith+
qed

text \<open>What pushing leaves: the strings, and the memory above the old stack pointer as it was.\<close>

definition pushed :: "u32 \<Rightarrow> u8 list list \<Rightarrow> u32 \<Rightarrow> u32 list \<Rightarrow> u32 \<Rightarrow> memory \<Rightarrow> memory \<Rightarrow> bool" where
  "pushed d args sp vs sp' m m' \<longleftrightarrow> length vs = length args \<and> (\<forall>k<length args. user_string m' d (vs ! k) (args ! k @ [0]))
     \<and> (\<forall>k<length args. unat sp' \<le> unat (vs ! k) \<and> unat (vs ! k) + length (args ! k) + 1 \<le> 2 ^ 32)
     \<and> (\<forall>w. unat sp \<le> unat w \<longrightarrow> user_byte m' d w = user_byte m d w) \<and> unat sp' \<le> unat sp \<and> unat sp \<le> unat sp' + args_room args"

lemma copyout_result: "copyout d sp bs s = Inr (r, t) \<Longrightarrow> r = 0 \<or> r = - 1"
proof (induction d sp bs s rule: copyout.induct)
  case (1 d sp bs s)
  then show ?case by (subst (asm) (2) copyout.simps) (auto simp: bind_res_eq_Inr Let_def split: if_splits)
qed

lemma copyout_string:
  assumes "on_vm (copyout d sp bs) s = Inr (r, t)" and "\<not> sint r < 0" and "tables_apart (mem (kst s)) d" "frames_distinct (mem (kst s)) d"
    and "unat sp + length bs \<le> 2 ^ 32"
  shows "user_string (mem (kst t)) d sp bs" "\<And>w. unat sp + length bs \<le> unat w \<Longrightarrow> user_byte (mem (kst t)) d w = user_byte (mem (kst s)) d w"
    "tables_apart (mem (kst t)) d" "frames_distinct (mem (kst t)) d"
proof -
  obtain k where k: "copyout d sp bs (kst s) = Inr (r, k)" "kst t = k" using assms(1) by (auto simp: on_vm_def bind_res_eq_Inr)
  have r: "r = 0" using copyout_result [OF k(1)] assms(2) by auto
  note b = copyout_bytes [OF k(1) assms(3-5)]
  have "unat (sp + of_nat j) = unat sp + j" if "j < length bs" for j
    using that assms(5) by (simp add: unat_word_ariths unat_of_nat)
  then show "user_string (mem (kst t)) d sp bs"
    using b r unfolding user_string_def k(2) by simp
  show "user_byte (mem (kst t)) d w = user_byte (mem (kst s)) d w" if "unat sp + length bs \<le> unat w" for w
    using b [of w] r that unfolding k(2) by simp
  show "tables_apart (mem (kst t)) d" "frames_distinct (mem (kst t)) d"
    using copyout_keeps [OF k(1) assms(3-5)] unfolding k(2) by simp_all
qed

lemma push_args_pushed:
  "push_args d args argc sp us s = Inr (Some (sp', us'), t) \<Longrightarrow> tables_apart (mem (kst s)) d \<Longrightarrow> frames_distinct (mem (kst s)) d
    \<Longrightarrow> args_room args \<le> unat sp
    \<Longrightarrow> \<exists>vs. us' = us @ vs \<and> pushed d args sp vs sp' (mem (kst s)) (mem (kst t)) \<and> tables_apart (mem (kst t)) d \<and> frames_distinct (mem (kst t)) d"
proof (induction args arbitrary: argc sp us s)
  case Nil
  then show ?case by (auto simp: pushed_def args_room_def)
next
  case (Cons arg args)
  define sq where "sq = (sp - of_nat (length arg + 1)) AND NOT 3"
  have room: "length arg + 4 + args_room args \<le> unat sp" using Cons.prems(4) by (simp add: args_room_def)
  have sq: "unat sq + (length arg + 1) \<le> unat sp" "unat sp \<le> unat sq + (length arg + 4)"
    using next_sp [of arg sp] room unfolding sq_def by simp_all
  obtain r u where u: "on_vm (copyout d sq (arg @ [0])) s = Inr (r, u)" "\<not> sint r < 0" "push_args d args (argc + 1) sq (us @ [sq]) u = Inr (Some (sp', us'), t)"
    using Cons.prems(1) by (auto simp: sq_def Let_def bind_res_eq_Inr split: if_splits)
  have fit: "unat sq + length (arg @ [0 :: u8]) \<le> 2 ^ 32" using sq(1) unat_less_exp32 [of sp] by simp
  note c = copyout_string [OF u(1,2) Cons.prems(2,3) fit]
  obtain vs where vs: "us' = (us @ [sq]) @ vs" "pushed d args sq vs sp' (mem (kst u)) (mem (kst t))" "tables_apart (mem (kst t)) d" "frames_distinct (mem (kst t)) d"
    using Cons.IH [OF u(3) c(3,4)] room sq(2) by auto
  have keep: "user_byte (mem (kst t)) d w = user_byte (mem (kst u)) d w" if "unat sq \<le> unat w" for w
    using vs(2) that by (simp add: pushed_def)
  have "user_string (mem (kst t)) d sq (arg @ [0])"
    unfolding user_string_def
  proof (intro allI impI)
    fix j assume j: "j < length (arg @ [0 :: u8])"
    have "unat (sq + of_nat j) = unat sq + j" using j fit by (simp add: unat_word_ariths unat_of_nat)
    then show "user_byte (mem (kst t)) d (sq + of_nat j) = Some ((arg @ [0]) ! j)" using keep [of "sq + of_nat j"] c(1) j by (simp add: user_string_def)
  qed
  then have "pushed d (arg # args) sp (sq # vs) sp' (mem (kst s)) (mem (kst t))"
    using vs(2) keep c(2) sq fit by (auto simp: pushed_def args_room_def less_Suc_eq_0_disj)
  then show ?case using vs by auto
qed

lemma length_arg_words: "length (concat (map bytes_of_u32 ws)) = 4 * length ws"
  by (induction ws) simp_all

text \<open>
  C19: when \<open>exec\<close> has built the stack of the new program, the user finds at the stack pointer the false return address, the number of
  arguments, the address of the vector, the vector of pointers and a null pointer, and at the k-th pointer the k-th argument
  with its final zero. The strings and the vector have room below \<open>sz\<close>.
\<close>

theorem exec_push_layout:
  assumes "exec_push d sz args s = Inr (Some (sz', sp), t)" and "tables_apart (mem (kst s)) d" and "frames_distinct (mem (kst s)) d"
    and "args_room args + 4 * (length args + 4) \<le> unat sz"
  shows "sz' = sz \<and> (\<exists>vs. length vs = length args
     \<and> user_string (mem (kst t)) d sp (concat (map bytes_of_u32 ([0xFFFFFFFF, of_nat (length args), sp + 12] @ vs @ [0])))
     \<and> (\<forall>k<length args. user_string (mem (kst t)) d (vs ! k) (args ! k @ [0])))"
proof -
  let ?n = "(3 + length args + 1) * 4"
  obtain sq us u r where u: "push_args d args 0 sz [] s = Inr (Some (sq, us), u)" "sp = sq - of_nat ?n" "sz' = sz"
      "on_vm (copyout d sp (concat (map bytes_of_u32 ([0xFFFFFFFF, of_nat (length args), sq - of_nat ((length args + 1) * 4)] @ us @ [0])))) u = Inr (r, t)"
      "\<not> sint r < 0"
    using assms(1) by (auto simp: exec_push_def exec_drop_def bind_res_eq_Inr Let_def split: option.splits if_splits)
  have p: "pushed d args sz us sq (mem (kst s)) (mem (kst u))" "tables_apart (mem (kst u)) d" "frames_distinct (mem (kst u)) d"
    using push_args_pushed [OF u(1) assms(2,3)] assms(4) by auto
  have len: "length us = length args" and low: "?n \<le> unat sq" using p(1) assms(4) by (simp_all add: pushed_def)
  have nn: "unat (of_nat ?n :: u32) = ?n" using low unat_less_exp32 [of sq] unfolding unat_of_nat by simp
  have sp: "unat sp + ?n = unat sq" unfolding u(2) using low nn by (simp add: unat_sub word_le_nat_alt del: of_nat_add of_nat_mult)
  have vec: "sq - of_nat ((length args + 1) * 4) = sp + 12" unfolding u(2) by (simp add: algebra_simps)
  define ws where "ws = [0xFFFFFFFF, of_nat (length args), sp + 12] @ us @ [0 :: u32]"
  have lw: "length (concat (map bytes_of_u32 ws)) = ?n" unfolding length_arg_words by (simp add: ws_def len)
  have fit: "unat sp + length (concat (map bytes_of_u32 ws)) \<le> 2 ^ 32" using sp lw unat_less_exp32 [of sq] by simp
  have cp: "on_vm (copyout d sp (concat (map bytes_of_u32 ws))) u = Inr (r, t)" using u(4) unfolding vec ws_def .
  note c = copyout_string [OF cp u(5) p(2,3) fit]
  have "user_string (mem (kst t)) d (us ! k) (args ! k @ [0])" if k: "k < length args" for k
    unfolding user_string_def
  proof (intro allI impI)
    fix j assume j: "j < length (args ! k @ [0 :: u8])"
    have q: "unat sq \<le> unat (us ! k)" "unat (us ! k) + length (args ! k) + 1 \<le> 2 ^ 32" "user_string (mem (kst u)) d (us ! k) (args ! k @ [0])"
      using p(1) k by (simp_all add: pushed_def)
    have "unat (us ! k + of_nat j) = unat (us ! k) + j" using j q(2) by (simp add: unat_word_ariths unat_of_nat)
    then show "user_byte (mem (kst t)) d (us ! k + of_nat j) = Some ((args ! k @ [0]) ! j)"
      using c(2) [of "us ! k + of_nat j"] sp lw q(1,3) j by (simp add: user_string_def)
  qed
  then show ?thesis using c(1) len u(3) unfolding ws_def by blast
qed

lemma copyout_one_page:
  assumes "upage (mem s) d 0 = Some p" and "p \<noteq> 0" and "PGROUNDDOWN sp = 0" and "unat sp + length bs \<le> 4096" and "bs \<noteq> []"
  shows "copyout d sp bs s = Inr (0, s\<lparr>mem := store_bytes (mem s) (p + sp) bs\<rparr>)"
proof -
  have u: "uva2ka d 0 s = Inr p"
    using assms(1) by (auto simp: upage_def uva2ka_def walkpgdir_def Let_def split: if_splits)
  have "min (PGSIZE - unat (sp - 0)) (length bs) = length bs" using assms(4) by (simp add: PGSIZE_def)
  then show ?thesis using assms u by (subst copyout.simps) (simp add: Let_def copyout.simps [of d "of_nat PGSIZE"])
qed

theorem exec_push_layout_witness:
  "\<exists>t vs. exec_push 0x80001000 4096 [[104, 105]] (idle_kern (four_pages\<lparr>mem := vm_mem\<rparr>)) = Inr (Some (4096, 4072), t) \<and> length vs = 1
     \<and> user_string (mem (kst t)) 0x80001000 4072 (concat (map bytes_of_u32 ([0xFFFFFFFF, 1, 4084] @ vs @ [0])))
     \<and> user_string (mem (kst t)) 0x80001000 (vs ! 0) [104, 105, 0]"
proof -
  let ?s = "idle_kern (four_pages\<lparr>mem := vm_mem\<rparr>)"
  have m: "mem (kst ?s) = vm_mem" by (simp add: idle_kern_def)
  have up: "upage vm_mem 0x80001000 0 = Some 0x80003000" by (simp add: vm_mem_upage PDX_def PTX_def)
  have sp: "(4096 - of_nat (length [104, 105 :: u8] + 1) :: u32) AND NOT 3 = 4092" by simp
  define k1 where "k1 = (kst ?s)\<lparr>mem := store_bytes vm_mem (0x80003000 + 4092) [104, 105, 0]\<rparr>"
  have pg: "PGROUNDDOWN 4092 = 0" "PGROUNDDOWN 4072 = 0" by (simp_all add: PGROUNDDOWN_def PGSIZE_def)
  have 1: "copyout 0x80001000 4092 [104, 105, 0] (kst ?s) = Inr (0, k1)"
    using copyout_one_page [of "kst ?s" "0x80001000" "0x80003000" 4092 "[104, 105, 0]"] up pg(1) by (simp add: m k1_def)
  have "upage (mem k1) 0x80001000 = upage vm_mem 0x80001000"
    using upage_agree(1) [OF vm_mem_apart(1) only_range_agree, of "mem k1" 4092 "Suc (Suc (Suc 0))"] copyout_writes [OF 1] vm_mem_apart by (simp add: m)
  then have 2: "\<exists>k. copyout 0x80001000 4072 (concat (map bytes_of_u32 [0xFFFFFFFF, 1, 4084, 4092, 0])) k1 = Inr (0, k)"
    using copyout_one_page [of k1 "0x80001000" "0x80003000" 4072 "concat (map bytes_of_u32 [0xFFFFFFFF, 1, 4084, 4092, 0])"] up pg(2)
    by (auto simp: length_arg_words bytes_of_u32_def)
  then obtain t where t: "exec_push 0x80001000 4096 [[104, 105]] ?s = Inr (Some (4096, 4072), t)"
    using 1 by (auto simp: exec_push_def on_vm_def MAXARG_def idle_kern_def)
  have "args_room [[104, 105]] + 4 * (length [[104, 105 :: u8]] + 4) \<le> unat (4096 :: u32)" by (simp add: args_room_def)
  from exec_push_layout [OF t _ _ this] vm_mem_apart t show ?thesis by (auto simp: m)
qed

end
