(* ===== verification/Trap.thy ===== *)
theory Trap
  imports Exec
begin

text \<open>
  Traps: the system call dispatcher of \<open>src/syscall.c\<close>, \<open>trap\<close> of \<open>src/trap.c\<close> and the serial input of \<open>src/uart.c\<close>. What
  the devices deliver and what the uninitialised local variables of the calls hold are in the record \<open>kenv\<close>. The disk is the
  one of \<open>src/memide.c\<close>, whose interrupt handler does nothing; acknowledging an interrupt is not modelled.
\<close>

section \<open>Definitions\<close>

record kenv =
  e_devsw :: "cons_st devfns list"
  e_stack :: "u8 list"
  e_elf :: "u8 list"
  e_trapret :: u32
  e_forkret :: u32
  e_kdata :: u32
  e_shl :: shift
  e_numbytes :: i32
  e_bytesout :: u32
  e_nameaddr :: u32
  e_uart :: bool
  e_uartports :: "(u8 \<times> u8) list"
  e_kbdports :: "(u8 \<times> u8) list"

record trap_st = proc_st +
  interrupt_timing_pool :: u32
  keyboard_timing_pool :: u32
  kbd_shift :: u32

subsection \<open>The dispatcher\<close>

definition lift_ret :: "(sysret \<times> 'a proc_st_scheme) res \<Rightarrow> (fileret \<times> 'a proc_st_scheme) res" where
  "lift_ret r = bind_res r (\<lambda>(v, s). Inr (case v of Ret x \<Rightarrow> FRet x | Blocked x \<Rightarrow> FBlocked x, s))"

definition syscalls :: "kenv \<Rightarrow> (i32 \<times> ('a, fileret) call) list" where
  "syscalls e =
     [(1, \<lambda>s. lift_ret (sys_fork (e_trapret e) (e_forkret e) (e_kdata e) s)),
      (2, \<lambda>s. lift_ret (sys_exit s)),
      (3, \<lambda>s. lift_ret (sys_wait s)),
      (4, sys_pipe),
      (5, sys_read (e_devsw e)),
      (6, \<lambda>s. lift_ret (sys_kill s)),
      (7, sys_exec (e_devsw e) (e_kdata e) (e_stack e) (e_elf e)),
      (8, sys_fstat),
      (9, sys_chdir (e_devsw e) (e_stack e)),
      (10, sys_dup),
      (11, \<lambda>s. lift_ret (sys_getpid s)),
      (12, \<lambda>s. lift_ret (sys_sbrk s)),
      (13, \<lambda>s. lift_ret (sys_sleep s)),
      (14, \<lambda>s. lift_ret (sys_uptime s)),
      (15, sys_open (e_devsw e) (e_stack e)),
      (16, sys_write (e_devsw e)),
      (17, sys_mknod (e_devsw e) (e_stack e)),
      (18, sys_unlink (e_devsw e) (e_stack e)),
      (19, sys_link (e_devsw e) (e_stack e)),
      (20, sys_mkdir (e_devsw e) (e_stack e)),
      (21, sys_close),
      (22, sys_select (e_devsw e)),
      (23, \<lambda>s. lift_ret (sys_random_call (e_shl e) (e_numbytes e) (e_bytesout e) s)),
      (24, \<lambda>s. lift_ret (sys_encrypt s)),
      (25, \<lambda>s. lift_ret (sys_decrypt s))]"

definition set_eax :: "i32 \<Rightarrow> nat \<Rightarrow> 'a proc_st_scheme \<Rightarrow> 'a proc_st_scheme" where
  "set_eax v i s = set_mem (\<lambda>m. store32 m (ptf (procs s ! i) + tf_eax) v) s"

definition kprintf :: "kenv \<Rightarrow> nat \<Rightarrow> string \<Rightarrow> u32 list \<Rightarrow> 'a proc_st_scheme \<Rightarrow> 'a proc_st_scheme res" where
  "kprintf e i fmt args s = do_kern (cprintf (\<lambda>_. takeWhile (\<lambda>c. c \<noteq> 0) (pname (procs s ! i))) (Some (ascii fmt)) args) s"

definition newline :: string where "newline = [CHR 0x0A]"

definition syscall :: "kenv \<Rightarrow> ('a, fileret) call" where
  "syscall e s =
     with_proc (\<lambda>i.
       let num = load32 (pmem s) (ptf (procs s ! i) + tf_eax) in
       case (if sint num > 0 then map_of (syscalls e) num else None) of
         Some f \<Rightarrow>
           bind_res (f s) (\<lambda>(r, s).
           case r of FRet v \<Rightarrow> Inr (r, set_eax v i s) | _ \<Rightarrow> Inr (r, s))
       | None \<Rightarrow>
           bind_res (kprintf e i (''%d %s: unknown sys call %d'' @ newline) [ppid (procs s ! i), e_nameaddr e, num] s) (\<lambda>s.
           Inr (FRet (- 1), set_eax (- 1) i s))) s"

subsection \<open>Traps\<close>

definition T_SYSCALL :: u32 where "T_SYSCALL = 64"
definition T_IRQ0 :: u32 where "T_IRQ0 = 32"
definition IRQ_TIMER :: u32 where "IRQ_TIMER = 0"
definition IRQ_KBD :: u32 where "IRQ_KBD = 1"
definition IRQ_COM1 :: u32 where "IRQ_COM1 = 4"
definition IRQ_IDE :: u32 where "IRQ_IDE = 14"
definition IRQ_SPURIOUS :: u32 where "IRQ_SPURIOUS = 31"

text \<open>The characters of the serial port: one pair of status and data for each call of \<open>uartgetc\<close>.\<close>

definition uart_chars :: "bool \<Rightarrow> (u8 \<times> u8) list \<Rightarrow> i32 list" where
  "uart_chars uart ports = (if uart then map (\<lambda>(st, d). ucast d) (takeWhile (\<lambda>(st, d). st AND 1 \<noteq> 0) ports) else [])"

definition uartintr :: "bool \<Rightarrow> (u8 \<times> u8) list \<Rightarrow> cons_st \<Rightarrow> cons_st res" where
  "uartintr uart ports s = consoleintr (uart_chars uart ports) s"

definition tick_event :: "i32 \<Rightarrow> u32 \<Rightarrow> prng_st \<Rightarrow> prng_st res" where
  "tick_event src pool k =
     bind_res (acquire_ticks k) (\<lambda>k.
     bind_res (addRandomEvent src (pool mod of_nat MAX_POOLS) (Some (\<lambda>i. bytes_of_u32 (ticks k) ! i)) 4 k)
       release_ticks)"

text \<open>The statements of the clock interrupt between \<open>acquire\<close> and \<open>release\<close> of \<open>tickslock\<close>, one at a time, and all of them.\<close>

datatype tick_pc = TickAcquire | TickCount | TickWakeup | TickRelease | TickDone

fun timer_step :: "tick_pc \<Rightarrow> 'a proc_st_scheme \<Rightarrow> (tick_pc \<times> 'a proc_st_scheme) res" where
  "timer_step TickAcquire s = bind_res (do_mem acquire_ticks s) (\<lambda>s. Inr (TickCount, s))"
| "timer_step TickCount s =
     Inr (TickWakeup, s\<lparr>kern := (kern s)\<lparr>kst := (kst (kern s))\<lparr>ticks := ticks (kst (kern s)) + 1\<rparr>\<rparr>\<rparr>)"
| "timer_step TickWakeup s = bind_res (wakeup (Some TicksChan) s) (\<lambda>s. Inr (TickRelease, s))"
| "timer_step TickRelease s = bind_res (do_mem release_ticks s) (\<lambda>s. Inr (TickDone, s))"
| "timer_step TickDone s = Inr (TickDone, s)"

definition timer_tick :: "'a proc_st_scheme \<Rightarrow> 'a proc_st_scheme res" where
  "timer_tick s =
     bind_res (for_res [0..<4] (\<lambda>_ (p, s). timer_step p s) (TickAcquire, s)) (\<lambda>(p, s). Inr s)"

datatype trap_out = TrapDone | TrapExit u32 | TrapYield u32 | TrapWaits fileret

definition killed_proc :: "'a proc_st_scheme \<Rightarrow> bool" where
  "killed_proc s \<longleftrightarrow> (case cproc s of None \<Rightarrow> False | Some i \<Rightarrow> pkilled (procs s ! i) \<noteq> 0)"

definition trap_exit :: "('a, trap_out) call" where
  "trap_exit s = bind_res (exit s) (\<lambda>(v, s). Inr (TrapExit v, s))"

definition trap_syscall :: "kenv \<Rightarrow> u32 \<Rightarrow> ('a, trap_out) call" where
  "trap_syscall e tf s =
     with_proc (\<lambda>i.
       if killed_proc s then trap_exit s
       else
         bind_res (syscall e (upd_proc i (\<lambda>p. p\<lparr>ptf := tf\<rparr>) s)) (\<lambda>(r, s).
         case r of
           FRet v \<Rightarrow> if killed_proc s then trap_exit s else Inr (TrapDone, s)
         | _ \<Rightarrow> Inr (TrapWaits r, s))) s"

text \<open>\<open>cs\<close> is the saved code segment, whose low bits are the privilege; \<open>cpu\<close> the number of the CPU.\<close>

definition trap_switch :: "kenv \<Rightarrow> nat \<Rightarrow> u32 \<Rightarrow> u32 \<Rightarrow> u32 \<Rightarrow> u32 \<Rightarrow> u32 \<Rightarrow> 'a trap_st_scheme \<Rightarrow> 'a trap_st_scheme res" where
  "trap_switch e cpu trapno cs err eip cr2 s =
     (if trapno = T_IRQ0 + IRQ_TIMER then (if cpu = 0 then timer_tick s else Inr s)
      else if trapno = T_IRQ0 + IRQ_IDE \<or> trapno = T_IRQ0 + IRQ_IDE + 1 then Inr s
      else if trapno = T_IRQ0 + IRQ_KBD then
        bind_res (on_kern (kbdintr (e_kbdports e) (kbd_shift s)) s) (\<lambda>(sh, s). Inr (s\<lparr>kbd_shift := sh\<rparr>))
      else if trapno = T_IRQ0 + IRQ_COM1 then
        bind_res (do_mem (tick_event KEYBOARD_TIMING (keyboard_timing_pool s)) s) (\<lambda>s.
        do_kern (uartintr (e_uart e) (e_uartports e)) (s\<lparr>keyboard_timing_pool := keyboard_timing_pool s + 1\<rparr>))
      else if trapno = T_IRQ0 + 7 \<or> trapno = T_IRQ0 + IRQ_SPURIOUS then
        kprintf e 0 (''cpu%d: spurious interrupt at %x:%x'' @ newline) [of_nat cpu, cs, eip] s
      else
        (case cproc s of
           None \<Rightarrow> Inl (Panic ''trap'')
         | Some i \<Rightarrow>
             if cs AND 3 = 0 then Inl (Panic ''trap'')
             else
               bind_res (kprintf e i (''pid %d %s: trap %d err %d on cpu %d eip 0x%x addr 0x%x--kill proc'' @ newline)
                   [ppid (procs s ! i), e_nameaddr e, trapno, err, of_nat cpu, eip, cr2] s) (\<lambda>s.
               Inr (upd_proc i (\<lambda>p. p\<lparr>pkilled := 1\<rparr>) s))))"

definition trap :: "kenv \<Rightarrow> nat \<Rightarrow> u32 \<Rightarrow> u32 \<Rightarrow> u32 \<Rightarrow> u32 \<Rightarrow> u32 \<Rightarrow> u32 \<Rightarrow> 'a trap_st_scheme \<Rightarrow> (trap_out \<times> 'a trap_st_scheme) res" where
  "trap e cpu tf trapno cs err eip cr2 s =
     bind_res (do_mem (tick_event INTERRUPT_TIMING (interrupt_timing_pool s)) s) (\<lambda>s.
     let s = s\<lparr>interrupt_timing_pool := interrupt_timing_pool s + 1\<rparr> in
     if trapno = T_SYSCALL then trap_syscall e tf s
     else
       bind_res (trap_switch e cpu trapno cs err eip cr2 s) (\<lambda>s.
       if killed_proc s \<and> cs AND 3 = 3 then trap_exit s
       else
         (case cproc s of
            None \<Rightarrow> Inr (TrapDone, s)
          | Some i \<Rightarrow>
              if pstate (procs s ! i) = RUNNING \<and> trapno = T_IRQ0 + IRQ_TIMER
              then bind_res (yield s) (\<lambda>(v, s). Inr (TrapYield v, s))
              else Inr (TrapDone, s))))"

text \<open>The end of \<open>trap\<close> once the process runs again.\<close>

definition trap_in :: "u32 \<Rightarrow> u32 \<Rightarrow> ('a, trap_out) call" where
  "trap_in cs saved s =
     bind_res (yield_in saved s) (\<lambda>s.
     if killed_proc s \<and> cs AND 3 = 3 then trap_exit s else Inr (TrapDone, s))"


section \<open>Two CPUs\<close>

text \<open>
  Two CPUs that share the kernel's state: each has its own registers and interrupt state, its own current process and its own place
  in the clock interrupt or in the scheduler. A step of a CPU is one step of the function that it executes,
  on the shared state with its own part in place. A CPU that spins on a lock has no step.
\<close>

datatype place = InTimer tick_pc | InScheduler sched_pc

record machine =
  shared :: proc_st
  cpus :: "nat \<Rightarrow> cpu_st"
  curproc :: "nat \<Rightarrow> nat option"
  place :: "nat \<Rightarrow> place"

definition set_cpu :: "cpu_st \<Rightarrow> 'a cpu_st_scheme \<Rightarrow> 'a cpu_st_scheme" where
  "set_cpu c k = k\<lparr>cpuid := cpuid c, ncli := ncli c, intena := intena c, eflags := eflags c, argp := argp c, stackw := stackw c\<rparr>"

definition seen_by :: "nat \<Rightarrow> machine \<Rightarrow> proc_st" where
  "seen_by c m =
     (shared m)\<lparr>cproc := curproc m c, kern := (kern (shared m))\<lparr>kst := set_cpu (cpus m c) (kst (kern (shared m)))\<rparr>\<rparr>"

definition place_step :: "place \<Rightarrow> proc_st \<Rightarrow> (place \<times> proc_st) res" where
  "place_step l s =
     (case l of
        InTimer p \<Rightarrow> bind_res (timer_step p s) (\<lambda>(p, s). Inr (InTimer p, s))
      | InScheduler p \<Rightarrow> bind_res (scheduler p s) (\<lambda>(p, s). Inr (InScheduler p, s)))"

definition cpu_step :: "nat \<Rightarrow> machine \<Rightarrow> machine res" where
  "cpu_step c m =
     bind_res (place_step (place m c) (seen_by c m)) (\<lambda>(l, s).
     Inr (m\<lparr>shared := s, cpus := (cpus m)(c := cpu_st.truncate (kst (kern s))), curproc := (curproc m)(c := cproc s),
            place := (place m)(c := l)\<rparr>))"

inductive runs :: "machine \<Rightarrow> machine \<Rightarrow> bool" for m where
  start: "runs m m"
| more: "runs m m1 \<Longrightarrow> c < 2 \<Longrightarrow> cpu_step c m1 = Inr m2 \<Longrightarrow> runs m m2"

lemma set_cpu_simps [simp]: "cpuid (set_cpu c k) = cpuid c" "tickslock (set_cpu c k) = tickslock k"
  by (simp_all add: set_cpu_def)

lemma seen_by_simps [simp]:
  "procs (seen_by c m) = procs (shared m)" "ptable_lock (seen_by c m) = ptable_lock (shared m)"
  "kst (kern (seen_by c m)) = set_cpu (cpus m c) (kst (kern (shared m)))"
  by (simp_all add: seen_by_def)

lemma cpuid_truncate [simp]: "cpuid (cpu_st.truncate k) = cpuid k"
  by (simp add: cpu_st.truncate_def)

lemma acquire_other: "locked lk \<noteq> 0 \<Longrightarrow> lcpu lk \<noteq> Some (cpuid s) \<Longrightarrow> acquire lk s = Inl Diverge"
  by (simp add: acquire_def Let_def holding_def)

text \<open>Who holds the two locks, and what a step leaves alone while its CPU moves from one place to the next.\<close>

definition owner :: "spinlock \<Rightarrow> nat option" where
  "owner lk = (if locked lk = 0 then None else lcpu lk)"

abbreviation tick_owner :: "machine \<Rightarrow> nat option" where
  "tick_owner m \<equiv> owner (tickslock (kst (kern (shared m))))"

abbreviation table_owner :: "machine \<Rightarrow> nat option" where
  "table_owner m \<equiv> owner (ptable_lock (shared m))"

definition moves :: "nat \<Rightarrow> place \<Rightarrow> machine \<Rightarrow> machine \<Rightarrow> bool" where
  "moves c l m m' \<longleftrightarrow> place m' = (place m)(c := l) \<and> procs (shared m') = procs (shared m)
     \<and> (\<forall>d. cpuid (cpus m' d) = cpuid (cpus m d))"

lemma owner_taken [simp]: "owner (taken s lk) = Some (cpuid s)"
  by (simp add: owner_def)

lemma cpuid_flags [simp]: "cpuid (pushcli s) = cpuid s" "cpuid (sti s) = cpuid s"
  by (simp_all add: pushcli_def cli_def sti_def Let_def)

lemma tickslock_flags [simp]: "tickslock (pushcli s) = tickslock s" "tickslock (sti s) = tickslock s"
  by (simp_all add: pushcli_def cli_def sti_def Let_def)

lemma timer_acquires:
  assumes "place m c = InTimer TickAcquire" and "locked (tickslock (kst (kern (shared m)))) = 0"
  shows "\<exists>m'. cpu_step c m = Inr m' \<and> moves c (InTimer TickCount) m m' \<and> tick_owner m' = Some (cpuid (cpus m c))
     \<and> ptable_lock (shared m') = ptable_lock (shared m)"
  using assms by (simp add: cpu_step_def place_step_def do_mem_def acquire_ticks_def acquire_free moves_def)

lemma timer_counts:
  assumes "place m c = InTimer TickCount"
  shows "\<exists>m'. cpu_step c m = Inr m' \<and> moves c (InTimer TickWakeup) m m' \<and> tick_owner m' = tick_owner m
     \<and> ptable_lock (shared m') = ptable_lock (shared m)"
  using assms by (simp add: cpu_step_def place_step_def moves_def)

lemma scheduler_acquires:
  assumes "place m c = InScheduler Idle" and "locked (ptable_lock (shared m)) = 0"
  shows "\<exists>m'. cpu_step c m = Inr m' \<and> moves c (InScheduler (Scan 0)) m m' \<and> tick_owner m' = tick_owner m
     \<and> table_owner m' = Some (cpuid (cpus m c))"
  using assms by (simp add: cpu_step_def place_step_def ptable_acquire_def acquire_free moves_def)

lemma scheduler_skips:
  assumes "place m c = InScheduler (Scan j)" and "j < NPROC" and "pstate (procs (shared m) ! j) \<noteq> RUNNABLE"
  shows "\<exists>m'. cpu_step c m = Inr m' \<and> moves c (InScheduler (Scan (j + 1))) m m' \<and> tick_owner m' = tick_owner m
     \<and> table_owner m' = table_owner m"
  using assms by (simp add: cpu_step_def place_step_def moves_def)

lemma timer_waits:
  assumes "place m c = InTimer TickWakeup" and "table_owner m = Some d" and "d \<noteq> cpuid (cpus m c)"
  shows "cpu_step c m = Inl Diverge"
  using assms
  by (simp add: cpu_step_def place_step_def wakeup_def ptable_acquire_def acquire_other owner_def split: if_splits)

lemma scheduler_waits:
  assumes "place m c = InScheduler (Scan i)" and "i < NPROC" and "pstate (procs (shared m) ! i) = RUNNABLE"
    and "tick_owner m = Some d" and "d \<noteq> cpuid (cpus m c)"
  shows "cpu_step c m = Inl Diverge"
  using assms
  by (simp add: cpu_step_def place_step_def schedule_event_def do_mem_def acquire_ticks_def acquire_other owner_def
      upd_proc_def Let_def split: if_splits)

lemma scheduler_reaches:
  assumes "place m 1 = InScheduler (Scan j)" and "j \<le> i" and "i < NPROC"
    and "\<forall>k. j \<le> k \<and> k < i \<longrightarrow> pstate (procs (shared m) ! k) \<noteq> RUNNABLE" and "runs m0 m"
  shows "\<exists>m'. runs m0 m' \<and> moves 1 (InScheduler (Scan i)) m m' \<and> tick_owner m' = tick_owner m \<and> table_owner m' = table_owner m"
  using assms
proof (induction "i - j" arbitrary: j m)
  case 0
  then show ?case by (intro exI [of _ m]) (auto simp: moves_def)
next
  case (Suc n)
  then have j: "j < i" and n: "n = i - (j + 1)" by simp_all
  from j obtain m1 where m1: "cpu_step 1 m = Inr m1" "moves 1 (InScheduler (Scan (j + 1))) m m1"
      "tick_owner m1 = tick_owner m" "table_owner m1 = table_owner m"
    using scheduler_skips [OF Suc.prems(1)] Suc.prems(3,4) by force
  have "runs m0 m1" using runs.more [OF Suc.prems(5) _ m1(1)] by simp
  then obtain m' where "runs m0 m'" "moves 1 (InScheduler (Scan i)) m1 m'" "tick_owner m' = tick_owner m1"
      "table_owner m' = table_owner m1"
    using Suc.hyps(1) [of "j + 1" m1, OF n] Suc.prems(3,4) j m1(2) by (auto simp: moves_def)
  then show ?case using m1(2-4) by (auto simp: moves_def)
qed

lemma runs_stuck:
  assumes "runs m m'" and "cpu_step 0 m = Inl e" and "cpu_step 1 m = Inl e'"
  shows "m' = m"
  using assms
proof (induction rule: runs.induct)
  case (more m1 c m2)
  then have "c = 0 \<or> c = 1" by auto
  then show ?case using more by auto
qed simp

text \<open>
  C22: the clock interrupt calls \<open>wakeup\<close>, which takes \<open>ptable.lock\<close>, before it releases \<open>tickslock\<close>; the scheduler takes
  \<open>tickslock\<close> while it holds \<open>ptable.lock\<close>. From every state in which one CPU enters the clock interrupt, another its
  scheduler, both locks are free and some process is runnable, the two CPUs can come to a state in which each holds the lock that the
  other spins on; from there no step of either is possible.
\<close>

theorem scheduler_clock_deadlock:
  assumes "place m 0 = InTimer TickAcquire" and "place m 1 = InScheduler Idle"
    and "cpuid (cpus m 0) = 0" and "cpuid (cpus m 1) = 1"
    and "locked (tickslock (kst (kern (shared m)))) = 0" and "locked (ptable_lock (shared m)) = 0"
    and "i < NPROC" and "pstate (procs (shared m) ! i) = RUNNABLE"
  shows "\<exists>m'. runs m m' \<and> tick_owner m' = Some 0 \<and> table_owner m' = Some 1
    \<and> cpu_step 0 m' = Inl Diverge \<and> cpu_step 1 m' = Inl Diverge \<and> (\<forall>m2. runs m' m2 \<longleftrightarrow> m2 = m')"
proof -
  let ?r = "\<lambda>i. i < NPROC \<and> pstate (procs (shared m) ! i) = RUNNABLE"
  define f where "f = (LEAST i. ?r i)"
  have "?r f" unfolding f_def by (rule LeastI [of ?r i]) (use assms(7,8) in simp)
  then have f: "f < NPROC" "pstate (procs (shared m) ! f) = RUNNABLE" by simp_all
  have before: "pstate (procs (shared m) ! k) \<noteq> RUNNABLE" if "k < f" for k
    using not_less_Least [of k ?r] that f(1) by (simp add: f_def [symmetric])
  obtain m1 where m1: "cpu_step 0 m = Inr m1" "moves 0 (InTimer TickCount) m m1" "tick_owner m1 = Some 0"
      "ptable_lock (shared m1) = ptable_lock (shared m)"
    using timer_acquires [OF assms(1,5)] assms(3) by auto
  obtain m2 where m2: "cpu_step 0 m1 = Inr m2" "moves 0 (InTimer TickWakeup) m1 m2" "tick_owner m2 = Some 0"
      "ptable_lock (shared m2) = ptable_lock (shared m)"
    using timer_counts [of m1 0] m1 by (auto simp: moves_def)
  obtain m3 where m3: "cpu_step 1 m2 = Inr m3" "moves 1 (InScheduler (Scan 0)) m2 m3" "tick_owner m3 = Some 0"
      "table_owner m3 = Some 1"
    using scheduler_acquires [of m2 1] m1(2) m2 assms(2,4,6) by (auto simp: moves_def)
  have "runs m m3"
    using runs.more [OF runs.more [OF runs.more [OF runs.start _ m1(1)] _ m2(1)] _ m3(1)] by simp
  then obtain m4 where m4: "runs m m4" "moves 1 (InScheduler (Scan f)) m3 m4" "tick_owner m4 = Some 0" "table_owner m4 = Some 1"
    using scheduler_reaches [of m3 0 f m] m1(2) m2(2) m3 f(1) before by (auto simp: moves_def)
  have at: "place m4 0 = InTimer TickWakeup" "place m4 1 = InScheduler (Scan f)" "procs (shared m4) = procs (shared m)"
      "cpuid (cpus m4 0) = 0" "cpuid (cpus m4 1) = 1"
    using m1(2) m2(2) m3(2) m4(2) assms(3,4) by (auto simp: moves_def)
  have s: "cpu_step 0 m4 = Inl Diverge" "cpu_step 1 m4 = Inl Diverge"
    using timer_waits [OF at(1) m4(4)] scheduler_waits [OF at(2) f(1) _ m4(3)] at f(2) by simp_all
  then show ?thesis using m4(1,3,4) runs_stuck [OF _ s] runs.start by blast
qed

text \<open>A machine that meets the hypotheses: CPU 0 enters the clock interrupt and CPU 1 its scheduler, the first process is runnable.\<close>

definition two_cpus :: machine where
  "two_cpus = \<lparr>shared = two_procs,
     cpus = (\<lambda>c. \<lparr>cpuid = c, ncli = 0, intena = 0, eflags = if c = 0 then 0 else FL_IF, argp = 0, stackw = \<lambda>_. 0\<rparr>),
     curproc = (\<lambda>c. None), place = (\<lambda>c. if c = 0 then InTimer TickAcquire else InScheduler Idle)\<rparr>"

theorem scheduler_clock_deadlock_witness:
  "\<exists>m'. runs two_cpus m' \<and> tick_owner m' = Some 0 \<and> table_owner m' = Some 1
    \<and> cpu_step 0 m' = Inl Diverge \<and> cpu_step 1 m' = Inl Diverge \<and> (\<forall>m2. runs m' m2 \<longleftrightarrow> m2 = m')"
  by (rule scheduler_clock_deadlock [where i = 0])
    (simp_all add: two_cpus_def two_procs_def idle_kern_def four_pages_facts(2) zero_lock_def NPROC_def)

end
