(* ===== verification/Grep.thy ===== *)
theory Grep
  imports Prelude
begin

text \<open>
  The user program \<open>src/grep.c\<close> with the two functions of \<open>src/ulib.c\<close> that it calls. A
  string that is only read is the list of its characters, and \<open>ch\<close> reads its terminator
  past the end; the buffer that \<open>grep\<close> writes is a list of 1024 bytes, with positions
  for the pointers into it. The system call \<open>read\<close> is a parameter: a function from the
  size asked for and the state of the input to the bytes returned and the new state.

  The theorems give the matcher a meaning that does not mention its search, and show that
  for a file of lines shorter than the buffer the program writes the matching lines.
\<close>

section \<open>Definitions\<close>

definition ch :: "u8 list \<Rightarrow> nat \<Rightarrow> u8" where
  "ch s i = (if i < length s then s ! i else 0)"

lemma ch_0 [simp]: "ch [] i = 0" "ch (c # s) 0 = c" "ch (c # s) (Suc i) = ch s i"
  by (simp_all add: ch_def)

lemma ch_not_0: "ch s i \<noteq> 0 \<Longrightarrow> i < length s"
  by (simp add: ch_def split: if_splits)

text \<open>
  The regular expressions are made of \<open>^\<close> (94), \<open>.\<close> (46), \<open>*\<close> (42) and \<open>$\<close> (36).
\<close>

function matchhere :: "u8 list \<Rightarrow> u8 list \<Rightarrow> bool"
  and matchstar :: "u8 \<Rightarrow> u8 list \<Rightarrow> u8 list \<Rightarrow> bool" where
  "matchhere re s =
     (if ch re 0 = 0 then True
      else if ch re 1 = 42 then matchstar (ch re 0) (drop 2 re) s
      else if ch re 0 = 36 \<and> ch re 1 = 0 then ch s 0 = 0
      else if ch s 0 \<noteq> 0 \<and> (ch re 0 = 46 \<or> ch re 0 = ch s 0)
      then matchhere (drop 1 re) (drop 1 s)
      else False)"
| "matchstar c re s =
     (if matchhere re s then True
      else if ch s 0 \<noteq> 0 \<and> (ch s 0 = c \<or> c = 46) then matchstar c re (drop 1 s)
      else False)"
  by pat_completeness auto
termination
  by (relation "inv_image (less_than <*lex*> less_than <*lex*> less_than)
        (\<lambda>x. case x of Inl (re, s) \<Rightarrow> (length re, length s, 0)
                      | Inr (c, re, s) \<Rightarrow> (length re, length s, 1))")
    (auto dest: ch_not_0)

declare matchhere.simps [simp del] matchstar.simps [simp del]

function match_from :: "u8 list \<Rightarrow> u8 list \<Rightarrow> bool" where
  "match_from re s =
     (if matchhere re s then True
      else if ch s 0 \<noteq> 0 then match_from re (drop 1 s)
      else False)"
  by pat_completeness auto
termination
  by (relation "measure (\<lambda>(re, s). length s)") (auto dest: ch_not_0)

declare match_from.simps [simp del]

definition match :: "u8 list \<Rightarrow> u8 list \<Rightarrow> bool" where
  "match re s = (if ch re 0 = 94 then matchhere (drop 1 re) s else match_from re s)"

text \<open>\<open>strchr\<close> from a position of an array: the position found, or \<open>None\<close> at a terminator.\<close>

function strchr :: "u8 list \<Rightarrow> nat \<Rightarrow> u8 \<Rightarrow> nat option res" where
  "strchr s i c =
     (if length s \<le> i then Inl (Fault ''strchr'')
      else if s ! i = 0 then Inr None
      else if s ! i = c then Inr (Some i)
      else strchr s (i + 1) c)"
  by pat_completeness auto
termination
  by (relation "measure (\<lambda>(s, i, c). length s - i)") auto

declare strchr.simps [simp del]

text \<open>\<open>memmove\<close> of the user library copies upwards, byte by byte, whatever the overlap.\<close>

primrec move_up :: "u8 list \<Rightarrow> nat \<Rightarrow> nat \<Rightarrow> nat \<Rightarrow> u8 list res" where
  "move_up a d s 0 = Inr a"
| "move_up a d s (Suc n) =
     (if d < length a \<and> s < length a then move_up (a[d := a ! s]) (d + 1) (s + 1) n
      else Inl (Fault ''memmove''))"

definition cstr_at :: "u8 list \<Rightarrow> nat \<Rightarrow> u8 list" where
  "cstr_at a p = takeWhile (\<lambda>c. c \<noteq> 0) (drop p a)"

text \<open>
  The inner loop of \<open>grep\<close> over the lines in the buffer: the position after the last line,
  the buffer with the line ends of the lines that do not match still cleared, and what
  was written.
\<close>

lemma strchr_bounds: "strchr s i c = Inr (Some q) \<Longrightarrow> i \<le> q \<and> q < length s"
  by (induction s i c rule: strchr.induct) (subst (asm) (2) strchr.simps, auto split: if_splits)

function grep_lines :: "u8 list \<Rightarrow> u8 list \<Rightarrow> nat \<Rightarrow> u8 list \<Rightarrow> (u8 list \<times> nat \<times> u8 list) res" where
  "grep_lines pattern buf p out =
     (case strchr buf p 10 of
        Inl e \<Rightarrow> Inl e
      | Inr None \<Rightarrow> Inr (buf, p, out)
      | Inr (Some q) \<Rightarrow>
          (let buf = buf[q := 0] in
           if match pattern (cstr_at buf p)
           then let buf = buf[q := 10]
                in grep_lines pattern buf (q + 1) (out @ take (q + 1 - p) (drop p buf))
           else grep_lines pattern buf (q + 1) out))"
  by pat_completeness auto
termination
  by (relation "measure (\<lambda>(pattern, buf, p, out). length buf - p)") (auto dest!: strchr_bounds)

declare grep_lines.simps [simp del]

text \<open>One round of the outer loop after \<open>read\<close> returned the bytes \<open>bs\<close>.\<close>

definition grep_chunk ::
    "u8 list \<Rightarrow> u8 list \<Rightarrow> nat \<Rightarrow> u8 list \<Rightarrow> u8 list \<Rightarrow> (u8 list \<times> nat \<times> u8 list) res" where
  "grep_chunk pattern buf m bs out =
     (let buf = take m buf @ bs @ drop (m + length bs) buf;
          m = m + length bs
      in if length buf \<le> m then Inl (Fault ''buf'')
         else bind_res (grep_lines pattern (buf[m := 0]) 0 out) (\<lambda>(buf, p, out).
           let m = if p = 0 then 0 else m
           in if 0 < m
              then bind_res (move_up buf 0 p (m - p)) (\<lambda>buf. Inr (buf, m - p, out))
              else Inr (buf, m, out)))"

partial_function (option) grep_loop ::
    "(nat \<Rightarrow> 'f \<Rightarrow> u8 list \<times> 'f) \<Rightarrow> u8 list \<Rightarrow> u8 list \<Rightarrow> nat \<Rightarrow> 'f \<Rightarrow> u8 list
     \<Rightarrow> (u8 list \<times> u8 list \<times> 'f) res option" where
  "grep_loop rd pattern buf m fd out =
     (case rd (1024 - m - 1) fd of
        ([], fd) \<Rightarrow> Some (Inr (out, buf, fd))
      | (bs, fd) \<Rightarrow>
          (case grep_chunk pattern buf m bs out of
             Inl e \<Rightarrow> Some (Inl e)
           | Inr (buf, m, out) \<Rightarrow> grep_loop rd pattern buf m fd out))"

definition grep ::
    "(nat \<Rightarrow> 'f \<Rightarrow> u8 list \<times> 'f) \<Rightarrow> u8 list \<Rightarrow> u8 list \<Rightarrow> 'f
     \<Rightarrow> (u8 list \<times> u8 list \<times> 'f) res option" where
  "grep rd pattern buf fd = grep_loop rd pattern buf 0 fd []"


text \<open>
  \<open>main\<close>, with \<open>open\<close> as a parameter. The results are what was written to the descriptors
  1 and 2.
\<close>

definition text_of :: "string \<Rightarrow> u8 list" where
  "text_of = map of_char"

primrec grep_files ::
    "(u8 list \<Rightarrow> 'f option) \<Rightarrow> (nat \<Rightarrow> 'f \<Rightarrow> u8 list \<times> 'f) \<Rightarrow> u8 list \<Rightarrow> u8 list
     \<Rightarrow> u8 list list \<Rightarrow> u8 list \<Rightarrow> u8 list res option" where
  "grep_files opn rd pattern buf [] out = Some (Inr out)"
| "grep_files opn rd pattern buf (a # argv) out =
     (case opn a of
        None \<Rightarrow> Some (Inr (out @ text_of ''grep: cannot open '' @ a @ [10]))
      | Some fd \<Rightarrow>
          (case grep rd pattern buf fd of
             None \<Rightarrow> None
           | Some (Inl e) \<Rightarrow> Some (Inl e)
           | Some (Inr (w, buf, fd)) \<Rightarrow> grep_files opn rd pattern buf argv (out @ w)))"

definition grep_main ::
    "(u8 list \<Rightarrow> 'f option) \<Rightarrow> (nat \<Rightarrow> 'f \<Rightarrow> u8 list \<times> 'f) \<Rightarrow> 'f \<Rightarrow> u8 list list
     \<Rightarrow> (u8 list \<times> u8 list) res option" where
  "grep_main opn rd stdin argv =
     (if length argv \<le> 1
      then Some (Inr ([], text_of ''usage: grep pattern [file ...]'' @ [10]))
      else let pattern = argv ! 1; buf = replicate 1024 0 in
        if length argv \<le> 2
        then (case grep rd pattern buf stdin of
                None \<Rightarrow> None
              | Some (Inl e) \<Rightarrow> Some (Inl e)
              | Some (Inr (w, buf, fd)) \<Rightarrow> Some (Inr (w, [])))
        else (case grep_files opn rd pattern buf (drop 2 argv) [] of
                None \<Rightarrow> None
              | Some (Inl e) \<Rightarrow> Some (Inl e)
              | Some (Inr w) \<Rightarrow> Some (Inr (w, []))))"


section \<open>The meaning of a pattern\<close>

text \<open>
  A pattern is a list of items, one character or any number of characters, perhaps
  anchored at the start of the line and perhaps at its end. A dot stands for every
  character.
\<close>

datatype item = One u8 | Many u8

fun items :: "u8 list \<Rightarrow> item list" where
  "items [] = []"
| "items [c] = (if c = 36 then [] else [One c])"
| "items (c # d # re) = (if d = 42 then Many c # items re else One c # items (d # re))"

fun at_end :: "u8 list \<Rightarrow> bool" where
  "at_end [] = False"
| "at_end [c] = (c = 36)"
| "at_end (c # d # re) = (if d = 42 then at_end re else at_end (d # re))"

definition stands_for :: "u8 \<Rightarrow> u8 \<Rightarrow> bool" where
  "stands_for c x \<longleftrightarrow> c = 46 \<or> c = x"

fun lang :: "item list \<Rightarrow> u8 list set" where
  "lang [] = {[]}"
| "lang (One c # r) = {x # w |x w. stands_for c x \<and> w \<in> lang r}"
| "lang (Many c # r) = {xs @ w |xs w. (\<forall>x\<in>set xs. stands_for c x) \<and> w \<in> lang r}"

definition matches_at :: "u8 list \<Rightarrow> u8 list \<Rightarrow> bool" where
  "matches_at re s \<longleftrightarrow> (\<exists>w v. s = w @ v \<and> w \<in> lang (items re) \<and> (at_end re \<longrightarrow> v = []))"

definition line_matches :: "u8 list \<Rightarrow> u8 list \<Rightarrow> bool" where
  "line_matches re s \<longleftrightarrow>
     (if re \<noteq> [] \<and> hd re = 94 then matches_at (tl re) s
      else \<exists>u v. s = u @ v \<and> matches_at re v)"


section \<open>The matcher\<close>

definition star :: "u8 \<Rightarrow> u8 list \<Rightarrow> u8 list \<Rightarrow> bool" where
  "star c re s \<longleftrightarrow> (\<exists>xs v. s = xs @ v \<and> (\<forall>x\<in>set xs. stands_for c x) \<and> matches_at re v)"

lemma matches_at_Nil [simp]: "matches_at [] s"
  by (simp add: matches_at_def)

lemma matches_at_end: "matches_at [36] s \<longleftrightarrow> s = []"
  by (simp add: matches_at_def)

lemma matches_at_star: "matches_at (c # 42 # re) s \<longleftrightarrow> star c re s"
proof
  assume "matches_at (c # 42 # re) s"
  then obtain u v where "s = u @ v" "u \<in> lang (Many c # items re)" "at_end re \<longrightarrow> v = []"
    by (auto simp: matches_at_def simp del: lang.simps)
  then obtain xs w where "s = (xs @ w) @ v" "\<forall>x\<in>set xs. stands_for c x"
      "w \<in> lang (items re)" "at_end re \<longrightarrow> v = []"
    by simp blast
  then show "star c re s"
    unfolding star_def matches_at_def by (metis append.assoc)
next
  assume "star c re s"
  then obtain xs w v where "s = xs @ w @ v" "\<forall>x\<in>set xs. stands_for c x"
      "w \<in> lang (items re)" "at_end re \<longrightarrow> v = []"
    unfolding star_def matches_at_def by blast
  then show "matches_at (c # 42 # re) s"
    unfolding matches_at_def by (intro exI [of _ "xs @ w"] exI [of _ v]) (simp, blast)
qed

lemma matches_at_one:
  assumes "ch re 0 \<noteq> 42" and "c \<noteq> 36 \<or> re \<noteq> []"
  shows "matches_at (c # re) s \<longleftrightarrow> (\<exists>x r. s = x # r \<and> stands_for c x \<and> matches_at re r)"
proof -
  have parts: "items (c # re) = One c # items re" "at_end (c # re) = at_end re"
    using assms by (cases re; simp)+
  show ?thesis
    unfolding matches_at_def parts by (cases s) (auto simp: Cons_eq_append_conv)
qed

lemma star_unfold: "star c re s \<longleftrightarrow>
    matches_at re s \<or> (\<exists>x r. s = x # r \<and> stands_for c x \<and> star c re r)"
proof
  assume "star c re s"
  then obtain xs v where "s = xs @ v" "\<forall>x\<in>set xs. stands_for c x" "matches_at re v"
    by (auto simp: star_def)
  then show "matches_at re s \<or> (\<exists>x r. s = x # r \<and> stands_for c x \<and> star c re r)"
    by (cases xs) (auto simp: star_def)
next
  assume "matches_at re s \<or> (\<exists>x r. s = x # r \<and> stands_for c x \<and> star c re r)"
  then show "star c re s"
  proof
    assume "matches_at re s"
    then show ?thesis unfolding star_def by (intro exI [of _ "[]"] exI [of _ s]) simp
  next
    assume "\<exists>x r. s = x # r \<and> stands_for c x \<and> star c re r"
    then obtain x xs v where "s = (x # xs) @ v" "\<forall>y\<in>set (x # xs). stands_for c y"
        "matches_at re v"
      by (auto simp: star_def)
    then show ?thesis unfolding star_def by blast
  qed
qed

lemma set_drop_not: "0 \<notin> set s \<Longrightarrow> (0 :: u8) \<notin> set (drop n s)"
  using set_drop_subset by fastforce

lemma ch_eq_0: "0 \<notin> set s \<Longrightarrow> ch s 0 = 0 \<longleftrightarrow> s = []"
  by (cases s) auto

lemma ch_1_eq_0: "0 \<notin> set s \<Longrightarrow> ch s (Suc 0) = 0 \<longleftrightarrow> length s \<le> 1"
  by (cases s rule: items.cases) auto

lemma matchhere_matches:
  "0 \<notin> set re \<Longrightarrow> 0 \<notin> set s \<Longrightarrow> matchhere re s \<longleftrightarrow> matches_at re s"
  "0 \<notin> set re' \<Longrightarrow> 0 \<notin> set s' \<Longrightarrow> matchstar c re' s' \<longleftrightarrow> star c re' s'"
proof (induction re s and c re' s' rule: matchhere_matchstar.induct)
  case (1 re s)
  show ?case
  proof (cases re)
    case Nil
    then show ?thesis by (simp add: matchhere.simps)
  next
    case (Cons c r)
    show ?thesis
    proof (cases "ch r 0 = 42")
      case True
      then obtain r' where "r = 42 # r'" by (cases r) auto
      then show ?thesis using 1 Cons by (subst matchhere.simps) (simp add: matches_at_star)
    next
      case one: False
      show ?thesis
      proof (cases "c = 36 \<and> r = []")
        case True
        then show ?thesis using 1 Cons
          by (subst matchhere.simps) (simp add: matches_at_end ch_eq_0)
      next
        case False
        then show ?thesis using 1 Cons one
          by (subst matchhere.simps, cases s)
            (auto simp: matches_at_one ch_eq_0 stands_for_def)
      qed
    qed
  qed
next
  case (2 c re s)
  then show ?case
    by (subst matchstar.simps, subst star_unfold, cases s)
      (auto simp: ch_eq_0 stands_for_def)
qed

lemma match_from_matches:
  "0 \<notin> set re \<Longrightarrow> 0 \<notin> set s \<Longrightarrow> match_from re s \<longleftrightarrow> (\<exists>u v. s = u @ v \<and> matches_at re v)"
proof (induction re s rule: match_from.induct)
  case (1 re s)
  have "(\<exists>u v. s = u @ v \<and> matches_at re v) \<longleftrightarrow>
      matches_at re s \<or> (s \<noteq> [] \<and> (\<exists>u v. tl s = u @ v \<and> matches_at re v))"
    by (cases s) (auto simp: Cons_eq_append_conv)
  then show ?case
    using 1 by (subst match_from.simps, cases s) (auto simp: matchhere_matches ch_eq_0)
qed

lemma match_matches:
  "0 \<notin> set re \<Longrightarrow> 0 \<notin> set s \<Longrightarrow> match re s \<longleftrightarrow> line_matches re s"
  by (cases re)
    (auto simp: match_def line_matches_def match_from_matches matchhere_matches)


section \<open>The lines of a text\<close>

text \<open>The complete lines of a text without their line ends, and what follows the last line end.\<close>

primrec full_lines :: "u8 list \<Rightarrow> u8 list list" where
  "full_lines [] = []"
| "full_lines (c # s) =
     (if c = 10 then [] # full_lines s
      else case full_lines s of [] \<Rightarrow> [] | l # ls \<Rightarrow> (c # l) # ls)"

primrec after_lines :: "u8 list \<Rightarrow> u8 list" where
  "after_lines [] = []"
| "after_lines (c # s) =
     (if 10 \<in> set s then after_lines s else if c = 10 then s else c # s)"

definition selected :: "u8 list \<Rightarrow> u8 list \<Rightarrow> u8 list" where
  "selected pattern s =
     concat (map (\<lambda>l. if line_matches pattern l then l @ [10] else []) (full_lines s))"

lemma full_lines_none [simp]: "10 \<notin> set s \<Longrightarrow> full_lines s = []"
  by (induction s) auto

lemma full_lines_step [simp]: "10 \<notin> set l \<Longrightarrow> full_lines (l @ 10 # s) = l # full_lines s"
  by (induction l) auto

lemma after_lines_none [simp]: "10 \<notin> set s \<Longrightarrow> after_lines s = s"
  by (induction s) auto

lemma after_lines_step [simp]: "after_lines (l @ 10 # s) = after_lines s"
  by (induction l) auto

lemma lines_induct [case_names none step]:
  assumes "\<And>s. 10 \<notin> set s \<Longrightarrow> P s"
    and "\<And>l s. 10 \<notin> set l \<Longrightarrow> P s \<Longrightarrow> P (l @ (10 :: u8) # s)"
  shows "P s"
proof (induction s rule: length_induct)
  case (1 s)
  show ?case
  proof (cases "10 \<in> set s")
    case True
    then obtain l r where s: "s = l @ 10 # r" "10 \<notin> set l" by (meson split_list_first)
    then have "P r" using 1 by simp
    then show ?thesis using s assms(2) by simp
  qed (rule assms(1))
qed

lemma after_lines_no_line: "10 \<notin> set (after_lines s)"
  by (induction s rule: lines_induct) auto

lemma after_lines_suffix: "\<exists>l. s = l @ after_lines s"
  by (induction s rule: lines_induct) (auto, metis append.assoc append_Cons append_Nil)

lemma full_lines_append: "full_lines (s @ t) = full_lines s @ full_lines (after_lines s @ t)"
  by (induction s rule: lines_induct) auto

lemma selected_simps [simp]:
  "10 \<notin> set s \<Longrightarrow> selected pattern s = []"
  "10 \<notin> set l \<Longrightarrow> selected pattern (l @ 10 # s) =
     (if line_matches pattern l then l @ [10] else []) @ selected pattern s"
  by (simp_all add: selected_def)

lemma selected_append:
  "selected pattern (s @ t) = selected pattern s @ selected pattern (after_lines s @ t)"
  unfolding selected_def by (subst full_lines_append) simp

lemma long_line:
  assumes "\<forall>l\<in>set (full_lines (s @ t)). length l < n" and "10 \<notin> set s" and "n \<le> length s"
  shows "10 \<notin> set t"
proof
  assume "10 \<in> set t"
  then obtain l r where t: "t = l @ 10 # r" "10 \<notin> set l" by (meson split_list_first)
  then have "full_lines (s @ t) = (s @ l) # full_lines r"
    using assms(2) full_lines_step [of "s @ l" r] by simp
  then show False using assms by auto
qed


section \<open>The buffer\<close>

lemma strchr_found:
  "10 \<notin> set l \<Longrightarrow> 0 \<notin> set l \<Longrightarrow> strchr (pre @ l @ 10 # post) (length pre) 10
     = Inr (Some (length pre + length l))"
proof (induction l arbitrary: pre)
  case Nil
  then show ?case by (subst strchr.simps) simp
next
  case (Cons c l)
  then show ?case using Cons.IH [of "pre @ [c]"] by (subst strchr.simps) auto
qed

lemma strchr_none:
  "10 \<notin> set l \<Longrightarrow> 0 \<notin> set l \<Longrightarrow> strchr (pre @ l @ 0 # post) (length pre) 10 = Inr None"
proof (induction l arbitrary: pre)
  case Nil
  then show ?case by (subst strchr.simps) simp
next
  case (Cons c l)
  then show ?case using Cons.IH [of "pre @ [c]"] by (subst strchr.simps) auto
qed

lemma cstr_at_append: "0 \<notin> set l \<Longrightarrow> cstr_at (pre @ l @ 0 # post) (length pre) = l"
  by (simp add: cstr_at_def takeWhile_append)

lemma grep_lines_ok:
  assumes "0 \<notin> set pattern" and "0 \<notin> set s"
  shows "\<exists>pre'. grep_lines pattern (pre @ s @ 0 # post) (length pre) out
      = Inr (pre' @ after_lines s @ 0 # post, length pre', out @ selected pattern s)
      \<and> length pre' + length (after_lines s) = length pre + length s"
  using assms(2)
proof (induction s arbitrary: pre out rule: lines_induct)
  case (none s)
  then show ?case by (subst grep_lines.simps) (auto simp: strchr_none)
next
  case (step l s)
  define x where "x = (if line_matches pattern l then 10 else 0 :: u8)"
  define o' where "o' = out @ (if line_matches pattern l then l @ [10] else [])"
  have lens: "length pre + length l = length (pre @ l)" by simp
  have "grep_lines pattern (pre @ (l @ 10 # s) @ 0 # post) (length pre) out
      = grep_lines pattern ((pre @ l @ [x]) @ s @ 0 # post) (length (pre @ l @ [x])) o'"
    using step.hyps step.prems assms(1)
    by (subst grep_lines.simps)
      (simp add: strchr_found Let_def list_update_append x_def o'_def cstr_at_append match_matches)
  then show ?case
    using step.IH [of "pre @ l @ [x]" o'] step.prems step.hyps by (auto simp: o'_def)
qed

lemma move_up_ok:
  assumes "d < s" and "s + n \<le> length a"
  shows "\<exists>a'. move_up a d s n = Inr a' \<and> length a' = length a
    \<and> take d a' = take d a \<and> take n (drop d a') = take n (drop s a)"
  using assms
proof (induction n arbitrary: a d s)
  case (Suc n)
  let ?a = "a[d := a ! s]"
  obtain a' where a': "move_up ?a (d + 1) (s + 1) n = Inr a'" "length a' = length a"
      "take (d + 1) a' = take (d + 1) ?a" "take n (drop (d + 1) a') = take n (drop (s + 1) ?a)"
    using Suc.IH [of "d + 1" "s + 1" ?a] Suc.prems by auto
  have at: "take d a' = take d ?a" "a' ! d = ?a ! d"
    using arg_cong [OF a'(3), of "take d"] arg_cong [OF a'(3), of "\<lambda>x. x ! d"] Suc.prems by simp_all
  have "take (Suc n) (drop d a') = a ! s # take n (drop (s + 1) a)"
    using a'(2,4) at(2) Suc.prems by (simp add: Cons_nth_drop_Suc [of d a', symmetric])
  moreover have "take (Suc n) (drop s a) = a ! s # take n (drop (s + 1) a)"
    using Suc.prems by (simp add: Cons_nth_drop_Suc [of s a, symmetric])
  ultimately show ?case using a' at(1) Suc.prems by simp
qed simp

lemma grep_chunk_ok:
  assumes "0 \<notin> set pattern" and "0 \<notin> set c" and "0 \<notin> set bs"
    and "length buf = 1024" and "take (length c) buf = c" and "length c + length bs \<le> 1023"
  shows "\<exists>buf' c'. grep_chunk pattern buf (length c) bs out
        = Inr (buf', length c', out @ selected pattern (c @ bs))
      \<and> length buf' = 1024 \<and> take (length c') buf' = c'
      \<and> c' = (if 10 \<in> set (c @ bs) then after_lines (c @ bs) else [])"
proof -
  let ?s = "c @ bs" and ?post = "drop (length c + length bs + 1) buf"
  define b where "b = take (length c) buf @ bs @ drop (length c + length bs) buf"
  have d: "drop (length c + length bs) buf = buf ! (length c + length bs) # ?post"
    using assms(4,6) Cons_nth_drop_Suc [of "length c + length bs" buf] by simp
  have b: "b[length c + length bs := 0] = [] @ ?s @ 0 # ?post" "length b = 1024"
    using assms(4-6) by (simp_all add: b_def list_update_append d)
  obtain pre where pre: "grep_lines pattern ([] @ ?s @ 0 # ?post) (length ([] :: u8 list)) out
      = Inr (pre @ after_lines ?s @ 0 # ?post, length pre, out @ selected pattern ?s)"
      "length pre + length (after_lines ?s) = length c + length bs"
    using grep_lines_ok [OF assms(1), of ?s "[]" ?post out] assms(2,3) by auto
  let ?b = "pre @ after_lines ?s @ 0 # ?post"
  have len: "length ?b = 1024" using pre(2) assms(4,6) by simp
  have none: "pre = [] \<longleftrightarrow> 10 \<notin> set ?s"
  proof
    assume "pre = []"
    then have "length (after_lines ?s) = length ?s" using pre(2) by simp
    then have "after_lines ?s = ?s"
      using after_lines_suffix [of ?s] by (metis append_eq_append_conv append_Nil)
    then show "10 \<notin> set ?s" using after_lines_no_line [of ?s] by simp
  next
    assume "10 \<notin> set ?s"
    then show "pre = []" using pre(2) by simp
  qed
  have lines: "grep_lines pattern (b[length c + length bs := 0]) 0 out
      = Inr (?b, length pre, out @ selected pattern ?s)"
    using pre(1) unfolding b(1) by simp
  have keep: "length c + length bs - length pre = length (after_lines ?s)"
    and pos: "pre \<noteq> [] \<Longrightarrow> 0 < length c + length bs" using pre(2) by auto
  have small: "\<not> length b \<le> length c + length bs" using b(2) assms(6) by simp
  have chunk: "grep_chunk pattern buf (length c) bs out =
      (if pre = [] then Inr (?b, 0, out @ selected pattern ?s)
       else bind_res (move_up ?b 0 (length pre) (length (after_lines ?s)))
              (\<lambda>buf. Inr (buf, length (after_lines ?s), out @ selected pattern ?s)))"
    unfolding grep_chunk_def Let_def b_def [symmetric] lines using small pos
    by (cases "pre = []") (simp_all add: keep)
  show ?thesis
  proof (cases "pre = []")
    case True
    then show ?thesis using chunk none len by (intro exI [of _ ?b] exI [of _ "[]"]) simp
  next
    case False
    obtain b' where "move_up ?b 0 (length pre) (length (after_lines ?s)) = Inr b'"
        "length b' = 1024" "take (length (after_lines ?s)) b' = after_lines ?s"
      using move_up_ok [of 0 "length pre" "length (after_lines ?s)" ?b] False len by auto
    then show ?thesis using chunk none False by auto
  qed
qed


section \<open>Reading a file\<close>

text \<open>\<open>read\<close> on a regular file: as many bytes as asked for, or all that are left.\<close>

definition file_read :: "nat \<Rightarrow> u8 list \<Rightarrow> u8 list \<times> u8 list" where
  "file_read n r = (take n r, drop n r)"

lemma grep_keeps:
  assumes "\<forall>l\<in>set (full_lines (s @ r)). length l < 1023" and "length s \<le> 1023"
    and "length s < 1023 \<Longrightarrow> r = []"
    and "c = (if 10 \<in> set s then after_lines s else [])"
  shows "selected pattern (s @ r) = selected pattern s @ selected pattern (c @ r)
    \<and> (\<forall>l\<in>set (full_lines (c @ r)). length l < 1023) \<and> length c \<le> 1022 \<and> set c \<subseteq> set s
    \<and> 10 \<notin> set c"
proof (cases "10 \<in> set s")
  case True
  obtain l where l: "s = l @ after_lines s" using after_lines_suffix by blast
  with True after_lines_no_line [of s] have "l \<noteq> []" by (cases l) auto
  with arg_cong [OF l, of length] assms(2) have "length (after_lines s) \<le> 1022"
    by (cases l) auto
  moreover have "set (after_lines s) \<subseteq> set s" using arg_cong [OF l, of set] by auto
  ultimately show ?thesis
    using assms(1,4) True after_lines_no_line [of s]
    by (simp add: selected_append [of pattern s r] full_lines_append [of s r])
next
  case False
  then have "10 \<notin> set r"
    using long_line [OF assms(1) False] assms(2,3) by (cases "length s < 1023") auto
  then show ?thesis using False assms(4) by simp
qed

lemma grep_loop_file:
  assumes "0 \<notin> set pattern" and "0 \<notin> set (c @ r)" and "length buf = 1024"
    and "take (length c) buf = c" and "length c \<le> 1022" and "10 \<notin> set c"
    and "\<forall>l\<in>set (full_lines (c @ r)). length l < 1023"
  shows "\<exists>buf'. grep_loop file_read pattern buf (length c) r out
    = Some (Inr (out @ selected pattern (c @ r), buf', [])) \<and> length buf' = 1024"
  using assms(2-)
proof (induction r arbitrary: c buf out rule: length_induct)
  case (1 r)
  let ?bs = "take (1023 - length c) r" and ?r = "drop (1023 - length c) r"
  show ?case
  proof (cases "r = []")
    case True
    then show ?thesis using 1 by (subst grep_loop.simps) (simp add: file_read_def)
  next
    case False
    have zeros: "0 \<notin> set c" "0 \<notin> set ?bs" "0 \<notin> set ?r"
      using 1(2) by (auto dest: in_set_takeD in_set_dropD)
    obtain buf' c' where chunk: "grep_chunk pattern buf (length c) ?bs out
        = Inr (buf', length c', out @ selected pattern (c @ ?bs))"
      and c': "length buf' = 1024" "take (length c') buf' = c'"
        "c' = (if 10 \<in> set (c @ ?bs) then after_lines (c @ ?bs) else [])"
      using grep_chunk_ok [OF assms(1) zeros(1,2) 1(3,4)] 1(5) by fastforce
    have split: "c @ r = (c @ ?bs) @ ?r" by simp
    have sel: "selected pattern (c @ r) = selected pattern (c @ ?bs) @ selected pattern (c' @ ?r)
        \<and> (\<forall>l\<in>set (full_lines (c' @ ?r)). length l < 1023) \<and> length c' \<le> 1022
        \<and> set c' \<subseteq> set (c @ ?bs) \<and> 10 \<notin> set c'"
      unfolding split by (rule grep_keeps [OF _ _ _ c'(3)]) (use 1(5,7) in auto)
    then have "0 \<notin> set (c' @ ?r)" using zeros by auto
    with sel c' 1(1) 1(5) False obtain buf'' where
      "grep_loop file_read pattern buf' (length c') ?r (out @ selected pattern (c @ ?bs))
        = Some (Inr ((out @ selected pattern (c @ ?bs)) @ selected pattern (c' @ ?r), buf'', []))
        \<and> length buf'' = 1024"
      by (metis (no_types, lifting) diff_less length_drop length_greater_0_conv
          le_imp_less_Suc zero_less_diff numeral_nat)
    moreover have "?bs \<noteq> []" using False 1(5) by simp
    ultimately show ?thesis
      using chunk sel by (subst grep_loop.simps) (auto simp: file_read_def split: list.splits)
  qed
qed

lemma grep_file:
  assumes "0 \<notin> set pattern" and "0 \<notin> set s" and "length buf = 1024"
    and "\<forall>l\<in>set (full_lines s). length l < 1023"
  shows "\<exists>buf'. grep file_read pattern buf s = Some (Inr (selected pattern s, buf', []))
    \<and> length buf' = 1024"
  using grep_loop_file [OF assms(1), of "[]" s buf "[]"] assms(2-) by (simp add: grep_def)

lemma grep_files_all:
  assumes "0 \<notin> set pattern" and "length buf = 1024"
    and "\<forall>a\<in>set names. \<exists>s. opn a = Some s \<and> 0 \<notin> set s \<and> (\<forall>l\<in>set (full_lines s). length l < 1023)"
  shows "grep_files opn file_read pattern buf names out
    = Some (Inr (out @ concat (map (\<lambda>a. selected pattern (the (opn a))) names)))"
  using assms(2,3)
proof (induction names arbitrary: buf out)
  case (Cons a names)
  then obtain s where s: "opn a = Some s" "0 \<notin> set s" "\<forall>l\<in>set (full_lines s). length l < 1023"
    by auto
  obtain buf' where "grep file_read pattern buf s = Some (Inr (selected pattern s, buf', []))"
      "length buf' = 1024"
    using grep_file [OF assms(1) s(2) Cons.prems(1) s(3)] by blast
  then show ?case using Cons s(1) by simp
qed simp

text \<open>
  A line that arrives in two reads, as from a pipe or the console, loses its first part: the
  buffer is dropped whenever it holds no line end.
\<close>

definition chunk_read :: "nat \<Rightarrow> u8 list list \<Rightarrow> u8 list \<times> u8 list list" where
  "chunk_read n fd = (case fd of [] \<Rightarrow> ([], []) | b # bs \<Rightarrow> (b, bs))"

lemma grep_short_reads:
  assumes "0 \<notin> set pattern" and "0 \<notin> set s" and "0 \<notin> set t" and "length buf = 1024"
    and "s \<noteq> []" and "10 \<notin> set s" and "10 \<in> set t" and "length s \<le> 1023" and "length t \<le> 1023"
  shows "\<exists>buf'. grep chunk_read pattern buf [s, t] = Some (Inr (selected pattern t, buf', []))"
proof -
  obtain b where b: "grep_chunk pattern buf 0 s [] = Inr (b, 0, [])" "length b = 1024"
    using grep_chunk_ok [OF assms(1) _ assms(2,4), of "[]" "[]"] assms(6,8) by auto
  obtain b' m where "grep_chunk pattern b 0 t [] = Inr (b', m, selected pattern t)"
    using grep_chunk_ok [OF assms(1) _ assms(3) b(2), of "[]" "[]"] assms(9) by auto
  moreover obtain x xs y ys where "s = x # xs" "t = y # ys"
    using assms(5,7) by (cases s; cases t) auto
  ultimately show ?thesis
    using b by (simp add: grep_def chunk_read_def grep_loop.simps)
qed


section \<open>Searching files\<close>

text \<open>
  C20: \<open>grep\<close> with a pattern and files whose lines fit its buffer writes exactly the complete
  lines of the files that match the pattern, in order, and nothing else; and it returns. A line
  matches by the meaning of the pattern, without reference to the search of the code.
\<close>

theorem grep_prints_matching_lines:
  assumes "0 \<notin> set pattern" and "names \<noteq> []"
    and "\<forall>a\<in>set names. \<exists>s. opn a = Some s \<and> 0 \<notin> set s \<and> (\<forall>l\<in>set (full_lines s). length l < 1023)"
  shows "grep_main opn file_read stdin (prog # pattern # names) =
    Some (Inr (concat (map (\<lambda>l. if line_matches pattern l then l @ [10] else [])
      (concat (map (\<lambda>a. full_lines (the (opn a))) names))), []))"
proof -
  have "concat (map (\<lambda>l. if line_matches pattern l then l @ [10] else [])
      (concat (map (\<lambda>a. full_lines (the (opn a))) names)))
    = concat (map (\<lambda>a. selected pattern (the (opn a))) names)"
    by (induction names) (simp_all add: selected_def)
  then show ?thesis
    using grep_files_all [OF assms(1) _ assms(3), of "replicate 1024 0" "[]"] assms(2)
    by (cases names) (simp_all add: grep_main_def Let_def)
qed

theorem grep_prints_matching_lines_witness:
  "grep_main (\<lambda>a. Some [97, 98, 10, 99, 10, 98, 98, 97, 10]) file_read [] [[], [94, 97, 42, 98, 36], [102]]
    = Some (Inr ([97, 98, 10], []))"
proof -
  let ?s = "[97, 98, 10, 99, 10, 98, 98, 97, 10] :: u8 list" and ?p = "[94, 97, 42, 98, 36] :: u8 list"
  have lines: "full_lines ?s = [[97, 98], [99], [98, 98, 97]]" by simp
  have hits: "line_matches ?p [97, 98]" "\<not> line_matches ?p [99]" "\<not> line_matches ?p [98, 98, 97]"
    by (subst match_matches [symmetric],
        simp, simp, simp add: match_def matchhere.simps matchstar.simps)+
  show ?thesis
    using grep_prints_matching_lines [of ?p "[[102]]" "\<lambda>a. Some ?s" "[]" "[]"] lines hits by simp
qed

end
