(* ===== verification/Spec2Isabelle.thy ===== *)
theory Spec2Isabelle
  imports Reseed FsInode Trap Grep
begin

text \<open>
  A verification of XV6-PRNG, a teaching kernel for x86 with a pseudo-random number generator, counter-mode
  encryption and \<open>select\<close> added. The C sources are under \<open>src/\<close>.

  \<^bold>\<open>Conventions.\<close> An \<open>int\<close> or \<open>uint\<close> is a \<open>32 word\<close>, read with \<open>sint\<close> or \<open>unat\<close>, a \<open>short\<close> a
  \<open>16 word\<close>, a \<open>char\<close> an \<open>8 word\<close>. A function that changes state takes the state as a record and returns \<open>'a res\<close>: \<open>Inr\<close> of
  its result and the new state, or \<open>Inl\<close> of an error: \<open>Panic\<close> with the message of the call to \<open>panic\<close>, \<open>Fault\<close> where C leaves its
  arrays or follows a null pointer, \<open>Diverge\<close> where a spin lock is never free, \<open>Sleeps\<close> where the
  process would sleep. The crypto side of the kernel and user memory use a flat memory of bytes; the file system,
  pipes, console and process table have their arrays as lists. Records extend each other along the
  calls: \<open>cpu_st\<close>, \<open>ent_st\<close>, \<open>kmem_st\<close>, \<open>sha_st\<close>, \<open>prng_st\<close> for the crypto side; \<open>bio_st\<close>, \<open>log_st\<close>, \<open>fs_st\<close>, \<open>file_st\<close>, \<open>cons_st\<close>
  for storage; \<open>proc_st\<close> and \<open>trap_st\<close> hold both.

  \<^bold>\<open>The theories\<close>, in the order of the calls.
  \<^item> \<open>Prelude\<close>: results, words as bytes, ranges of addresses, loops (\<open>for_res\<close>).
  \<^item> \<open>CString\<close> (\<open>string.c\<close>): \<open>memset\<close>, \<open>memmove\<close>, \<open>strncmp\<close>, \<open>safestrcpy\<close> and the others.
  \<^item> \<open>Aes\<close> (\<open>aes.c\<close>): the block cipher and its key expansion; the rounds are a locale \<open>iterated_cipher\<close>.
  \<^item> \<open>Spinlock\<close>, \<open>Klock\<close> (\<open>spinlock.c\<close>): the locks with interrupts, a model of interleaved CPUs, and the locks as one thread sees them.
  \<^item> \<open>Ring\<close>, \<open>Entropy\<close> (\<open>entropyacc.c\<close>): the entropy pools, rings of 4096 bytes.
  \<^item> \<open>Kalloc\<close> (\<open>kalloc.c\<close>): the page allocator with its free list in memory, as a stack of pages.
  \<^item> \<open>Hash\<close> (\<open>hash.c\<close>), \<open>Ctr\<close> (\<open>ctr.c\<close>), \<open>Prng\<close> and \<open>Reseed\<close> (\<open>prng.c\<close>): the hash, counter mode, the generator and its reseeding.
  \<^item> \<open>Bio\<close> (\<open>bio.c\<close>, \<open>memide.c\<close>), \<open>Log\<close> (\<open>log.c\<close>): the buffer cache on the memory disk, transactions and recovery.
  \<^item> \<open>Fs\<close>, \<open>FsBlocks\<close>, \<open>FsInode\<close> (\<open>fs.c\<close>): blocks, inodes, directories and paths; the free map; inodes on disk and in the cache.
  \<^item> \<open>Select\<close> (\<open>select.c\<close>), \<open>Pipe\<close> (\<open>pipe.c\<close>), \<open>File\<close> (\<open>file.c\<close>): select lists, pipes, open files.
  \<^item> \<open>Kbd\<close> (\<open>kbd.c\<close>), \<open>Console\<close> (\<open>console.c\<close>): the keyboard decoder, output and the input line.
  \<^item> \<open>Vm\<close> (\<open>vm.c\<close>): page tables and user memory.
  \<^item> \<open>Proc\<close>, \<open>ProcTable\<close> (\<open>proc.c\<close>): processes, the scheduler, and the invariant of the table.
  \<^item> \<open>Syscall\<close> (\<open>syscall.c\<close>, \<open>sysproc.c\<close>), \<open>Sysfile\<close> (\<open>sysfile.c\<close>), \<open>Exec\<close> (\<open>exec.c\<close>), \<open>Trap\<close> (\<open>trap.c\<close>, \<open>uart.c\<close>): system calls and traps.
  \<^item> \<open>Grep\<close> (\<open>grep.c\<close>, \<open>strchr\<close> and \<open>memmove\<close> of \<open>ulib.c\<close>): the user program that searches files for a pattern.

  \<^bold>\<open>What the theorems show.\<close>
  \<^item> Random numbers: a request of fewer than a page returns the key stream of the cipher, changes the key, advances the counter and
    gives back its pages; a reseed hashes and empties every pool; without a seed and for zero bytes
    the kernel panics; the counter has a period far below \<open>2 ^ 128\<close>. The hash is the standard's construction with the rotation that the code
    computes, which drops four bits of its argument.
  \<^item> Ciphers: decryption inverts encryption, the key schedule is the standard's recurrence, the product is that of polynomials modulo
    the polynomial of the standard;
    counter mode is its own inverse on one block and overruns its array on more.
  \<^item> Memory: the allocator is a stack of pages that are not in use; \<open>copyout\<close> changes the user's bytes of its range only, and \<open>exec\<close> leaves the arguments
    where the program looks for them; \<open>argptr\<close> accepts the blocks inside the process, but wraps for negative sizes.
  \<^item> Locks: mutual exclusion over all interleavings; sections of code restore the interrupt state; the
    clock interrupt and the scheduler, interleaved on two CPUs, can deadlock.
  \<^item> Storage: a transaction survives a crash after any write of its commit whole or not at all; block allocation takes the lowest
    free block and marks only it; inodes are read back as they were written, and each has one cache entry.
  \<^item> Pipes and console: bytes are delivered in order, blocked ends are woken and go on, numbers print as themselves.
  \<^item> Processes: over every run the table keeps distinct identifiers, live parents and at most one running process.
  \<^item> User programs: \<open>grep\<close> writes the lines that match, by a meaning of patterns that does not mention its search.

  \<^bold>\<open>Interfaces.\<close> \<open>iterated_cipher\<close> (rounds of a cipher and their inverses), \<open>ring_index\<close> (positions in a ring, for pools and pipes),
  \<open>page_allocator\<close> (a stack of pages) and \<open>block_cache\<close> (the contents of disk blocks) are locales, each interpreted on the
  definitions of the component that provides it.

  \<^bold>\<open>Bounds and loops.\<close> Loops are recursions on a count or a list, or functions with a measure; loops that only end because of data in memory
  (\<open>strlen\<close>) are \<open>partial_function (option)\<close>. Loops over addresses count in natural numbers where the code's own checks keep
  them below \<open>2 ^ 32\<close>. The scheduler, which never returns, is a step function over its program counter, and every function that calls \<open>swtch\<close> or
  sleeps in a pipe or device is cut there: its first half ends with what it waits for, its second half runs when the process is woken.

  \<^bold>\<open>Not modelled.\<close>
  \<^item> Hardware: segment and page-table registers, the interrupt controllers, the timer, the IDE controller (the disk is the one of
    \<open>memide.c\<close>), initialising the serial port, boot code and assembly.
  \<^item> \<open>procdump\<close> and the messages that only print; a message before a panic is the panic's.
  \<^item> More than one CPU, except in the model of the spin lock and in the last section of \<open>Trap\<close>, where each CPU has its own registers and place.
  \<^item> The shell, the user's \<open>printf\<close> and memory allocator, and the other small programs, which only reach the kernel through
    the system calls above; the rest of \<open>ulib.c\<close>; the tests; \<open>mkfs.c\<close>, which runs on the host; build files and scripts.
  \<^item> \<open>printfmt.c\<close> is not built and includes headers that the repository does not have.
\<close>

end
